(* ===== verification/Prelude.thy ===== *)
theory Prelude
  imports Main "HOL-Library.Word" "HOL-Library.Monad_Syntax"
begin

unbundle bit_operations_syntax

text \<open>
  Shared vocabulary of the development: the machine integer types of \<^verbatim>\<open>src/types.h\<close>, addresses,
  alignment, the parent/colour packing that \<^verbatim>\<open>rbtree.h\<close> relies on, and the generic facts on
  the option monad and on words that the component theories use. Addresses are 64-bit words,
  \<^verbatim>\<open>NULL\<close> is 0, and every load or store through a pointer is a partial operation whose
  \<open>None\<close> stands for an access through the null pointer (undefined behaviour in C).
\<close>

section \<open>Machine types\<close>

type_synonym u64 = "64 word"
type_synonym u32 = "32 word"
type_synonym u16 = "16 word"
type_synonym u8 = "8 word"
type_synonym ptr = "64 word"

abbreviation NULL :: ptr where
  "NULL \<equiv> 0"

named_theorems heap_simps \<open>rewriting of reads and heap predicates past a write\<close>
named_theorems load_simps \<open>loads and stores through a valid pointer\<close>

section \<open>Alignment and the two low bits of an address\<close>

text \<open>
  \<^verbatim>\<open>struct rb_node\<close> is declared with \<^verbatim>\<open>aligned(sizeof(long))\<close>, so the two low bits of
  its address are clear.
\<close>

definition aligned :: "ptr \<Rightarrow> bool" where
  "aligned p \<longleftrightarrow> p AND 3 = 0"

lemma aligned_NULL [simp, intro]: "aligned NULL"
  by (simp add: aligned_def)

lemma bit_word_3: "bit (3 :: ptr) n \<longleftrightarrow> n = 0 \<or> n = Suc 0"
  by (auto simp: bit_numeral_rec(2) bit_1_iff split: nat.splits)

lemma bit_word_1: "bit (1 :: ptr) n \<longleftrightarrow> n = 0"
  by (simp add: bit_1_iff)

lemma bit_not_ptr: "n < LENGTH(64) \<Longrightarrow> bit (NOT (3 :: ptr)) n \<longleftrightarrow> n \<noteq> 0 \<and> n \<noteq> Suc 0"
  by (simp only: bit_not_iff possible_bit_word bit_word_3) simp

lemmas ptr_bit_simps = bit_and_iff bit_or_iff bit_word_3 bit_word_1

lemma aligned_iff_bits: "aligned p \<longleftrightarrow> \<not> bit p 0 \<and> \<not> bit p (Suc 0)"
proof
  assume "aligned p"
  then have "\<not> bit (p AND 3) 0" "\<not> bit (p AND 3) (Suc 0)"
    by (simp_all add: aligned_def)
  then show "\<not> bit p 0 \<and> \<not> bit p (Suc 0)"
    by (simp add: ptr_bit_simps)
next
  assume "\<not> bit p 0 \<and> \<not> bit p (Suc 0)"
  then show "aligned p"
    unfolding aligned_def by (intro bit_word_eqI) (metis ptr_bit_simps bit_0_eq bot_apply bot_bool_def)
qed

lemma aligned_mask_parent:
  assumes "aligned p"
  shows "p AND NOT 3 = p" and "(p OR 1) AND NOT 3 = p"
  using assms unfolding aligned_iff_bits
  by (intro bit_word_eqI, metis bit_and_iff bit_or_iff bit_not_ptr bit_word_1)+

lemma aligned_mask_parent' [simp]:
  "aligned p \<Longrightarrow> p AND - 4 = p" "aligned p \<Longrightarrow> (p OR 1) AND - 4 = p"
  using aligned_mask_parent [of p] by simp_all

lemma aligned_mask_color [simp]:
  assumes "aligned p"
  shows "p AND 1 = 0" and "(p OR 1) AND 1 = 1"
  using assms unfolding aligned_iff_bits
  by (intro bit_word_eqI, metis ptr_bit_simps bit_0_eq bot_apply bot_bool_def)+

lemma or_1_idem [simp]: "(p OR 1) OR 1 = (p OR 1 :: ptr)"
  by (simp add: or.assoc)

section \<open>Option monad\<close>

lemma bind_eq_Some: "(Option.bind m f = Some y) = (\<exists>x. m = Some x \<and> f x = Some y)"
  by (cases m) auto

lemma distinct_append_memD:
  "distinct (xs @ ys) \<Longrightarrow> x \<in> set xs \<Longrightarrow> x \<notin> set ys"
  by auto

section \<open>Lists updated at one place\<close>

text \<open>The number of elements with a property, when one element is replaced.\<close>

lemma filter_update:
  assumes "j < length ws"
  shows "length (filter P (ws[j := w])) + (if P (ws ! j) then 1 else 0) = length (filter P ws) + (if P w then 1 else 0)"
  using assms
proof (induction ws arbitrary: j)
  case Nil
  then show ?case by simp
next
  case (Cons a ws)
  show ?case
  proof (cases j)
    case 0
    then show ?thesis by simp
  next
    case (Suc k)
    then show ?thesis using Cons.IH [of k] Cons.prems by (cases "P a") simp_all
  qed
qed

end
