(* ===== verification/List_Heap.thy ===== *)
theory List_Heap
  imports Prelude
begin

text \<open>
  Pointer-level model of the circular doubly linked lists of \<^verbatim>\<open>src/list.h\<close>: one definition
  per inline function on an explicit heap of \<^verbatim>\<open>struct list_head\<close> objects, \<open>None\<close> for an
  access through a null pointer or a loop that does not return. The abstraction is
  \<open>list_at h head xs\<close>: the ring through \<open>head\<close> holds the nodes \<open>xs\<close> in this
  order. Every operation is shown to compute the corresponding operation on HOL lists.
\<close>

section \<open>The heap\<close>

record list_heap =
  l_next :: "ptr \<Rightarrow> ptr"
  l_prev :: "ptr \<Rightarrow> ptr"

definition LIST_POISON1 :: ptr where "LIST_POISON1 = 0x100 + 0xdead000000000000"
definition LIST_POISON2 :: ptr where "LIST_POISON2 = 0x200 + 0xdead000000000000"

definition set_next :: "ptr \<Rightarrow> ptr \<Rightarrow> list_heap \<Rightarrow> list_heap" where
  "set_next a v h = h\<lparr>l_next := (l_next h)(a := v)\<rparr>"

definition set_prev :: "ptr \<Rightarrow> ptr \<Rightarrow> list_heap \<Rightarrow> list_heap" where
  "set_prev a v h = h\<lparr>l_prev := (l_prev h)(a := v)\<rparr>"

definition ld_next :: "ptr \<Rightarrow> list_heap \<Rightarrow> ptr option" where
  "ld_next a h = (if a = NULL then None else Some (l_next h a))"

definition ld_prev :: "ptr \<Rightarrow> list_heap \<Rightarrow> ptr option" where
  "ld_prev a h = (if a = NULL then None else Some (l_prev h a))"

definition st_next :: "ptr \<Rightarrow> ptr \<Rightarrow> list_heap \<Rightarrow> list_heap option" where
  "st_next a v h = (if a = NULL then None else Some (set_next a v h))"

definition st_prev :: "ptr \<Rightarrow> ptr \<Rightarrow> list_heap \<Rightarrow> list_heap option" where
  "st_prev a v h = (if a = NULL then None else Some (set_prev a v h))"

section \<open>Operations\<close>

definition INIT_LIST_HEAD :: "ptr \<Rightarrow> list_heap \<Rightarrow> list_heap option" where
  "INIT_LIST_HEAD list h = do { h \<leftarrow> st_next list list h; st_prev list list h }"

definition uu_list_add :: "ptr \<Rightarrow> ptr \<Rightarrow> ptr \<Rightarrow> list_heap \<Rightarrow> list_heap option" where
  "uu_list_add new prev nxt h = do {
     h \<leftarrow> st_prev nxt new h;
     h \<leftarrow> st_next new nxt h;
     h \<leftarrow> st_prev new prev h;
     st_next prev new h }"

definition list_add :: "ptr \<Rightarrow> ptr \<Rightarrow> list_heap \<Rightarrow> list_heap option" where
  "list_add new head h = do { n \<leftarrow> ld_next head h; uu_list_add new head n h }"

definition list_add_tail :: "ptr \<Rightarrow> ptr \<Rightarrow> list_heap \<Rightarrow> list_heap option" where
  "list_add_tail new head h = do { p \<leftarrow> ld_prev head h; uu_list_add new p head h }"

definition uu_list_del :: "ptr \<Rightarrow> ptr \<Rightarrow> list_heap \<Rightarrow> list_heap option" where
  "uu_list_del prev nxt h = do { h \<leftarrow> st_prev nxt prev h; st_next prev nxt h }"

definition uu_list_del_entry :: "ptr \<Rightarrow> list_heap \<Rightarrow> list_heap option" where
  "uu_list_del_entry entry h = do {
     p \<leftarrow> ld_prev entry h;
     n \<leftarrow> ld_next entry h;
     uu_list_del p n h }"

definition list_del :: "ptr \<Rightarrow> list_heap \<Rightarrow> list_heap option" where
  "list_del entry h = do {
     p \<leftarrow> ld_prev entry h;
     n \<leftarrow> ld_next entry h;
     h \<leftarrow> uu_list_del p n h;
     h \<leftarrow> st_next entry LIST_POISON1 h;
     st_prev entry LIST_POISON2 h }"

definition list_replace :: "ptr \<Rightarrow> ptr \<Rightarrow> list_heap \<Rightarrow> list_heap option" where
  "list_replace old new h = do {
     n \<leftarrow> ld_next old h;
     h \<leftarrow> st_next new n h;
     n \<leftarrow> ld_next new h;
     h \<leftarrow> st_prev n new h;
     p \<leftarrow> ld_prev old h;
     h \<leftarrow> st_prev new p h;
     p \<leftarrow> ld_prev new h;
     st_next p new h }"

definition list_replace_init :: "ptr \<Rightarrow> ptr \<Rightarrow> list_heap \<Rightarrow> list_heap option" where
  "list_replace_init old new h = do { h \<leftarrow> list_replace old new h; INIT_LIST_HEAD old h }"

definition list_del_init :: "ptr \<Rightarrow> list_heap \<Rightarrow> list_heap option" where
  "list_del_init entry h = do { h \<leftarrow> uu_list_del_entry entry h; INIT_LIST_HEAD entry h }"

definition list_move :: "ptr \<Rightarrow> ptr \<Rightarrow> list_heap \<Rightarrow> list_heap option" where
  "list_move list head h = do { h \<leftarrow> uu_list_del_entry list h; list_add list head h }"

definition list_move_tail :: "ptr \<Rightarrow> ptr \<Rightarrow> list_heap \<Rightarrow> list_heap option" where
  "list_move_tail list head h = do { h \<leftarrow> uu_list_del_entry list h; list_add_tail list head h }"

definition list_is_last :: "ptr \<Rightarrow> ptr \<Rightarrow> list_heap \<Rightarrow> bool option" where
  "list_is_last list head h = do { n \<leftarrow> ld_next list h; Some (n = head) }"

definition list_empty :: "ptr \<Rightarrow> list_heap \<Rightarrow> bool option" where
  "list_empty head h = do { n \<leftarrow> ld_next head h; Some (n = head) }"

definition list_empty_careful :: "ptr \<Rightarrow> list_heap \<Rightarrow> bool option" where
  "list_empty_careful head h = do {
     nxt \<leftarrow> ld_next head h;
     p \<leftarrow> ld_prev head h;
     Some (nxt = head \<and> nxt = p) }"

definition list_rotate_left :: "ptr \<Rightarrow> list_heap \<Rightarrow> list_heap option" where
  "list_rotate_left head h = do {
     empty \<leftarrow> list_empty head h;
     if \<not> empty then do { first \<leftarrow> ld_next head h; list_move_tail first head h } else Some h }"

definition list_is_singular :: "ptr \<Rightarrow> list_heap \<Rightarrow> bool option" where
  "list_is_singular head h = do {
     empty \<leftarrow> list_empty head h;
     n \<leftarrow> ld_next head h;
     p \<leftarrow> ld_prev head h;
     Some (\<not> empty \<and> n = p) }"

definition uu_list_cut_position :: "ptr \<Rightarrow> ptr \<Rightarrow> ptr \<Rightarrow> list_heap \<Rightarrow> list_heap option" where
  "uu_list_cut_position list head entry h = do {
     new_first \<leftarrow> ld_next entry h;
     n \<leftarrow> ld_next head h;
     h \<leftarrow> st_next list n h;
     n \<leftarrow> ld_next list h;
     h \<leftarrow> st_prev n list h;
     h \<leftarrow> st_prev list entry h;
     h \<leftarrow> st_next entry list h;
     h \<leftarrow> st_next head new_first h;
     st_prev new_first head h }"

definition list_cut_position :: "ptr \<Rightarrow> ptr \<Rightarrow> ptr \<Rightarrow> list_heap \<Rightarrow> list_heap option" where
  "list_cut_position list head entry h = do {
     empty \<leftarrow> list_empty head h;
     if empty then Some h
     else do {
       singular \<leftarrow> list_is_singular head h;
       n \<leftarrow> ld_next head h;
       if singular \<and> n \<noteq> entry \<and> head \<noteq> entry then Some h
       else if entry = head then INIT_LIST_HEAD list h
       else uu_list_cut_position list head entry h } }"

definition uu_list_splice :: "ptr \<Rightarrow> ptr \<Rightarrow> ptr \<Rightarrow> list_heap \<Rightarrow> list_heap option" where
  "uu_list_splice list prev nxt h = do {
     first \<leftarrow> ld_next list h;
     last \<leftarrow> ld_prev list h;
     h \<leftarrow> st_prev first prev h;
     h \<leftarrow> st_next prev first h;
     h \<leftarrow> st_next last nxt h;
     st_prev nxt last h }"

definition list_splice :: "ptr \<Rightarrow> ptr \<Rightarrow> list_heap \<Rightarrow> list_heap option" where
  "list_splice list head h = do {
     empty \<leftarrow> list_empty list h;
     if \<not> empty then do { n \<leftarrow> ld_next head h; uu_list_splice list head n h } else Some h }"

definition list_splice_tail :: "ptr \<Rightarrow> ptr \<Rightarrow> list_heap \<Rightarrow> list_heap option" where
  "list_splice_tail list head h = do {
     empty \<leftarrow> list_empty list h;
     if \<not> empty then do { p \<leftarrow> ld_prev head h; uu_list_splice list p head h } else Some h }"

definition list_splice_init :: "ptr \<Rightarrow> ptr \<Rightarrow> list_heap \<Rightarrow> list_heap option" where
  "list_splice_init list head h = do {
     empty \<leftarrow> list_empty list h;
     if \<not> empty then do {
       n \<leftarrow> ld_next head h;
       h \<leftarrow> uu_list_splice list head n h;
       INIT_LIST_HEAD list h }
     else Some h }"

definition list_splice_tail_init :: "ptr \<Rightarrow> ptr \<Rightarrow> list_heap \<Rightarrow> list_heap option" where
  "list_splice_tail_init list head h = do {
     empty \<leftarrow> list_empty list h;
     if \<not> empty then do {
       p \<leftarrow> ld_prev head h;
       h \<leftarrow> uu_list_splice list p head h;
       INIT_LIST_HEAD list h }
     else Some h }"

text \<open>The positions a \<^verbatim>\<open>list_for_each\<close> (or \<^verbatim>\<open>list_for_each_entry\<close>) loop and its backward
  variant go through.\<close>

partial_function (option) list_for_each_from :: "ptr \<Rightarrow> ptr \<Rightarrow> list_heap \<Rightarrow> ptr list option" where
  "list_for_each_from pos head h =
     (if pos = head then Some []
      else do { n \<leftarrow> ld_next pos h; rest \<leftarrow> list_for_each_from n head h; Some (pos # rest) })"

declare list_for_each_from.simps [code]

definition list_for_each :: "ptr \<Rightarrow> list_heap \<Rightarrow> ptr list option" where
  "list_for_each head h = do { n \<leftarrow> ld_next head h; list_for_each_from n head h }"

partial_function (option) list_for_each_prev_from :: "ptr \<Rightarrow> ptr \<Rightarrow> list_heap \<Rightarrow> ptr list option" where
  "list_for_each_prev_from pos head h =
     (if pos = head then Some []
      else do { p \<leftarrow> ld_prev pos h; rest \<leftarrow> list_for_each_prev_from p head h; Some (pos # rest) })"

declare list_for_each_prev_from.simps [code]

definition list_for_each_prev :: "ptr \<Rightarrow> list_heap \<Rightarrow> ptr list option" where
  "list_for_each_prev head h = do { p \<leftarrow> ld_prev head h; list_for_each_prev_from p head h }"

text \<open>\<^verbatim>\<open>list_for_each_entry_safe\<close> with a body that may unlink the current entry: the next
  position is read before the body runs.\<close>

partial_function (option) list_for_each_safe_from ::
  "(ptr \<Rightarrow> list_heap \<Rightarrow> list_heap option) \<Rightarrow> ptr \<Rightarrow> ptr \<Rightarrow> ptr \<Rightarrow> list_heap \<Rightarrow> list_heap option" where
  "list_for_each_safe_from body pos n head h =
     (if pos = head then Some h
      else do {
        h \<leftarrow> body pos h;
        n' \<leftarrow> ld_next n h;
        list_for_each_safe_from body n n' head h })"

declare list_for_each_safe_from.simps [code]

definition list_for_each_safe ::
  "(ptr \<Rightarrow> list_heap \<Rightarrow> list_heap option) \<Rightarrow> ptr \<Rightarrow> list_heap \<Rightarrow> list_heap option" where
  "list_for_each_safe body head h = do {
     pos \<leftarrow> ld_next head h;
     n \<leftarrow> ld_next pos h;
     list_for_each_safe_from body pos n head h }"

section \<open>Rings in the heap\<close>

fun lseg :: "list_heap \<Rightarrow> ptr \<Rightarrow> ptr list \<Rightarrow> ptr \<Rightarrow> bool" where
  "lseg h a [] b \<longleftrightarrow> l_next h a = b \<and> l_prev h b = a"
| "lseg h a (x # xs) b \<longleftrightarrow> l_next h a = x \<and> l_prev h x = a \<and> lseg h x xs b"

definition list_at :: "list_heap \<Rightarrow> ptr \<Rightarrow> ptr list \<Rightarrow> bool" where
  "list_at h head xs \<longleftrightarrow> distinct (head # xs) \<and> NULL \<notin> set (head # xs) \<and> lseg h head xs head"

definition list_agree :: "ptr set \<Rightarrow> list_heap \<Rightarrow> list_heap \<Rightarrow> bool" where
  "list_agree S h h' \<longleftrightarrow> (\<forall>a. a \<notin> S \<longrightarrow> l_next h' a = l_next h a \<and> l_prev h' a = l_prev h a)"

named_theorems list_simps

lemma read_list_set [list_simps]:
  "l_next (set_next a v h) b = (if b = a then v else l_next h b)" "l_prev (set_next a v h) = l_prev h"
  "l_prev (set_prev a v h) b = (if b = a then v else l_prev h b)" "l_next (set_prev a v h) = l_next h"
  by (simp_all add: set_next_def set_prev_def)

lemma list_load_store [list_simps]:
  "a \<noteq> NULL \<Longrightarrow> ld_next a h = Some (l_next h a)" "a \<noteq> NULL \<Longrightarrow> ld_prev a h = Some (l_prev h a)"
  "a \<noteq> NULL \<Longrightarrow> st_next a v h = Some (set_next a v h)" "a \<noteq> NULL \<Longrightarrow> st_prev a v h = Some (set_prev a v h)"
  by (simp_all add: ld_next_def ld_prev_def st_next_def st_prev_def)

lemma lseg_append [simp]: "lseg h a (xs @ x # ys) b \<longleftrightarrow> lseg h a xs x \<and> lseg h x ys b"
  by (induction xs arbitrary: a) auto

lemma lseg_upd [list_simps]:
  "c \<noteq> a \<Longrightarrow> c \<notin> set xs \<Longrightarrow> lseg (set_next c v h) a xs b = lseg h a xs b"
  "c \<noteq> b \<Longrightarrow> c \<notin> set xs \<Longrightarrow> lseg (set_prev c v h) a xs b = lseg h a xs b"
  by (induction xs arbitrary: a) (auto simp: list_simps)

lemma list_agreeI [list_simps]:
  "list_agree S h h"
  "a \<in> S \<Longrightarrow> list_agree S h h' \<Longrightarrow> list_agree S h (set_next a v h')"
  "a \<in> S \<Longrightarrow> list_agree S h h' \<Longrightarrow> list_agree S h (set_prev a v h')"
  by (auto simp: list_agree_def list_simps)

lemma list_agree_trans: "list_agree S h h' \<Longrightarrow> list_agree S h' h'' \<Longrightarrow> list_agree S h h''"
  by (simp add: list_agree_def)

lemma list_agree_mono: "list_agree S h h' \<Longrightarrow> S \<subseteq> T \<Longrightarrow> list_agree T h h'"
  by (auto simp: list_agree_def)

lemma lseg_agree: "list_agree S h h' \<Longrightarrow> S \<inter> insert a (insert b (set xs)) = {} \<Longrightarrow> lseg h' a xs b = lseg h a xs b"
  by (induction xs arbitrary: a) (auto simp: list_agree_def)

lemma list_at_agree: "\<lbrakk>list_agree S h h'; S \<inter> set (head # xs) = {}\<rbrakk> \<Longrightarrow> list_at h' head xs = list_at h head xs"
  using lseg_agree [of S h h' head head xs] by (simp add: list_at_def)

section \<open>Insertion and removal\<close>

lemma gap_neighbours:
  shows "last (head # ys) \<in> set (head # ys @ zs)" and "hd (zs @ [head]) \<in> set (head # ys @ zs)"
proof -
  have "last (head # ys) \<in> set (head # ys)" "hd (zs @ [head]) \<in> set (zs @ [head])"
    by (intro last_in_set hd_in_set; simp)+
  then show "last (head # ys) \<in> set (head # ys @ zs)" "hd (zs @ [head]) \<in> set (head # ys @ zs)" by auto
qed

lemma uu_list_add_at:
  assumes l: "list_at h head (ys @ zs)" and n: "new \<noteq> NULL" "new \<notin> set (head # ys @ zs)"
    and p: "p = last (head # ys)" and q: "q = hd (zs @ [head])"
  shows "\<exists>h'. uu_list_add new p q h = Some h' \<and> list_at h' head (ys @ new # zs) \<and>
    list_agree (insert new (set (head # ys @ zs))) h h'"
proof -
  let ?h = "set_next p new (set_prev new p (set_next new q (set_prev q new h)))"
  have pq: "p \<noteq> NULL" "q \<noteq> NULL" "p \<in> set (head # ys @ zs)" "q \<in> set (head # ys @ zs)"
    using gap_neighbours [where head = head and ys = ys and zs = zs] l unfolding p q list_at_def by metis+
  have "uu_list_add new p q h = Some ?h"
    using n pq by (simp add: uu_list_add_def list_simps)
  moreover have "lseg ?h head (ys @ new # zs) head"
  proof (cases ys rule: rev_cases)
    case Nil
    then show ?thesis using l n p q by (cases zs) (auto simp: list_at_def list_simps)
  next
    case (snoc ys' y)
    then show ?thesis using l n p q by (cases zs) (auto simp: list_at_def list_simps)
  qed
  moreover have "list_agree (insert new (set (head # ys @ zs))) h ?h"
    using pq by (simp add: list_simps)
  ultimately show ?thesis using l n by (auto simp: list_at_def)
qed

lemma list_neighbours:
  assumes "list_at h head (ys @ e # zs)"
  shows "l_prev h e = last (head # ys)" "l_next h e = hd (zs @ [head])"
  using assms by (cases ys rule: rev_cases; cases zs; auto simp: list_at_def)+

lemma list_head_neighbours:
  assumes "list_at h head xs"
  shows "l_prev h head = last (head # xs)" "l_next h head = hd (xs @ [head])"
  using assms by (cases xs rule: rev_cases; auto simp: list_at_def) (use assms in \<open>cases xs; auto simp: list_at_def\<close>)

lemma uu_list_del_at:
  assumes l: "list_at h head (ys @ e # zs)"
  shows "\<exists>h'. uu_list_del (l_prev h e) (l_next h e) h = Some h' \<and> list_at h' head (ys @ zs) \<and>
    list_agree (set (head # ys @ zs)) h h'"
proof -
  let ?p = "last (head # ys)" and ?q = "hd (zs @ [head])"
  let ?h = "set_next ?p ?q (set_prev ?q ?p h)"
  have pq: "?p \<noteq> NULL" "?q \<noteq> NULL" "?p \<in> set (head # ys @ zs)" "?q \<in> set (head # ys @ zs)"
    using gap_neighbours [where head = head and ys = ys and zs = zs] l unfolding list_at_def by auto
  have "uu_list_del (l_prev h e) (l_next h e) h = Some ?h"
    using pq list_neighbours [OF l] by (simp add: uu_list_del_def list_simps)
  moreover have "lseg ?h head (ys @ zs) head"
  proof (cases ys rule: rev_cases)
    case Nil
    then show ?thesis using l by (cases zs) (auto simp: list_at_def list_simps)
  next
    case (snoc ys' y)
    then show ?thesis using l by (cases zs) (auto simp: list_at_def list_simps)
  qed
  moreover have "list_agree (set (head # ys @ zs)) h ?h"
    using pq by (simp add: list_simps)
  ultimately show ?thesis using l by (auto simp: list_at_def)
qed

lemma INIT_LIST_HEAD_at:
  "a \<noteq> NULL \<Longrightarrow> \<exists>h'. INIT_LIST_HEAD a h = Some h' \<and> list_at h' a [] \<and> list_agree {a} h h'"
  by (simp add: INIT_LIST_HEAD_def list_simps list_at_def)

theorem list_add_at:
  assumes "list_at h head xs" "new \<noteq> NULL" "new \<notin> set (head # xs)"
  shows "\<exists>h'. list_add new head h = Some h' \<and> list_at h' head (new # xs) \<and>
    list_agree (insert new (set (head # xs))) h h'"
  using uu_list_add_at [of h head "[]" xs new head "hd (xs @ [head])"] list_head_neighbours(2) [OF assms(1)] assms
  by (auto simp: list_add_def list_simps list_at_def)

theorem list_add_tail_at:
  assumes "list_at h head xs" "new \<noteq> NULL" "new \<notin> set (head # xs)"
  shows "\<exists>h'. list_add_tail new head h = Some h' \<and> list_at h' head (xs @ [new]) \<and>
    list_agree (insert new (set (head # xs))) h h'"
  using uu_list_add_at [of h head xs "[]" new "last (head # xs)" head] list_head_neighbours(1) [OF assms(1)] assms
  by (auto simp: list_add_tail_def list_simps list_at_def)

lemma uu_list_del_entry_at:
  assumes l: "list_at h head (ys @ e # zs)"
  shows "\<exists>h'. uu_list_del_entry e h = Some h' \<and> list_at h' head (ys @ zs) \<and>
    list_agree (set (head # ys @ zs)) h h'"
  using uu_list_del_at [OF l] l by (auto simp: uu_list_del_entry_def list_simps list_at_def)

theorem list_del_init_at:
  assumes l: "list_at h head (ys @ e # zs)"
  shows "\<exists>h'. list_del_init e h = Some h' \<and> list_at h' head (ys @ zs) \<and> list_at h' e [] \<and>
    list_agree (set (head # ys @ e # zs)) h h'"
proof -
  obtain h1 where h1: "uu_list_del_entry e h = Some h1" "list_at h1 head (ys @ zs)"
    "list_agree (set (head # ys @ zs)) h h1"
    using uu_list_del_entry_at [OF l] by blast
  have e: "e \<noteq> NULL" "e \<notin> set (head # ys @ zs)" using l by (auto simp: list_at_def)
  obtain h2 where h2: "INIT_LIST_HEAD e h1 = Some h2" "list_at h2 e []" "list_agree {e} h1 h2"
    using INIT_LIST_HEAD_at [OF e(1), of h1] by blast
  have "list_at h2 head (ys @ zs)"
    using list_at_agree [OF h2(3), of head "ys @ zs"] h1(2) e by auto
  moreover have "list_agree (set (head # ys @ e # zs)) h h2"
    by (rule list_agree_trans [OF list_agree_mono [OF h1(3)] list_agree_mono [OF h2(3)]]) auto
  ultimately show ?thesis using h1 h2 by (simp add: list_del_init_def)
qed

theorem list_del_at:
  assumes l: "list_at h head (ys @ e # zs)"
  shows "\<exists>h'. list_del e h = Some h' \<and> list_at h' head (ys @ zs) \<and>
    l_next h' e = LIST_POISON1 \<and> l_prev h' e = LIST_POISON2 \<and> list_agree (set (head # ys @ e # zs)) h h'"
proof -
  obtain h1 where h1: "uu_list_del (l_prev h e) (l_next h e) h = Some h1" "list_at h1 head (ys @ zs)"
    "list_agree (set (head # ys @ zs)) h h1"
    using uu_list_del_at [OF l] by blast
  let ?h = "set_prev e LIST_POISON2 (set_next e LIST_POISON1 h1)"
  have e: "e \<noteq> NULL" "e \<notin> set (head # ys @ zs)" using l by (auto simp: list_at_def)
  then have "list_del e h = Some ?h" using h1(1) by (simp add: list_del_def list_simps)
  moreover have "list_at ?h head (ys @ zs)" using h1(2) e by (simp add: list_at_def list_simps)
  moreover have "list_agree (set (head # ys @ e # zs)) h ?h"
    by (intro list_simps list_agree_mono [OF h1(3)]) auto
  ultimately show ?thesis by (simp add: list_simps)
qed

section \<open>Tests and loops\<close>

lemma list_at_append_neq:
  assumes "list_at h head xs"
  shows "hd (xs @ [head]) = head \<longleftrightarrow> xs = []" "last (head # xs) = head \<longleftrightarrow> xs = []"
  using assms last_in_set [of xs] by (cases xs; auto simp: list_at_def)+

theorem list_tests_at:
  assumes "list_at h head xs"
  shows "list_empty head h = Some (xs = [])" "list_empty_careful head h = Some (xs = [])"
    "list_is_singular head h = Some (length xs = 1)"
proof -
  note n = list_head_neighbours [OF assms] and a = list_at_append_neq [OF assms]
  have hd0: "head \<noteq> NULL" using assms by (simp add: list_at_def)
  show "list_empty head h = Some (xs = [])" "list_empty_careful head h = Some (xs = [])"
    using hd0 n a by (auto simp: list_empty_def list_empty_careful_def list_simps)
  have "hd (xs @ [head]) = last (head # xs) \<longleftrightarrow> length xs \<le> 1"
    using assms last_in_set [of "tl xs"] by (cases xs) (auto simp: list_at_def)
  then show "list_is_singular head h = Some (length xs = 1)"
    using hd0 n a by (cases xs) (auto simp: list_is_singular_def list_empty_def list_simps)
qed

theorem list_is_last_at:
  "list_at h head (ys @ e # zs) \<Longrightarrow> list_is_last e head h = Some (zs = [])"
  using list_neighbours(2) [of h head ys e zs]
  by (cases zs) (auto simp: list_is_last_def list_simps list_at_def)

lemma list_for_each_from_at:
  "\<lbrakk>lseg h a xs head; head \<notin> set xs; NULL \<notin> set xs\<rbrakk> \<Longrightarrow>
   list_for_each_from (hd (xs @ [head])) head h = Some xs"
proof (induction xs arbitrary: a)
  case Nil
  then show ?case by (subst list_for_each_from.simps) simp
next
  case (Cons x xs)
  then have "list_for_each_from (hd (xs @ [head])) head h = Some xs" by auto
  moreover have "l_next h x = hd (xs @ [head])" using Cons.prems(1) by (cases xs) auto
  ultimately show ?case using Cons.prems by (subst list_for_each_from.simps) (auto simp: list_simps)
qed

theorem list_for_each_at: "list_at h head xs \<Longrightarrow> list_for_each head h = Some xs"
  using list_for_each_from_at [of h head xs head] list_head_neighbours(2) [of h head xs]
  by (simp add: list_for_each_def list_simps list_at_def)

lemma list_for_each_prev_from_at:
  "\<lbrakk>lseg h head xs b; head \<notin> set xs; NULL \<notin> set xs\<rbrakk> \<Longrightarrow>
   list_for_each_prev_from (last (head # xs)) head h = Some (rev xs)"
proof (induction xs arbitrary: b rule: rev_induct)
  case Nil
  then show ?case by (subst list_for_each_prev_from.simps) simp
next
  case (snoc x xs)
  then have "list_for_each_prev_from (last (head # xs)) head h = Some (rev xs)" by auto
  moreover have "l_prev h x = last (head # xs)" using snoc.prems(1) by (cases xs rule: rev_cases) auto
  ultimately show ?case using snoc.prems by (subst list_for_each_prev_from.simps) (auto simp: list_simps)
qed

theorem list_for_each_prev_at: "list_at h head xs \<Longrightarrow> list_for_each_prev head h = Some (rev xs)"
  using list_for_each_prev_from_at [of h head xs head] list_head_neighbours(1) [of h head xs]
  by (simp add: list_for_each_prev_def list_simps list_at_def)

text \<open>Emptying a list with \<^verbatim>\<open>list_for_each_entry_safe\<close> and \<^verbatim>\<open>list_del_init\<close>, as
  \<^verbatim>\<open>dsos__purge\<close> does.\<close>

lemma list_purge_from:
  assumes "list_at h head xs"
  shows "\<exists>h'. list_for_each_safe_from list_del_init (hd (xs @ [head])) (l_next h (hd (xs @ [head]))) head h = Some h' \<and>
    list_at h' head [] \<and> (\<forall>x\<in>set xs. list_at h' x []) \<and> list_agree (set (head # xs)) h h'"
  using assms
proof (induction xs arbitrary: h)
  case Nil
  then show ?case by (subst list_for_each_safe_from.simps) (simp add: list_simps)
next
  case (Cons x xs)
  obtain h1 where h1: "list_del_init x h = Some h1" "list_at h1 head xs" "list_at h1 x []"
    "list_agree (set (head # x # xs)) h h1"
    using list_del_init_at [of h head "[]" x xs] Cons.prems by auto
  let ?n = "hd (xs @ [head])"
  have n: "l_next h x = ?n" using list_neighbours(2) [of h head "[]" x xs] Cons.prems by simp
  have n0: "?n \<noteq> NULL" using gap_neighbours(2) [where zs = xs and head = head and ys = "[]"] h1(2)
    unfolding list_at_def by auto
  obtain h' where h': "list_for_each_safe_from list_del_init ?n (l_next h1 ?n) head h1 = Some h'"
    "list_at h' head []" "\<forall>x\<in>set xs. list_at h' x []" "list_agree (set (head # xs)) h1 h'"
    using Cons.IH [OF h1(2)] by blast
  have x: "x \<noteq> head" "x \<notin> set xs" using Cons.prems by (auto simp: list_at_def)
  have "list_for_each_safe_from list_del_init x (l_next h x) head h = Some h'"
    using x h1(1) h'(1) n n0 by (subst list_for_each_safe_from.simps) (simp add: list_simps)
  moreover have "list_at h' x []" using list_at_agree [OF h'(4), of x "[]"] h1(3) x by simp
  moreover have "list_agree (set (head # x # xs)) h h'"
    by (rule list_agree_trans [OF h1(4) list_agree_mono [OF h'(4)]]) auto
  ultimately show ?case using h' by auto
qed

theorem list_purge_at:
  assumes "list_at h head xs"
  shows "\<exists>h'. list_for_each_safe list_del_init head h = Some h' \<and>
    list_at h' head [] \<and> (\<forall>x\<in>set xs. list_at h' x []) \<and> list_agree (set (head # xs)) h h'"
proof -
  have "head \<noteq> NULL" "hd (xs @ [head]) \<noteq> NULL"
    using assms gap_neighbours(2) [where zs = xs and head = head and ys = "[]"] unfolding list_at_def by auto
  with list_purge_from [OF assms] list_head_neighbours(2) [OF assms] show ?thesis
    by (simp add: list_for_each_safe_def list_simps)
qed

section \<open>Moving, replacing, cutting and splicing\<close>

theorem list_move_at:
  assumes l: "list_at h src (ys @ e # zs)" and d: "list_at h dst xs"
    and disj: "set (src # ys @ e # zs) \<inter> set (dst # xs) = {}"
  shows "\<exists>h'. list_move e dst h = Some h' \<and> list_at h' src (ys @ zs) \<and> list_at h' dst (e # xs)"
    "\<exists>h'. list_move_tail e dst h = Some h' \<and> list_at h' src (ys @ zs) \<and> list_at h' dst (xs @ [e])"
proof -
  obtain h1 where h1: "uu_list_del_entry e h = Some h1" "list_at h1 src (ys @ zs)"
    "list_agree (set (src # ys @ zs)) h h1"
    using uu_list_del_entry_at [OF l] by blast
  have e: "e \<noteq> NULL" "e \<notin> set (dst # xs)" "e \<notin> set (src # ys @ zs)" using l disj by (auto simp: list_at_def)
  have d1: "list_at h1 dst xs" using list_at_agree [OF h1(3), of dst xs] d disj by auto
  have keep: "list_at h2 src (ys @ zs)" if "list_agree (insert e (set (dst # xs))) h1 h2" for h2
    using list_at_agree [OF that, of src "ys @ zs"] h1(2) disj e by auto
  from list_add_at [OF d1 e(1,2)] keep h1(1)
  show "\<exists>h'. list_move e dst h = Some h' \<and> list_at h' src (ys @ zs) \<and> list_at h' dst (e # xs)"
    by (auto simp: list_move_def)
  from list_add_tail_at [OF d1 e(1,2)] keep h1(1)
  show "\<exists>h'. list_move_tail e dst h = Some h' \<and> list_at h' src (ys @ zs) \<and> list_at h' dst (xs @ [e])"
    by (auto simp: list_move_tail_def)
qed

theorem list_rotate_left_at:
  assumes l: "list_at h head xs"
  shows "\<exists>h'. list_rotate_left head h = Some h' \<and> list_at h' head (rotate1 xs) \<and> list_agree (set (head # xs)) h h'"
proof (cases xs)
  case Nil
  with l list_tests_at(1) [OF l] show ?thesis by (simp add: list_rotate_left_def list_simps)
next
  case (Cons x ys)
  obtain h1 where h1: "uu_list_del_entry x h = Some h1" "list_at h1 head ys" "list_agree (set (head # ys)) h h1"
    using uu_list_del_entry_at [of h head "[]" x ys] l Cons by auto
  have x: "x \<noteq> NULL" "x \<notin> set (head # ys)" "head \<noteq> NULL" using l Cons by (auto simp: list_at_def)
  obtain h2 where h2: "list_add_tail x head h1 = Some h2" "list_at h2 head (ys @ [x])"
    "list_agree (insert x (set (head # ys))) h1 h2"
    using list_add_tail_at [OF h1(2) x(1,2)] by blast
  have "list_agree (set (head # xs)) h h2"
    by (rule list_agree_trans [OF list_agree_mono [OF h1(3)] list_agree_mono [OF h2(3)]]) (auto simp: Cons)
  with h1 h2 x l list_tests_at(1) [OF l] list_head_neighbours(2) [OF l] Cons show ?thesis
    by (simp add: list_rotate_left_def list_move_tail_def list_simps)
qed

theorem list_replace_at:
  assumes l: "list_at h head (ys @ old # zs)" and n: "new \<noteq> NULL" "new \<notin> set (head # ys @ old # zs)"
  shows "\<exists>h'. list_replace old new h = Some h' \<and> list_at h' head (ys @ new # zs) \<and>
    list_agree (insert new (set (head # ys @ zs))) h h'"
proof -
  let ?p = "last (head # ys)" and ?q = "hd (zs @ [head])"
  let ?h = "set_next ?p new (set_prev new ?p (set_prev ?q new (set_next new ?q h)))"
  have pq: "?p \<noteq> NULL" "?q \<noteq> NULL" "?p \<in> set (head # ys @ zs)" "?q \<in> set (head # ys @ zs)"
    using gap_neighbours [where head = head and ys = ys and zs = zs] l unfolding list_at_def by auto
  have o: "old \<noteq> NULL" "old \<noteq> ?q" "old \<noteq> ?p" "new \<noteq> old" "old \<noteq> new"
    using pq(3,4) l n by (auto simp: list_at_def)
  have "list_replace old new h = Some ?h"
    using n pq o list_neighbours [OF l] by (simp add: list_replace_def list_simps)
  moreover have "lseg ?h head (ys @ new # zs) head"
  proof (cases ys rule: rev_cases)
    case Nil
    then show ?thesis using l n by (cases zs) (auto simp: list_at_def list_simps)
  next
    case (snoc ys' y)
    then show ?thesis using l n by (cases zs) (auto simp: list_at_def list_simps)
  qed
  moreover have "list_agree (insert new (set (head # ys @ zs))) h ?h"
    using pq by (simp add: list_simps)
  ultimately show ?thesis using l n by (auto simp: list_at_def)
qed

theorem list_replace_init_at:
  assumes l: "list_at h head (ys @ old # zs)" and n: "new \<noteq> NULL" "new \<notin> set (head # ys @ old # zs)"
  shows "\<exists>h'. list_replace_init old new h = Some h' \<and> list_at h' head (ys @ new # zs) \<and> list_at h' old []"
proof -
  obtain h1 where h1: "list_replace old new h = Some h1" "list_at h1 head (ys @ new # zs)"
    using list_replace_at [OF l n] by blast
  have o: "old \<noteq> NULL" "old \<notin> set (head # ys @ new # zs)" using l n by (auto simp: list_at_def)
  obtain h2 where h2: "INIT_LIST_HEAD old h1 = Some h2" "list_at h2 old []" "list_agree {old} h1 h2"
    using INIT_LIST_HEAD_at [OF o(1), of h1] by blast
  have "list_at h2 head (ys @ new # zs)"
    using list_at_agree [OF h2(3), of head "ys @ new # zs"] h1(2) o by auto
  with h1 h2 show ?thesis by (simp add: list_replace_init_def)
qed

text \<open>A chain of nodes linked both ways; \<open>lseg\<close> is the chain with both end points.\<close>

fun chain :: "list_heap \<Rightarrow> ptr list \<Rightarrow> bool" where
  "chain h [] \<longleftrightarrow> True"
| "chain h [x] \<longleftrightarrow> True"
| "chain h (x # y # zs) \<longleftrightarrow> l_next h x = y \<and> l_prev h y = x \<and> chain h (y # zs)"

lemma lseg_chain: "lseg h a xs b \<longleftrightarrow> chain h (a # xs @ [b])"
  by (induction xs arbitrary: a) auto

lemma chain_append: "\<lbrakk>us \<noteq> []; vs \<noteq> []\<rbrakk> \<Longrightarrow>
   chain h (us @ vs) \<longleftrightarrow> chain h us \<and> chain h vs \<and> l_next h (last us) = hd vs \<and> l_prev h (hd vs) = last us"
proof (induction h us rule: chain.induct)
  case (2 h x)
  then show ?case by (cases vs) auto
qed auto

lemma chain_upd:
  "c \<notin> set (butlast us) \<Longrightarrow> chain (set_next c v h) us = chain h us"
  "c \<notin> set (tl us) \<Longrightarrow> chain (set_prev c v h) us = chain h us"
  by (induction h us rule: chain.induct) (auto simp: list_simps)

lemma lseg_chainI:
  "\<lbrakk>chain h (xs @ [b]); l_next h a = hd (xs @ [b]); l_prev h (hd (xs @ [b])) = a\<rbrakk> \<Longrightarrow> lseg h a xs b"
  using chain_append [of "[a]" "xs @ [b]" h] by (simp add: lseg_chain)

lemma lseg_chain_snocI:
  "\<lbrakk>chain h (xs @ [e]); l_next h a = hd (xs @ [e]); l_prev h (hd (xs @ [e])) = a;
    l_next h e = b; l_prev h b = e\<rbrakk> \<Longrightarrow> lseg h a (xs @ [e]) b"
  using lseg_chainI [of h xs e a] by simp

lemma chain_notin:
  "c \<notin> set us \<Longrightarrow> chain (set_next c v h) us = chain h us"
  "c \<notin> set us \<Longrightarrow> chain (set_prev c v h) us = chain h us"
  by (induction h us rule: chain.induct) (auto simp: list_simps)

lemma last_notin_butlast: "\<lbrakk>distinct us; us \<noteq> []\<rbrakk> \<Longrightarrow> last us \<notin> set (butlast us)"
  by (induction us rule: rev_induct) auto

lemma set_tl_subset: "set (tl us) \<subseteq> set us"
  by (cases us) auto

lemma hd_notin_tl: "\<lbrakk>distinct us; us \<noteq> []\<rbrakk> \<Longrightarrow> hd us \<notin> set (tl us)"
  by (cases us) auto

lemma uu_list_splice_at:
  assumes l: "list_at h list xs" and ne: "xs \<noteq> []" and d: "list_at h head (ys @ zs)"
    and disj: "set (list # xs) \<inter> set (head # ys @ zs) = {}"
    and p: "p = last (head # ys)" and q: "q = hd (zs @ [head])"
  shows "\<exists>h'. uu_list_splice list p q h = Some h' \<and> list_at h' head (ys @ xs @ zs) \<and>
    list_agree (set xs \<union> set (head # ys @ zs)) h h'"
proof -
  let ?f = "hd xs" and ?l = "last xs"
  let ?h = "set_prev q ?l (set_next ?l q (set_next p ?f (set_prev ?f p h)))"
  have pq: "p \<noteq> NULL" "q \<noteq> NULL" "p \<in> set (head # ys @ zs)" "q \<in> set (head # ys @ zs)"
    using gap_neighbours [where head = head and ys = ys and zs = zs] d unfolding p q list_at_def by metis+
  have fl: "?f \<in> set xs" "?l \<in> set xs" using ne by simp_all
  then have fl0: "?f \<noteq> NULL" "?l \<noteq> NULL" "list \<noteq> NULL" using l by (auto simp: list_at_def)
  have "uu_list_splice list p q h = Some ?h"
    using fl0 pq ne list_head_neighbours [OF l] by (simp add: uu_list_splice_def list_simps)
  moreover have "chain ?h ((head # ys) @ xs @ (zs @ [head]))"
  proof -
    let ?U = "head # ys" and ?W = "zs @ [head]"
    have "chain h (?U @ ?W)" using d by (simp add: list_at_def lseg_chain)
    then have cU: "chain h ?U" and cW: "chain h ?W" using chain_append [of ?U ?W h] by auto
    have "chain h ([list] @ xs @ [list])" using l by (simp add: list_at_def lseg_chain)
    then have cX: "chain h xs" using ne chain_append [of "[list]" "xs @ [list]" h] chain_append [of xs "[list]" h] by auto
    have dU: "distinct ?U" "distinct ?W" "distinct xs" "set xs \<inter> set ?U = {}" "set xs \<inter> set ?W = {}"
      "set zs \<inter> set ?U = {}" "set ys \<inter> set ?W = {}"
      using l d disj by (auto simp: list_at_def)
    have U: "p \<notin> set (butlast ?U)" "p \<in> set ?U" and W: "q \<notin> set (tl ?W)" "q \<in> set ?W"
      unfolding p q using last_notin_butlast [OF dU(1)] hd_notin_tl [OF dU(2)] hd_in_set [of ?W] last_in_set [of ?U] by auto
    have X: "?l \<notin> set (butlast xs)" "?f \<notin> set (tl xs)"
      using last_notin_butlast [OF dU(3) ne] hd_notin_tl [OF dU(3) ne] by auto
    have "p \<notin> set xs" "q \<notin> set xs" "p \<notin> set zs" "q \<notin> set ys" "?f \<notin> set ?U" "?f \<notin> set ?W" "?l \<notin> set ?U" "?l \<notin> set ?W"
      using fl U(2) W(2) dU by (auto simp del: set_simps set_append)
    note nm = this U(1) W(1) X
    have "chain ?h ?U" using nm cU by (simp add: chain_upd chain_notin del: chain.simps)
    moreover have "chain ?h ?W" using nm cW by (simp add: chain_upd chain_notin del: chain.simps)
    moreover have "chain ?h xs" using nm cX by (simp add: chain_upd chain_notin del: chain.simps)
    moreover have "chain ?h (?U @ xs @ ?W) \<longleftrightarrow> chain ?h ?U \<and> chain ?h xs \<and> chain ?h ?W \<and>
        l_next ?h p = ?f \<and> l_prev ?h ?f = p \<and> l_next ?h ?l = q \<and> l_prev ?h q = ?l"
      using chain_append [of ?U "xs @ ?W" ?h] chain_append [of xs ?W ?h] ne unfolding p q by auto
    moreover have "p \<noteq> ?l" "?f \<noteq> q" using fl U(2) W(2) dU by auto
    ultimately show ?thesis by (simp add: list_simps)
  qed
  moreover have "list_agree (set xs \<union> set (head # ys @ zs)) h ?h"
    using pq fl by (intro list_agreeI) auto
  ultimately show ?thesis using l d disj by (auto simp: list_at_def lseg_chain)
qed

theorem list_splice_at:
  assumes l: "list_at h list xs" and d: "list_at h head ys" and disj: "set (list # xs) \<inter> set (head # ys) = {}"
  shows "\<exists>h'. list_splice list head h = Some h' \<and> list_at h' head (xs @ ys)"
    and "\<exists>h'. list_splice_tail list head h = Some h' \<and> list_at h' head (ys @ xs)"
    and "\<exists>h'. list_splice_init list head h = Some h' \<and> list_at h' head (xs @ ys) \<and> list_at h' list []"
    and "\<exists>h'. list_splice_tail_init list head h = Some h' \<and> list_at h' head (ys @ xs) \<and> list_at h' list []"
proof -
  have z: "list \<noteq> NULL" "head \<noteq> NULL" using l d by (auto simp: list_at_def)
  note e = list_tests_at(1) [OF l] and nb = list_head_neighbours [OF d]
  have init: "\<exists>h2. INIT_LIST_HEAD list h1 = Some h2 \<and> list_at h2 head zs \<and> list_at h2 list []"
    if "list_at h1 head zs" "set zs = set xs \<union> set ys" for h1 zs
  proof -
    obtain h2 where h2: "INIT_LIST_HEAD list h1 = Some h2" "list_at h2 list []" "list_agree {list} h1 h2"
      using INIT_LIST_HEAD_at [OF z(1), of h1] by blast
    have "{list} \<inter> set (head # zs) = {}" using l disj that(2) by (auto simp: list_at_def)
    with list_at_agree [OF h2(3), of head zs] h2 that(1) show ?thesis by auto
  qed
  have at_front: "xs \<noteq> [] \<Longrightarrow> \<exists>h1. uu_list_splice list head (l_next h head) h = Some h1 \<and> list_at h1 head (xs @ ys)"
    using uu_list_splice_at [OF l _ _ _ refl refl, of head "[]" ys] d disj nb by auto
  have at_back: "xs \<noteq> [] \<Longrightarrow> \<exists>h1. uu_list_splice list (l_prev h head) head h = Some h1 \<and> list_at h1 head (ys @ xs)"
    using uu_list_splice_at [OF l _ _ _ refl refl, of head ys "[]"] d disj nb by auto
  show "\<exists>h'. list_splice list head h = Some h' \<and> list_at h' head (xs @ ys)"
    using e at_front d z by (cases "xs = []") (auto simp: list_splice_def list_simps)
  show "\<exists>h'. list_splice_tail list head h = Some h' \<and> list_at h' head (ys @ xs)"
    using e at_back d z by (cases "xs = []") (auto simp: list_splice_tail_def list_simps)
  show "\<exists>h'. list_splice_init list head h = Some h' \<and> list_at h' head (xs @ ys) \<and> list_at h' list []"
    using e at_front init [of _ "xs @ ys"] d l z by (cases "xs = []") (fastforce simp: list_splice_init_def list_simps)+
  show "\<exists>h'. list_splice_tail_init list head h = Some h' \<and> list_at h' head (ys @ xs) \<and> list_at h' list []"
    using e at_back init [of _ "ys @ xs"] d l z by (cases "xs = []") (fastforce simp: list_splice_tail_init_def list_simps)+
qed

theorem list_cut_position_at:
  assumes d: "list_at h head (ys @ e # zs)" and l: "list \<noteq> NULL" "list \<notin> set (head # ys @ e # zs)"
  shows "\<exists>h'. list_cut_position list head e h = Some h' \<and> list_at h' list (ys @ [e]) \<and> list_at h' head zs"
proof -
  let ?f = "hd (ys @ [e])" and ?q = "hd (zs @ [head])"
  let ?h = "set_prev ?q head (set_next head ?q (set_next e list (set_prev list e (set_prev ?f list (set_next list ?f h)))))"
  let ?Y = "ys @ [e]" and ?W = "zs @ [head]"
  have f: "?f \<in> set ?Y" and q: "?q \<in> set ?W" by (intro hd_in_set; simp)+
  have d0: "NULL \<notin> set (head # ?Y @ zs)" and dY: "distinct ?Y" and dW: "distinct ?W"
    and YW: "set ?Y \<inter> set ?W = {}" and l0: "list \<notin> set ?Y" "list \<notin> set ?W"
    using d l by (auto simp: list_at_def)
  then have z: "head \<noteq> NULL" "e \<noteq> NULL" "?f \<noteq> NULL" "?q \<noteq> NULL" using f q by auto
  have nf: "l_next h head = ?f" "l_next h e = ?q"
    using list_head_neighbours(2) [OF d] list_neighbours(2) [OF d] by (auto simp: hd_append)
  have "length (ys @ e # zs) = 1 \<Longrightarrow> ?f = e" by (cases ys) auto
  then have "list_cut_position list head e h = uu_list_cut_position list head e h"
    using list_tests_at [OF d] nf z d by (auto simp: list_cut_position_def list_simps list_at_def)
  also have "\<dots> = Some ?h"
    using z l nf by (simp add: uu_list_cut_position_def list_simps)
  finally have cut: "list_cut_position list head e h = Some ?h" .
  have "chain h ([head] @ ?Y @ ?W)" using d by (simp add: list_at_def lseg_chain)
  then have cY: "chain h ?Y" and cW: "chain h ?W"
    using chain_append [of "[head]" "?Y @ ?W" h] chain_append [of ?Y ?W h] by auto
  have mem: "e \<notin> set ys" "head \<notin> set zs" "e \<in> set ?Y" "head \<in> set ?W" using dY dW by auto
  have "?f \<notin> set (tl ?Y)" "?q \<notin> set (tl ?W)" "?f \<notin> set ?W" "?q \<notin> set ?Y" "head \<notin> set ?Y" "e \<notin> set ?W"
    using hd_notin_tl [OF dY] hd_notin_tl [OF dW] f q YW mem(3,4) by (simp, simp, blast+)
  note nm = this mem(1,2) l0
  have cY': "chain ?h ?Y" using nm cY by (simp add: chain_upd chain_notin del: chain.simps)
  have cW': "chain ?h ?W" using nm cW by (simp add: chain_upd chain_notin del: chain.simps)
  have links: "l_next ?h list = ?f" "l_prev ?h ?f = list" "l_next ?h e = list" "l_prev ?h list = e"
    "l_next ?h head = ?q" "l_prev ?h ?q = head"
  proof -
    have "list \<noteq> ?f" "?f \<noteq> ?q" "list \<noteq> ?q" "e \<noteq> head" "list \<noteq> e" "list \<noteq> head"
      using nm mem f q by metis+
    then show "l_next ?h list = ?f" "l_prev ?h ?f = list" "l_next ?h e = list" "l_prev ?h list = e"
      "l_next ?h head = ?q" "l_prev ?h ?q = head"
      by (simp_all add: list_simps)
  qed
  have "lseg ?h list ?Y list" by (rule lseg_chain_snocI [OF cY' links(1-4)])
  moreover have "lseg ?h head zs head" by (rule lseg_chainI [OF cW' links(5,6)])
  ultimately show ?thesis using cut d l by (simp add: list_at_def)
qed

end
