(* ===== verification/Queue_Heap.thy ===== *)
theory Queue_Heap
  imports List_Heap
begin

text \<open>
  The intrusive queues of \<^verbatim>\<open>src/queue.h\<close>. A \<^verbatim>\<open>QUEUE\<close> is an array of two pointers with the
  layout of a \<^verbatim>\<open>struct list_head\<close> (\<^verbatim>\<open>QUEUE_NEXT\<close> is element 0, \<^verbatim>\<open>QUEUE_PREV\<close> element 1), so
  the heap and the abstraction of \<^verbatim>\<open>List_Heap\<close> serve both. The contract that both
  implementations give their clients is the locale \<open>ring_ops\<close>; both interpret it.
\<close>

section \<open>The macros of queue.h\<close>

definition QUEUE_NEXT :: "ptr \<Rightarrow> list_heap \<Rightarrow> ptr option" where
  "QUEUE_NEXT q h = ld_next q h"

definition QUEUE_PREV :: "ptr \<Rightarrow> list_heap \<Rightarrow> ptr option" where
  "QUEUE_PREV q h = ld_prev q h"

definition set_QUEUE_PREV_NEXT :: "ptr \<Rightarrow> ptr \<Rightarrow> list_heap \<Rightarrow> list_heap option" where
  "set_QUEUE_PREV_NEXT q v h = do { p \<leftarrow> QUEUE_PREV q h; st_next p v h }"

definition set_QUEUE_NEXT_PREV :: "ptr \<Rightarrow> ptr \<Rightarrow> list_heap \<Rightarrow> list_heap option" where
  "set_QUEUE_NEXT_PREV q v h = do { n \<leftarrow> QUEUE_NEXT q h; st_prev n v h }"

definition QUEUE_EMPTY :: "ptr \<Rightarrow> list_heap \<Rightarrow> bool option" where
  "QUEUE_EMPTY q h = do { n \<leftarrow> QUEUE_NEXT q h; Some (q = n) }"

definition QUEUE_HEAD :: "ptr \<Rightarrow> list_heap \<Rightarrow> ptr option" where
  "QUEUE_HEAD q h = QUEUE_NEXT q h"

definition QUEUE_INIT :: "ptr \<Rightarrow> list_heap \<Rightarrow> list_heap option" where
  "QUEUE_INIT q h = do { h \<leftarrow> st_next q q h; st_prev q q h }"

definition QUEUE_ADD :: "ptr \<Rightarrow> ptr \<Rightarrow> list_heap \<Rightarrow> list_heap option" where
  "QUEUE_ADD head n h = do {
     v \<leftarrow> QUEUE_NEXT n h;
     h \<leftarrow> set_QUEUE_PREV_NEXT head v h;
     v \<leftarrow> QUEUE_PREV head h;
     h \<leftarrow> set_QUEUE_NEXT_PREV n v h;
     v \<leftarrow> QUEUE_PREV n h;
     h \<leftarrow> st_prev head v h;
     set_QUEUE_PREV_NEXT head head h }"

definition QUEUE_SPLIT :: "ptr \<Rightarrow> ptr \<Rightarrow> ptr \<Rightarrow> list_heap \<Rightarrow> list_heap option" where
  "QUEUE_SPLIT head q n h = do {
     v \<leftarrow> QUEUE_PREV head h;
     h \<leftarrow> st_prev n v h;
     h \<leftarrow> set_QUEUE_PREV_NEXT n n h;
     h \<leftarrow> st_next n q h;
     v \<leftarrow> QUEUE_PREV q h;
     h \<leftarrow> st_prev head v h;
     h \<leftarrow> set_QUEUE_PREV_NEXT head head h;
     st_prev q n h }"

definition QUEUE_MOVE :: "ptr \<Rightarrow> ptr \<Rightarrow> list_heap \<Rightarrow> list_heap option" where
  "QUEUE_MOVE head n h = do {
     empty \<leftarrow> QUEUE_EMPTY head h;
     if empty then QUEUE_INIT n h
     else do { q \<leftarrow> QUEUE_HEAD head h; QUEUE_SPLIT head q n h } }"

definition QUEUE_INSERT_HEAD :: "ptr \<Rightarrow> ptr \<Rightarrow> list_heap \<Rightarrow> list_heap option" where
  "QUEUE_INSERT_HEAD head q h = do {
     v \<leftarrow> QUEUE_NEXT head h;
     h \<leftarrow> st_next q v h;
     h \<leftarrow> st_prev q head h;
     h \<leftarrow> set_QUEUE_NEXT_PREV q q h;
     st_next head q h }"

definition QUEUE_INSERT_TAIL :: "ptr \<Rightarrow> ptr \<Rightarrow> list_heap \<Rightarrow> list_heap option" where
  "QUEUE_INSERT_TAIL head q h = do {
     h \<leftarrow> st_next q head h;
     v \<leftarrow> QUEUE_PREV head h;
     h \<leftarrow> st_prev q v h;
     h \<leftarrow> set_QUEUE_PREV_NEXT q q h;
     st_prev head q h }"

definition QUEUE_REMOVE :: "ptr \<Rightarrow> list_heap \<Rightarrow> list_heap option" where
  "QUEUE_REMOVE q h = do {
     v \<leftarrow> QUEUE_NEXT q h;
     h \<leftarrow> set_QUEUE_PREV_NEXT q v h;
     v \<leftarrow> QUEUE_PREV q h;
     set_QUEUE_NEXT_PREV q v h }"

definition QUEUE_FOREACH :: "ptr \<Rightarrow> list_heap \<Rightarrow> ptr list option" where
  "QUEUE_FOREACH head h = do { n \<leftarrow> QUEUE_NEXT head h; list_for_each_from n head h }"

section \<open>The contract of a ring\<close>

text \<open>A sequence of insertions at the tail, in program order.\<close>

fun add_all :: "(ptr \<Rightarrow> ptr \<Rightarrow> list_heap \<Rightarrow> list_heap option) \<Rightarrow> ptr \<Rightarrow> ptr list \<Rightarrow> list_heap \<Rightarrow> list_heap option" where
  "add_all add head [] h = Some h"
| "add_all add head (x # xs) h = do { h \<leftarrow> add head x h; add_all add head xs h }"

locale ring_ops =
  fixes init :: "ptr \<Rightarrow> list_heap \<Rightarrow> list_heap option"
    and is_empty :: "ptr \<Rightarrow> list_heap \<Rightarrow> bool option"
    and insert_head :: "ptr \<Rightarrow> ptr \<Rightarrow> list_heap \<Rightarrow> list_heap option"
    and insert_tail :: "ptr \<Rightarrow> ptr \<Rightarrow> list_heap \<Rightarrow> list_heap option"
    and remove :: "ptr \<Rightarrow> list_heap \<Rightarrow> list_heap option"
    and foreach :: "ptr \<Rightarrow> list_heap \<Rightarrow> ptr list option"
  assumes init_law: "head \<noteq> NULL \<Longrightarrow> \<exists>h'. init head h = Some h' \<and> list_at h' head []"
    and empty_law: "list_at h head xs \<Longrightarrow> is_empty head h = Some (xs = [])"
    and head_law: "\<lbrakk>list_at h head xs; x \<noteq> NULL; x \<notin> set (head # xs)\<rbrakk> \<Longrightarrow>
      \<exists>h'. insert_head head x h = Some h' \<and> list_at h' head (x # xs)"
    and tail_law: "\<lbrakk>list_at h head xs; x \<noteq> NULL; x \<notin> set (head # xs)\<rbrakk> \<Longrightarrow>
      \<exists>h'. insert_tail head x h = Some h' \<and> list_at h' head (xs @ [x])"
    and remove_law: "list_at h head (xs @ x # ys) \<Longrightarrow> \<exists>h'. remove x h = Some h' \<and> list_at h' head (xs @ ys)"
    and foreach_law: "list_at h head xs \<Longrightarrow> foreach head h = Some xs"
begin

lemma add_all_tail:
  "\<lbrakk>list_at h head xs; distinct (head # xs @ ys); NULL \<notin> set ys\<rbrakk> \<Longrightarrow>
   \<exists>h'. add_all insert_tail head ys h = Some h' \<and> list_at h' head (xs @ ys)"
proof (induction ys arbitrary: h xs)
  case (Cons y ys)
  obtain h1 where h1: "insert_tail head y h = Some h1" "list_at h1 head (xs @ [y])"
    using tail_law [OF Cons.prems(1), of y] Cons.prems(2,3) by auto
  with Cons.IH [of h1 "xs @ [y]"] Cons.prems(2,3) show ?case by auto
qed simp

text \<open>First in, first out: what was added in the order \<open>ys\<close> to a fresh ring is visited in the
  order \<open>ys\<close>, and the ring reports itself empty only if nothing was added.\<close>

lemma fifo:
  assumes "head \<noteq> NULL" "distinct (head # ys)" "NULL \<notin> set ys"
  shows "\<exists>h1 h2. init head h = Some h1 \<and> add_all insert_tail head ys h1 = Some h2 \<and>
    foreach head h2 = Some ys \<and> is_empty head h2 = Some (ys = [])"
  using init_law [OF assms(1), of h] add_all_tail [of _ head "[]" ys] assms foreach_law empty_law by fastforce

lemma insert_remove:
  assumes "list_at h head xs" "x \<noteq> NULL" "x \<notin> set (head # xs)"
  shows "\<exists>h1 h2. insert_head head x h = Some h1 \<and> remove x h1 = Some h2 \<and> list_at h2 head xs"
    and "\<exists>h1 h2. insert_tail head x h = Some h1 \<and> remove x h1 = Some h2 \<and> list_at h2 head xs"
  using head_law [OF assms] tail_law [OF assms] remove_law [of _ head "[]" x xs] remove_law [of _ head xs x "[]"] by auto

end

interpretation list_ring: ring_ops INIT_LIST_HEAD list_empty "\<lambda>head x. list_add x head" "\<lambda>head x. list_add_tail x head"
  list_del_init list_for_each
proof
  show "head \<noteq> NULL \<Longrightarrow> \<exists>h'. INIT_LIST_HEAD head h = Some h' \<and> list_at h' head []" for head h
    using INIT_LIST_HEAD_at by blast
qed (metis list_tests_at(1) list_add_at list_add_tail_at list_del_init_at list_for_each_at)+

section \<open>queue.h meets the contract\<close>

lemma QUEUE_same: "QUEUE_INIT = INIT_LIST_HEAD" "QUEUE_EMPTY = list_empty" "QUEUE_FOREACH = list_for_each"
  by (auto simp: fun_eq_iff QUEUE_INIT_def INIT_LIST_HEAD_def QUEUE_EMPTY_def list_empty_def QUEUE_NEXT_def
      QUEUE_FOREACH_def list_for_each_def ld_next_def)

lemmas queue_defs = QUEUE_NEXT_def QUEUE_PREV_def set_QUEUE_PREV_NEXT_def set_QUEUE_NEXT_PREV_def

lemma list_heap_eqI: "\<lbrakk>\<And>a. l_next g a = l_next h a; \<And>a. l_prev g a = l_prev h a\<rbrakk> \<Longrightarrow> g = (h :: list_heap)"
  by (rule list_heap.equality) (auto simp: fun_eq_iff)

lemma ring_members:
  assumes "list_at h head xs"
  shows "head \<noteq> NULL" "l_prev h head \<in> set (head # xs)" "l_next h head \<in> set (head # xs)"
    "l_prev h head \<noteq> NULL" "l_next h head \<noteq> NULL"
proof -
  show "l_prev h head \<in> set (head # xs)" "l_next h head \<in> set (head # xs)"
    using list_head_neighbours [OF assms] last_in_set [of "head # xs"] hd_in_set [of "xs @ [head]"] by auto
  then show "head \<noteq> NULL" "l_prev h head \<noteq> NULL" "l_next h head \<noteq> NULL"
    using assms by (auto simp: list_at_def)
qed

lemma lseg_prev_next: "lseg h a xs b \<Longrightarrow> l_next h (l_prev h b) = b"
  by (cases xs rule: rev_cases) auto

lemma QUEUE_INSERT_eq:
  assumes "list_at h head xs" "x \<noteq> NULL" "x \<notin> set (head # xs)"
  shows "QUEUE_INSERT_HEAD head x h = list_add x head h" "QUEUE_INSERT_TAIL head x h = list_add_tail x head h"
proof -
  note m = ring_members [OF assms(1)]
  have n: "l_next h head \<noteq> x" "l_prev h head \<noteq> x" "head \<noteq> x" using m assms(3) by auto
  show "QUEUE_INSERT_HEAD head x h = list_add x head h"
    using m(1,4,5) n assms(2)
    by (auto simp: QUEUE_INSERT_HEAD_def list_add_def uu_list_add_def queue_defs list_simps intro!: list_heap_eqI)
  show "QUEUE_INSERT_TAIL head x h = list_add_tail x head h"
    using m(1,4,5) n assms(2)
    by (auto simp: QUEUE_INSERT_TAIL_def list_add_tail_def uu_list_add_def queue_defs list_simps intro!: list_heap_eqI)
qed

lemma entry_members:
  assumes "list_at h head (ys @ e # zs)"
  shows "e \<noteq> NULL" "l_prev h e \<in> set (head # ys @ zs)" "l_next h e \<in> set (head # ys @ zs)"
    "l_prev h e \<noteq> NULL" "l_next h e \<noteq> NULL" "l_prev h e \<noteq> e" "l_next h e \<noteq> e"
proof -
  show *: "l_prev h e \<in> set (head # ys @ zs)" "l_next h e \<in> set (head # ys @ zs)"
    using list_neighbours [OF assms] last_in_set [of "head # ys"] hd_in_set [of "zs @ [head]"] by auto
  then show "e \<noteq> NULL" "l_prev h e \<noteq> NULL" "l_next h e \<noteq> NULL" "l_prev h e \<noteq> e" "l_next h e \<noteq> e"
    using assms by (auto simp: list_at_def)
qed

lemma QUEUE_REMOVE_eq:
  assumes "list_at h head (ys @ e # zs)"
  shows "QUEUE_REMOVE e h = uu_list_del_entry e h"
  using entry_members [OF assms]
  by (auto simp: QUEUE_REMOVE_def uu_list_del_entry_def uu_list_del_def queue_defs list_simps intro!: list_heap_eqI)

interpretation queue_ring: ring_ops QUEUE_INIT QUEUE_EMPTY QUEUE_INSERT_HEAD QUEUE_INSERT_TAIL QUEUE_REMOVE QUEUE_FOREACH
proof
  show "\<exists>h'. QUEUE_REMOVE x h = Some h' \<and> list_at h' head (xs @ ys)" if "list_at h head (xs @ x # ys)" for h head xs x ys
    using uu_list_del_entry_at [OF that] QUEUE_REMOVE_eq [OF that] by auto
qed (unfold QUEUE_same, use list_ring.init_law list_ring.empty_law list_ring.head_law list_ring.tail_law
    list_ring.foreach_law QUEUE_INSERT_eq in simp_all)

theorem QUEUE_ADD_at:
  assumes l: "list_at h head xs" and d: "list_at h n ys" and disj: "set (head # xs) \<inter> set (n # ys) = {}"
  shows "\<exists>h'. QUEUE_ADD head n h = Some h' \<and> list_at h' head (xs @ ys)"
proof (cases "ys = []")
  case True
  note m = ring_members [OF l]
  have pn: "l_next h (l_prev h head) = head" using l by (auto simp: list_at_def intro: lseg_prev_next)
  have n: "l_next h n = n" "l_prev h n = n" "n \<noteq> NULL" "n \<noteq> head" "n \<noteq> l_prev h head" "l_prev h head \<noteq> n"
    using d True m(2) disj by (auto simp: list_at_def)
  let ?h = "set_next (l_prev h head) head (set_prev head (l_prev h head) (set_prev n (l_prev h head) (set_next (l_prev h head) n h)))"
  have "QUEUE_ADD head n h = Some ?h"
    using n m(1,4) by (simp add: QUEUE_ADD_def queue_defs list_simps)
  moreover have "list_agree {n} h ?h" using n pn by (auto simp: list_agree_def list_simps)
  ultimately show ?thesis using list_at_agree [of "{n}" h ?h head xs] True l disj by auto
next
  case False
  note m = ring_members [OF l] ring_members [OF d] list_at_append_neq [OF d] list_head_neighbours [OF d]
  have "l_prev h n \<in> set ys" "l_next h n \<in> set ys" using m False by auto
  then have ne: "l_next h n \<noteq> l_prev h head" "l_prev h n \<noteq> l_prev h head" "n \<noteq> l_next h n" "n \<noteq> l_prev h head"
      "n \<noteq> head" "l_next h n \<noteq> head" "l_prev h n \<noteq> head" "n \<noteq> l_prev h n"
    using m(2) disj d by (auto simp: list_at_def)
  have "QUEUE_ADD head n h = list_splice_tail n head h"
    using ne ne [symmetric] m(1,4,6,9,10) list_tests_at(1) [OF d] False
    by (auto simp: QUEUE_ADD_def list_splice_tail_def uu_list_splice_def queue_defs list_simps intro!: list_heap_eqI)
  then show ?thesis using list_splice_at(2) [OF d l] disj by auto
qed

theorem QUEUE_SPLIT_at:
  assumes l: "list_at h head (ys @ q # zs)" and n: "n \<noteq> NULL" "n \<notin> set (head # ys @ q # zs)"
  shows "\<exists>h'. QUEUE_SPLIT head q n h = Some h' \<and> list_at h' head ys \<and> list_at h' n (q # zs)"
proof -
  let ?U = "head # ys" and ?W = "q # zs"
  let ?L = "last ?W" and ?P = "last ?U"
  let ?h = "set_prev q n (set_next ?P head (set_prev head ?P (set_next n q (set_next ?L n (set_prev n ?L h)))))"
  have LP: "?L \<in> set ?W" "?P \<in> set ?U" by (intro last_in_set; simp)+
  have dU: "distinct ?U" "distinct ?W" "set ?U \<inter> set ?W = {}" "n \<notin> set ?U" "n \<notin> set ?W" "NULL \<notin> set ?U" "NULL \<notin> set ?W"
    using l n by (auto simp: list_at_def)
  have ne: "?L \<noteq> NULL" "?P \<noteq> NULL" "n \<noteq> q" "n \<noteq> ?P" "n \<noteq> ?L" "n \<noteq> head" "head \<noteq> NULL" "q \<noteq> NULL" "q \<noteq> head" "?L \<noteq> ?P"
    "?L \<noteq> head" "q \<noteq> ?P"
    using LP dU by (metis list.set_intros(1) disjoint_iff)+
  have nb: "l_prev h head = ?L" "l_prev h q = ?P"
    using list_head_neighbours(1) [OF l] list_neighbours(1) [OF l] by auto
  have split: "QUEUE_SPLIT head q n h = Some ?h"
    using ne nb n(1) by (simp add: QUEUE_SPLIT_def queue_defs list_simps del: last.simps)
  have "chain h (?U @ ?W @ [head])" using l by (simp add: list_at_def lseg_chain)
  then have cU: "chain h ?U" and cW: "chain h ?W"
    using chain_append [of ?U "?W @ [head]" h] chain_append [of ?W "[head]" h] by auto
  have "?P \<notin> set (butlast ?U)" "?L \<notin> set (butlast ?W)" "q \<notin> set (tl ?W)" "head \<notin> set (tl ?U)"
    using last_notin_butlast [OF dU(1)] last_notin_butlast [OF dU(2)] dU(1,2) by simp_all
  moreover have "?L \<notin> set ?U" "?P \<notin> set ?W" "q \<notin> set ?U" "head \<notin> set ?W"
    using LP dU by (metis list.set_intros(1) disjoint_iff)+
  ultimately have cU': "chain ?h ?U" and cW': "chain ?h ?W"
    using cU cW dU(4,5) by (simp_all add: chain_upd chain_notin del: chain.simps last.simps butlast.simps set_simps list.sel)
  have links: "l_next ?h ?P = head" "l_prev ?h head = ?P" "l_next ?h ?L = n" "l_prev ?h n = ?L" "l_next ?h n = q" "l_prev ?h q = n"
    using ne by (simp_all add: list_simps del: last.simps)
  have "chain ?h (?U @ [head])" "chain ?h ([n] @ ?W @ [n])"
    using chain_append [of ?U "[head]" ?h] chain_append [of "[n]" "?W @ [n]" ?h] chain_append [of ?W "[n]" ?h] cU' cW' links
    by (simp_all only: list.sel append_Cons append_Nil chain.simps last.simps simp_thms list.simps)
  then show ?thesis using split dU n by (simp add: list_at_def lseg_chain)
qed

theorem QUEUE_MOVE_at:
  assumes l: "list_at h head xs" and n: "n \<noteq> NULL" "n \<notin> set (head # xs)"
  shows "\<exists>h'. QUEUE_MOVE head n h = Some h' \<and> list_at h' head [] \<and> list_at h' n xs"
proof (cases xs)
  case Nil
  obtain h' where h': "QUEUE_INIT n h = Some h'" "list_at h' n []" "list_agree {n} h h'"
    using INIT_LIST_HEAD_at [OF n(1), of h] by (auto simp: QUEUE_same)
  with list_at_agree [OF h'(3), of head "[]"] l n Nil list_tests_at(1) [OF l] show ?thesis
    by (auto simp: QUEUE_MOVE_def QUEUE_same)
next
  case (Cons q zs)
  with l n QUEUE_SPLIT_at [of h head "[]" q zs n] list_tests_at(1) [OF l] list_head_neighbours(2) [OF l] ring_members(1) [OF l]
  show ?thesis by (simp add: QUEUE_MOVE_def QUEUE_same QUEUE_HEAD_def QUEUE_NEXT_def list_simps)
qed
end
