(* ===== verification/List_Iter.thy ===== *)
theory List_Iter
  imports List_Heap
begin

text \<open>
  The entry macros of \<^verbatim>\<open>src/list.h\<close>. An entry is a structure with a \<^verbatim>\<open>struct list_head\<close> at the offset
  \<open>off\<close>; \<^verbatim>\<open>container_of\<close> (\<^verbatim>\<open>src/utility.h\<close>) subtracts it from the address of the node. A loop
  is given by the entries it visits, or, for the loops that are safe against removal, by its effect with a
  body that changes the heap. Shown: each loop ends and visits the part of the ring it should.
\<close>

section \<open>Entries\<close>

definition container_of :: "u64 \<Rightarrow> ptr \<Rightarrow> ptr" where
  "container_of off p = p - off"

definition list_entry :: "u64 \<Rightarrow> ptr \<Rightarrow> ptr" where
  "list_entry off p = container_of off p"

definition list_first_entry :: "u64 \<Rightarrow> ptr \<Rightarrow> list_heap \<Rightarrow> ptr option" where
  "list_first_entry off head h = do { n \<leftarrow> ld_next head h; Some (list_entry off n) }"

definition list_last_entry :: "u64 \<Rightarrow> ptr \<Rightarrow> list_heap \<Rightarrow> ptr option" where
  "list_last_entry off head h = do { p \<leftarrow> ld_prev head h; Some (list_entry off p) }"

definition list_first_entry_or_null :: "u64 \<Rightarrow> ptr \<Rightarrow> list_heap \<Rightarrow> ptr option" where
  "list_first_entry_or_null off head h = do {
     empty \<leftarrow> list_empty head h;
     if \<not> empty then list_first_entry off head h else Some NULL }"

definition list_next_entry :: "u64 \<Rightarrow> ptr \<Rightarrow> list_heap \<Rightarrow> ptr option" where
  "list_next_entry off pos h = do { n \<leftarrow> ld_next (pos + off) h; Some (list_entry off n) }"

definition list_prev_entry :: "u64 \<Rightarrow> ptr \<Rightarrow> list_heap \<Rightarrow> ptr option" where
  "list_prev_entry off pos h = do { p \<leftarrow> ld_prev (pos + off) h; Some (list_entry off p) }"

definition list_prepare_entry :: "u64 \<Rightarrow> ptr \<Rightarrow> ptr \<Rightarrow> ptr" where
  "list_prepare_entry off pos head = (if pos \<noteq> NULL then pos else list_entry off head)"

section \<open>Loops over entries\<close>

text \<open>The loop conditions compare \<^verbatim>\<open>&pos->member\<close>, the address \<open>pos + off\<close>, with the head.\<close>

partial_function (option) entries_from :: "u64 \<Rightarrow> ptr \<Rightarrow> ptr \<Rightarrow> list_heap \<Rightarrow> ptr list option" where
  "entries_from off pos head h =
     (if pos + off = head then Some []
      else do { n \<leftarrow> list_next_entry off pos h; rest \<leftarrow> entries_from off n head h; Some (pos # rest) })"

declare entries_from.simps [code]

partial_function (option) entries_back_from :: "u64 \<Rightarrow> ptr \<Rightarrow> ptr \<Rightarrow> list_heap \<Rightarrow> ptr list option" where
  "entries_back_from off pos head h =
     (if pos + off = head then Some []
      else do { p \<leftarrow> list_prev_entry off pos h; rest \<leftarrow> entries_back_from off p head h; Some (pos # rest) })"

declare entries_back_from.simps [code]

definition list_for_each_entry :: "u64 \<Rightarrow> ptr \<Rightarrow> list_heap \<Rightarrow> ptr list option" where
  "list_for_each_entry off head h = do { pos \<leftarrow> list_first_entry off head h; entries_from off pos head h }"

definition list_for_each_entry_reverse :: "u64 \<Rightarrow> ptr \<Rightarrow> list_heap \<Rightarrow> ptr list option" where
  "list_for_each_entry_reverse off head h = do { pos \<leftarrow> list_last_entry off head h; entries_back_from off pos head h }"

definition list_for_each_entry_continue :: "u64 \<Rightarrow> ptr \<Rightarrow> ptr \<Rightarrow> list_heap \<Rightarrow> ptr list option" where
  "list_for_each_entry_continue off pos head h = do { pos \<leftarrow> list_next_entry off pos h; entries_from off pos head h }"

definition list_for_each_entry_continue_reverse :: "u64 \<Rightarrow> ptr \<Rightarrow> ptr \<Rightarrow> list_heap \<Rightarrow> ptr list option" where
  "list_for_each_entry_continue_reverse off pos head h = do { pos \<leftarrow> list_prev_entry off pos h; entries_back_from off pos head h }"

definition list_for_each_entry_from :: "u64 \<Rightarrow> ptr \<Rightarrow> ptr \<Rightarrow> list_heap \<Rightarrow> ptr list option" where
  "list_for_each_entry_from off pos head h = entries_from off pos head h"

definition list_for_each_entry_from_reverse :: "u64 \<Rightarrow> ptr \<Rightarrow> ptr \<Rightarrow> list_heap \<Rightarrow> ptr list option" where
  "list_for_each_entry_from_reverse off pos head h = entries_back_from off pos head h"

section \<open>Loops safe against removal\<close>

partial_function (option) entries_safe_from ::
  "u64 \<Rightarrow> (ptr \<Rightarrow> list_heap \<Rightarrow> list_heap option) \<Rightarrow> ptr \<Rightarrow> ptr \<Rightarrow> ptr \<Rightarrow> list_heap \<Rightarrow> list_heap option" where
  "entries_safe_from off body pos n head h =
     (if pos + off = head then Some h
      else do { h \<leftarrow> body pos h; n' \<leftarrow> list_next_entry off n h; entries_safe_from off body n n' head h })"

declare entries_safe_from.simps [code]

partial_function (option) entries_safe_back_from ::
  "u64 \<Rightarrow> (ptr \<Rightarrow> list_heap \<Rightarrow> list_heap option) \<Rightarrow> ptr \<Rightarrow> ptr \<Rightarrow> ptr \<Rightarrow> list_heap \<Rightarrow> list_heap option" where
  "entries_safe_back_from off body pos n head h =
     (if pos + off = head then Some h
      else do { h \<leftarrow> body pos h; n' \<leftarrow> list_prev_entry off n h; entries_safe_back_from off body n n' head h })"

declare entries_safe_back_from.simps [code]

definition list_for_each_entry_safe_from ::
  "u64 \<Rightarrow> (ptr \<Rightarrow> list_heap \<Rightarrow> list_heap option) \<Rightarrow> ptr \<Rightarrow> ptr \<Rightarrow> list_heap \<Rightarrow> list_heap option" where
  "list_for_each_entry_safe_from off body pos head h = do {
     n \<leftarrow> list_next_entry off pos h;
     entries_safe_from off body pos n head h }"

definition list_for_each_entry_safe ::
  "u64 \<Rightarrow> (ptr \<Rightarrow> list_heap \<Rightarrow> list_heap option) \<Rightarrow> ptr \<Rightarrow> list_heap \<Rightarrow> list_heap option" where
  "list_for_each_entry_safe off body head h = do {
     pos \<leftarrow> list_first_entry off head h;
     n \<leftarrow> list_next_entry off pos h;
     entries_safe_from off body pos n head h }"

definition list_for_each_entry_safe_continue ::
  "u64 \<Rightarrow> (ptr \<Rightarrow> list_heap \<Rightarrow> list_heap option) \<Rightarrow> ptr \<Rightarrow> ptr \<Rightarrow> list_heap \<Rightarrow> list_heap option" where
  "list_for_each_entry_safe_continue off body pos head h = do {
     pos \<leftarrow> list_next_entry off pos h;
     n \<leftarrow> list_next_entry off pos h;
     entries_safe_from off body pos n head h }"

definition list_for_each_entry_safe_reverse ::
  "u64 \<Rightarrow> (ptr \<Rightarrow> list_heap \<Rightarrow> list_heap option) \<Rightarrow> ptr \<Rightarrow> list_heap \<Rightarrow> list_heap option" where
  "list_for_each_entry_safe_reverse off body head h = do {
     pos \<leftarrow> list_last_entry off head h;
     n \<leftarrow> list_prev_entry off pos h;
     entries_safe_back_from off body pos n head h }"

text \<open>\<^verbatim>\<open>list_for_each_prev_safe\<close> is the loop over the nodes themselves.\<close>

definition list_for_each_prev_safe :: "(ptr \<Rightarrow> list_heap \<Rightarrow> list_heap option) \<Rightarrow> ptr \<Rightarrow> list_heap \<Rightarrow> list_heap option" where
  "list_for_each_prev_safe body head h = list_for_each_entry_safe_reverse 0 body head h"

text \<open>The value \<^verbatim>\<open>list_safe_reset_next\<close> assigns to the look-ahead entry.\<close>

definition list_safe_reset_next :: "u64 \<Rightarrow> ptr \<Rightarrow> list_heap \<Rightarrow> ptr option" where
  "list_safe_reset_next off pos h = list_next_entry off pos h"

section \<open>What the loops visit\<close>

lemma entry_node [simp]: "list_entry off p + off = p" "list_entry off (pos + off) = pos"
  by (simp_all add: list_entry_def container_of_def)

lemma entry_steps:
  "p \<noteq> NULL \<Longrightarrow> list_next_entry off (list_entry off p) h = Some (list_entry off (l_next h p))"
  "p \<noteq> NULL \<Longrightarrow> list_prev_entry off (list_entry off p) h = Some (list_entry off (l_prev h p))"
  "p \<noteq> NULL \<Longrightarrow> list_first_entry off p h = Some (list_entry off (l_next h p))"
  "p \<noteq> NULL \<Longrightarrow> list_last_entry off p h = Some (list_entry off (l_prev h p))"
  by (simp_all add: list_next_entry_def list_prev_entry_def list_first_entry_def list_last_entry_def list_simps)

lemma first_entry_or_null:
  assumes "list_at h head xs"
  shows "list_first_entry_or_null off head h = Some (case xs of [] \<Rightarrow> NULL | x # _ \<Rightarrow> list_entry off x)"
  using assms list_head_neighbours(2) [OF assms]
  by (cases xs) (auto simp: list_first_entry_or_null_def list_first_entry_def list_empty_def list_at_def list_simps)

lemma entries_from_at:
  "\<lbrakk>lseg h a xs head; head \<notin> set xs; NULL \<notin> set xs\<rbrakk> \<Longrightarrow>
   entries_from off (list_entry off (hd (xs @ [head]))) head h = Some (map (list_entry off) xs)"
proof (induction xs arbitrary: a)
  case Nil
  then show ?case by (subst entries_from.simps) simp
next
  case (Cons x xs)
  then have "entries_from off (list_entry off (hd (xs @ [head]))) head h = Some (map (list_entry off) xs)" by auto
  moreover have "l_next h x = hd (xs @ [head])" using Cons.prems(1) by (cases xs) auto
  ultimately show ?case using Cons.prems by (subst entries_from.simps) (auto simp: entry_steps)
qed

lemma entries_back_from_at:
  "\<lbrakk>lseg h head xs b; head \<notin> set xs; NULL \<notin> set xs\<rbrakk> \<Longrightarrow>
   entries_back_from off (list_entry off (last (head # xs))) head h = Some (map (list_entry off) (rev xs))"
proof (induction xs arbitrary: b rule: rev_induct)
  case Nil
  then show ?case by (subst entries_back_from.simps) simp
next
  case (snoc x xs)
  then have "entries_back_from off (list_entry off (last (head # xs))) head h = Some (map (list_entry off) (rev xs))" by auto
  moreover have "l_prev h x = last (head # xs)" using snoc.prems(1) by (cases xs rule: rev_cases) auto
  ultimately show ?case using snoc.prems by (subst entries_back_from.simps) (auto simp: entry_steps)
qed

lemma for_each_entry_at:
  assumes "list_at h head xs"
  shows "list_for_each_entry off head h = Some (map (list_entry off) xs)"
    and "list_for_each_entry_reverse off head h = Some (map (list_entry off) (rev xs))"
  using assms list_head_neighbours [OF assms] entries_from_at [of h head xs head off] entries_back_from_at [of h head xs head off]
  by (simp_all add: list_for_each_entry_def list_for_each_entry_reverse_def list_at_def entry_steps)

lemma for_each_entry_part:
  assumes l: "list_at h head (ys @ x # zs)"
  shows "list_for_each_entry_continue off (list_entry off x) head h = Some (map (list_entry off) zs)"
    and "list_for_each_entry_continue_reverse off (list_entry off x) head h = Some (map (list_entry off) (rev ys))"
    and "list_for_each_entry_from off (list_entry off x) head h = Some (map (list_entry off) (x # zs))"
    and "list_for_each_entry_from_reverse off (list_entry off x) head h = Some (map (list_entry off) (x # rev ys))"
proof -
  have d: "x \<noteq> NULL" "x \<noteq> head" "head \<notin> set ys" "head \<notin> set zs" "NULL \<notin> set ys" "NULL \<notin> set zs" "lseg h head ys x" "lseg h x zs head"
    using l by (auto simp: list_at_def)
  note fwd = entries_from_at [OF d(8,4,6), of off] and bwd = entries_back_from_at [OF d(7,3,5), of off]
  note nb = list_neighbours [OF l]
  show "list_for_each_entry_continue off (list_entry off x) head h = Some (map (list_entry off) zs)"
    "list_for_each_entry_continue_reverse off (list_entry off x) head h = Some (map (list_entry off) (rev ys))"
    using d(1) nb fwd bwd
    by (simp_all add: list_for_each_entry_continue_def list_for_each_entry_continue_reverse_def entry_steps)
  show "list_for_each_entry_from off (list_entry off x) head h = Some (map (list_entry off) (x # zs))"
    using d(1,2) nb fwd unfolding list_for_each_entry_from_def by (subst entries_from.simps) (simp add: entry_steps)
  show "list_for_each_entry_from_reverse off (list_entry off x) head h = Some (map (list_entry off) (x # rev ys))"
    using d(1,2) nb bwd unfolding list_for_each_entry_from_reverse_def by (subst entries_back_from.simps) (simp add: entry_steps)
qed

section \<open>Removal in a loop\<close>

text \<open>The body unlinks the entry; the loops remove the part of the ring they visit.\<close>

abbreviation unlink_entry :: "u64 \<Rightarrow> ptr \<Rightarrow> list_heap \<Rightarrow> list_heap option" where
  "unlink_entry off \<equiv> \<lambda>pos. list_del_init (pos + off)"

lemma safe_from_at:
  assumes "list_at h head (ys @ zs)"
  shows "\<exists>h'. entries_safe_from off (unlink_entry off) (list_entry off (hd (zs @ [head]))) (list_entry off (l_next h (hd (zs @ [head])))) head h = Some h' \<and>
    list_at h' head ys"
  using assms
proof (induction zs arbitrary: h)
  case Nil
  then show ?case by (subst entries_safe_from.simps) simp
next
  case (Cons x zs)
  obtain h1 where h1: "list_del_init x h = Some h1" "list_at h1 head (ys @ zs)"
    using list_del_init_at [of h head ys x zs] Cons.prems by auto
  let ?n = "hd (zs @ [head])"
  have n: "l_next h x = ?n" using list_neighbours(2) [OF Cons.prems] .
  have n0: "?n \<noteq> NULL" using gap_neighbours(2) [where zs = zs and head = head and ys = ys] h1(2)
    unfolding list_at_def by auto
  have x: "x \<noteq> head" using Cons.prems by (auto simp: list_at_def)
  show ?case using Cons.IH [OF h1(2)] h1(1) x n n0 by (subst entries_safe_from.simps) (simp add: entry_steps)
qed

lemma safe_back_from_at:
  assumes "list_at h head xs"
  shows "\<exists>h'. entries_safe_back_from off (unlink_entry off) (list_entry off (last (head # xs))) (list_entry off (l_prev h (last (head # xs)))) head h = Some h' \<and>
    list_at h' head []"
  using assms
proof (induction xs arbitrary: h rule: rev_induct)
  case Nil
  then show ?case by (subst entries_safe_back_from.simps) simp
next
  case (snoc x xs)
  obtain h1 where h1: "list_del_init x h = Some h1" "list_at h1 head xs"
    using list_del_init_at [of h head xs x "[]"] snoc.prems by auto
  let ?n = "last (head # xs)"
  have n: "l_prev h x = ?n" using list_neighbours(1) [OF snoc.prems] .
  have n0: "?n \<noteq> NULL" using gap_neighbours(1) [where zs = "[]" and head = head and ys = xs] h1(2)
    unfolding list_at_def by auto
  have x: "x \<noteq> head" using snoc.prems by (auto simp: list_at_def)
  show ?case using snoc.IH [OF h1(2)] h1(1) x n n0 by (subst entries_safe_back_from.simps) (simp add: entry_steps)
qed

lemma safe_loops_at:
  assumes l: "list_at h head (ys @ x # zs)"
  shows "\<exists>h'. list_for_each_entry_safe_from off (unlink_entry off) (list_entry off x) head h = Some h' \<and> list_at h' head ys"
    and "\<exists>h'. list_for_each_entry_safe_continue off (unlink_entry off) (list_entry off x) head h = Some h' \<and> list_at h' head (ys @ [x])"
    and "\<exists>h'. list_for_each_entry_safe off (unlink_entry off) head h = Some h' \<and> list_at h' head []"
    and "\<exists>h'. list_for_each_entry_safe_reverse off (unlink_entry off) head h = Some h' \<and> list_at h' head []"
proof -
  have z: "NULL \<notin> set (head # ys @ x # zs)" using l by (simp add: list_at_def)
  then have z0: "x \<noteq> NULL" "head \<noteq> NULL" by auto
  have n0: "hd (zs @ [head]) \<noteq> NULL" "hd ((ys @ x # zs) @ [head]) \<noteq> NULL" "last (head # ys @ x # zs) \<noteq> NULL"
    using z gap_neighbours(2) [where zs = zs and head = head and ys = "ys @ [x]"] gap_neighbours(2) [where zs = "ys @ x # zs" and head = head and ys = "[]"]
      gap_neighbours(1) [where zs = "[]" and head = head and ys = "ys @ x # zs"] by auto
  show "\<exists>h'. list_for_each_entry_safe_from off (unlink_entry off) (list_entry off x) head h = Some h' \<and> list_at h' head ys"
    using safe_from_at [OF l, of off] z0 by (simp add: list_for_each_entry_safe_from_def entry_steps)
  show "\<exists>h'. list_for_each_entry_safe_continue off (unlink_entry off) (list_entry off x) head h = Some h' \<and> list_at h' head (ys @ [x])"
    using safe_from_at [of h head "ys @ [x]" zs off] l z0 n0 list_neighbours(2) [OF l]
    by (simp add: list_for_each_entry_safe_continue_def entry_steps)
  show "\<exists>h'. list_for_each_entry_safe off (unlink_entry off) head h = Some h' \<and> list_at h' head []"
    using safe_from_at [of h head "[]" "ys @ x # zs" off] l z0 n0(2) list_head_neighbours(2) [OF l]
    by (simp add: list_for_each_entry_safe_def entry_steps)
  show "\<exists>h'. list_for_each_entry_safe_reverse off (unlink_entry off) head h = Some h' \<and> list_at h' head []"
    using safe_back_from_at [OF l, of off] z0 n0(3) list_head_neighbours(1) [OF l]
    by (simp add: list_for_each_entry_safe_reverse_def entry_steps)
qed

end
