(* ===== verification/Hlist_Heap.thy ===== *)
theory Hlist_Heap
  imports List_Iter
begin

text \<open>
  The lists with a single-pointer head of \<^verbatim>\<open>src/list.h\<close> (\<^verbatim>\<open>hlist_*\<close>). A node's \<^verbatim>\<open>pprev\<close> is
  the address of the pointer that leads to the node: the \<^verbatim>\<open>first\<close> of the head or the \<^verbatim>\<open>next\<close> of
  the previous node. Both are the first member of their structures (\<^verbatim>\<open>src/types.h\<close>), so the address of the pointer is the
  address of the object, and one component of the heap holds the pointer at every such address. An access
  through a null pointer and a loop that does not return are \<open>None\<close>.
\<close>

section \<open>The heap\<close>

record hlist_heap =
  link :: "ptr \<Rightarrow> ptr"
  pprev :: "ptr \<Rightarrow> ptr"

definition set_link :: "ptr \<Rightarrow> ptr \<Rightarrow> hlist_heap \<Rightarrow> hlist_heap" where
  "set_link a v h = h\<lparr>link := (link h)(a := v)\<rparr>"

definition set_pprev :: "ptr \<Rightarrow> ptr \<Rightarrow> hlist_heap \<Rightarrow> hlist_heap" where
  "set_pprev a v h = h\<lparr>pprev := (pprev h)(a := v)\<rparr>"

definition ld_hlink :: "ptr \<Rightarrow> hlist_heap \<Rightarrow> ptr option" where
  "ld_hlink a h = (if a = NULL then None else Some (link h a))"

definition ld_pprev :: "ptr \<Rightarrow> hlist_heap \<Rightarrow> ptr option" where
  "ld_pprev a h = (if a = NULL then None else Some (pprev h a))"

definition st_hlink :: "ptr \<Rightarrow> ptr \<Rightarrow> hlist_heap \<Rightarrow> hlist_heap option" where
  "st_hlink a v h = (if a = NULL then None else Some (set_link a v h))"

definition st_pprev :: "ptr \<Rightarrow> ptr \<Rightarrow> hlist_heap \<Rightarrow> hlist_heap option" where
  "st_pprev a v h = (if a = NULL then None else Some (set_pprev a v h))"

section \<open>Operations\<close>

definition INIT_HLIST_HEAD :: "ptr \<Rightarrow> hlist_heap \<Rightarrow> hlist_heap option" where
  "INIT_HLIST_HEAD p h = st_hlink p NULL h"

definition INIT_HLIST_NODE :: "ptr \<Rightarrow> hlist_heap \<Rightarrow> hlist_heap option" where
  "INIT_HLIST_NODE n h = do { h \<leftarrow> st_hlink n NULL h; st_pprev n NULL h }"

definition hlist_unhashed :: "ptr \<Rightarrow> hlist_heap \<Rightarrow> bool option" where
  "hlist_unhashed n h = do { p \<leftarrow> ld_pprev n h; Some (p = NULL) }"

definition hlist_empty :: "ptr \<Rightarrow> hlist_heap \<Rightarrow> bool option" where
  "hlist_empty head h = do { f \<leftarrow> ld_hlink head h; Some (f = NULL) }"

definition uu_hlist_del :: "ptr \<Rightarrow> hlist_heap \<Rightarrow> hlist_heap option" where
  "uu_hlist_del n h = do {
     nxt \<leftarrow> ld_hlink n h;
     pp \<leftarrow> ld_pprev n h;
     h \<leftarrow> st_hlink pp nxt h;
     if nxt \<noteq> NULL then st_pprev nxt pp h else Some h }"

definition hlist_del :: "ptr \<Rightarrow> hlist_heap \<Rightarrow> hlist_heap option" where
  "hlist_del n h = do {
     h \<leftarrow> uu_hlist_del n h;
     h \<leftarrow> st_hlink n LIST_POISON1 h;
     st_pprev n LIST_POISON2 h }"

definition hlist_del_init :: "ptr \<Rightarrow> hlist_heap \<Rightarrow> hlist_heap option" where
  "hlist_del_init n h = do {
     unhashed \<leftarrow> hlist_unhashed n h;
     if \<not> unhashed then do { h \<leftarrow> uu_hlist_del n h; INIT_HLIST_NODE n h } else Some h }"

definition hlist_add_head :: "ptr \<Rightarrow> ptr \<Rightarrow> hlist_heap \<Rightarrow> hlist_heap option" where
  "hlist_add_head n head h = do {
     first \<leftarrow> ld_hlink head h;
     h \<leftarrow> st_hlink n first h;
     h \<leftarrow> (if first \<noteq> NULL then st_pprev first n h else Some h);
     h \<leftarrow> st_hlink head n h;
     st_pprev n head h }"

definition hlist_add_before :: "ptr \<Rightarrow> ptr \<Rightarrow> hlist_heap \<Rightarrow> hlist_heap option" where
  "hlist_add_before n nxt h = do {
     p \<leftarrow> ld_pprev nxt h;
     h \<leftarrow> st_pprev n p h;
     h \<leftarrow> st_hlink n nxt h;
     h \<leftarrow> st_pprev nxt n h;
     p \<leftarrow> ld_pprev n h;
     st_hlink p n h }"

definition hlist_add_behind :: "ptr \<Rightarrow> ptr \<Rightarrow> hlist_heap \<Rightarrow> hlist_heap option" where
  "hlist_add_behind n prev h = do {
     x \<leftarrow> ld_hlink prev h;
     h \<leftarrow> st_hlink n x h;
     h \<leftarrow> st_hlink prev n h;
     h \<leftarrow> st_pprev n prev h;
     x \<leftarrow> ld_hlink n h;
     if x \<noteq> NULL then st_pprev x n h else Some h }"

definition hlist_add_fake :: "ptr \<Rightarrow> hlist_heap \<Rightarrow> hlist_heap option" where
  "hlist_add_fake n h = st_pprev n n h"

definition hlist_move_list :: "ptr \<Rightarrow> ptr \<Rightarrow> hlist_heap \<Rightarrow> hlist_heap option" where
  "hlist_move_list old new h = do {
     f \<leftarrow> ld_hlink old h;
     h \<leftarrow> st_hlink new f h;
     f \<leftarrow> ld_hlink new h;
     h \<leftarrow> (if f \<noteq> NULL then st_pprev f new h else Some h);
     st_hlink old NULL h }"

text \<open>The positions \<^verbatim>\<open>hlist_for_each\<close> goes through; and \<^verbatim>\<open>hlist_for_each_safe\<close> with a body that may
  unlink the current node, whose next pointer is read before the body runs.\<close>

partial_function (option) hlist_each_from :: "ptr \<Rightarrow> hlist_heap \<Rightarrow> ptr list option" where
  "hlist_each_from pos h =
     (if pos = NULL then Some []
      else do { n \<leftarrow> ld_hlink pos h; rest \<leftarrow> hlist_each_from n h; Some (pos # rest) })"

declare hlist_each_from.simps [code]

definition hlist_for_each :: "ptr \<Rightarrow> hlist_heap \<Rightarrow> ptr list option" where
  "hlist_for_each head h = do { f \<leftarrow> ld_hlink head h; hlist_each_from f h }"

partial_function (option) hlist_each_safe_from ::
  "(ptr \<Rightarrow> hlist_heap \<Rightarrow> hlist_heap option) \<Rightarrow> ptr \<Rightarrow> hlist_heap \<Rightarrow> hlist_heap option" where
  "hlist_each_safe_from body pos h =
     (if pos = NULL then Some h
      else do { n \<leftarrow> ld_hlink pos h; h \<leftarrow> body pos h; hlist_each_safe_from body n h })"

declare hlist_each_safe_from.simps [code]

definition hlist_for_each_safe :: "(ptr \<Rightarrow> hlist_heap \<Rightarrow> hlist_heap option) \<Rightarrow> ptr \<Rightarrow> hlist_heap \<Rightarrow> hlist_heap option" where
  "hlist_for_each_safe body head h = do { f \<leftarrow> ld_hlink head h; hlist_each_safe_from body f h }"

text \<open>The loops over entries; \<^verbatim>\<open>hlist_entry_safe\<close> keeps the null pointer that ends them.\<close>

definition hlist_entry :: "u64 \<Rightarrow> ptr \<Rightarrow> ptr" where
  "hlist_entry off p = container_of off p"

definition hlist_entry_safe :: "u64 \<Rightarrow> ptr \<Rightarrow> ptr" where
  "hlist_entry_safe off p = (if p \<noteq> NULL then hlist_entry off p else NULL)"

partial_function (option) hlist_for_each_entry_from :: "u64 \<Rightarrow> ptr \<Rightarrow> hlist_heap \<Rightarrow> ptr list option" where
  "hlist_for_each_entry_from off pos h =
     (if pos = NULL then Some []
      else do {
        n \<leftarrow> ld_hlink (pos + off) h;
        rest \<leftarrow> hlist_for_each_entry_from off (hlist_entry_safe off n) h;
        Some (pos # rest) })"

declare hlist_for_each_entry_from.simps [code]

definition hlist_for_each_entry :: "u64 \<Rightarrow> ptr \<Rightarrow> hlist_heap \<Rightarrow> ptr list option" where
  "hlist_for_each_entry off head h = do { f \<leftarrow> ld_hlink head h; hlist_for_each_entry_from off (hlist_entry_safe off f) h }"

definition hlist_for_each_entry_continue :: "u64 \<Rightarrow> ptr \<Rightarrow> hlist_heap \<Rightarrow> ptr list option" where
  "hlist_for_each_entry_continue off pos h = do {
     n \<leftarrow> ld_hlink (pos + off) h;
     hlist_for_each_entry_from off (hlist_entry_safe off n) h }"

partial_function (option) hlist_entries_safe_from ::
  "u64 \<Rightarrow> (ptr \<Rightarrow> hlist_heap \<Rightarrow> hlist_heap option) \<Rightarrow> ptr \<Rightarrow> hlist_heap \<Rightarrow> hlist_heap option" where
  "hlist_entries_safe_from off body pos h =
     (if pos = NULL then Some h
      else do {
        n \<leftarrow> ld_hlink (pos + off) h;
        h \<leftarrow> body pos h;
        hlist_entries_safe_from off body (hlist_entry_safe off n) h })"

declare hlist_entries_safe_from.simps [code]

definition hlist_for_each_entry_safe ::
  "u64 \<Rightarrow> (ptr \<Rightarrow> hlist_heap \<Rightarrow> hlist_heap option) \<Rightarrow> ptr \<Rightarrow> hlist_heap \<Rightarrow> hlist_heap option" where
  "hlist_for_each_entry_safe off body head h = do { f \<leftarrow> ld_hlink head h; hlist_entries_safe_from off body (hlist_entry_safe off f) h }"

section \<open>Chains in the heap\<close>

fun hchain :: "hlist_heap \<Rightarrow> ptr \<Rightarrow> ptr list \<Rightarrow> bool" where
  "hchain h a [] \<longleftrightarrow> link h a = NULL"
| "hchain h a (x # xs) \<longleftrightarrow> link h a = x \<and> pprev h x = a \<and> hchain h x xs"

fun hchain_to :: "hlist_heap \<Rightarrow> ptr \<Rightarrow> ptr list \<Rightarrow> bool" where
  "hchain_to h a [] \<longleftrightarrow> True"
| "hchain_to h a (x # xs) \<longleftrightarrow> link h a = x \<and> pprev h x = a \<and> hchain_to h x xs"

definition hlist_at :: "hlist_heap \<Rightarrow> ptr \<Rightarrow> ptr list \<Rightarrow> bool" where
  "hlist_at h head xs \<longleftrightarrow> distinct (head # xs) \<and> NULL \<notin> set (head # xs) \<and> hchain h head xs"

definition hlist_agree :: "ptr set \<Rightarrow> hlist_heap \<Rightarrow> hlist_heap \<Rightarrow> bool" where
  "hlist_agree S h h' \<longleftrightarrow> (\<forall>a. a \<notin> S \<longrightarrow> link h' a = link h a \<and> pprev h' a = pprev h a)"

named_theorems hlist_simps

lemma read_hlist_set [hlist_simps]:
  "link (set_link a v h) b = (if b = a then v else link h b)" "pprev (set_link a v h) = pprev h"
  "pprev (set_pprev a v h) b = (if b = a then v else pprev h b)" "link (set_pprev a v h) = link h"
  by (simp_all add: set_link_def set_pprev_def)

lemma hlist_load_store [hlist_simps]:
  "a \<noteq> NULL \<Longrightarrow> ld_hlink a h = Some (link h a)" "a \<noteq> NULL \<Longrightarrow> ld_pprev a h = Some (pprev h a)"
  "a \<noteq> NULL \<Longrightarrow> st_hlink a v h = Some (set_link a v h)" "a \<noteq> NULL \<Longrightarrow> st_pprev a v h = Some (set_pprev a v h)"
  by (simp_all add: ld_hlink_def ld_pprev_def st_hlink_def st_pprev_def)

lemma hchain_append: "hchain h a (xs @ ys) \<longleftrightarrow> hchain_to h a xs \<and> hchain h (last (a # xs)) ys"
  by (induction xs arbitrary: a) auto

lemma hchain_to_append: "hchain_to h a (xs @ ys) \<longleftrightarrow> hchain_to h a xs \<and> hchain_to h (last (a # xs)) ys"
  by (induction xs arbitrary: a) auto

lemma hchain_upd [hlist_simps]:
  "c \<notin> set (a # xs) \<Longrightarrow> hchain (set_link c v h) a xs = hchain h a xs"
  "c \<notin> set xs \<Longrightarrow> hchain (set_pprev c v h) a xs = hchain h a xs"
  "c \<notin> set (butlast (a # xs)) \<Longrightarrow> hchain_to (set_link c v h) a xs = hchain_to h a xs"
  "c \<notin> set xs \<Longrightarrow> hchain_to (set_pprev c v h) a xs = hchain_to h a xs"
  by (induction xs arbitrary: a) (auto simp: hlist_simps)

lemma hlist_agreeI [hlist_simps]:
  "hlist_agree S h h"
  "a \<in> S \<Longrightarrow> hlist_agree S h h' \<Longrightarrow> hlist_agree S h (set_link a v h')"
  "a \<in> S \<Longrightarrow> hlist_agree S h h' \<Longrightarrow> hlist_agree S h (set_pprev a v h')"
  by (auto simp: hlist_agree_def hlist_simps)

lemma last_hchain: "last (a # xs) \<in> set (a # xs)" "distinct (a # xs) \<Longrightarrow> last (a # xs) \<notin> set (butlast (a # xs))"
  using last_in_set [of "a # xs"] distinct_append [of "butlast (a # xs)" "[last (a # xs)]"]
  by (simp_all only: append_butlast_last_id list.distinct not_False_eq_True) auto

lemma hchain_cong:
  "\<forall>b\<in>set (a # xs). link h' b = link h b \<Longrightarrow> \<forall>x\<in>set xs. pprev h' x = pprev h x \<Longrightarrow> hchain h' a xs = hchain h a xs"
  "\<forall>b\<in>set (butlast (a # xs)). link h' b = link h b \<Longrightarrow> \<forall>x\<in>set xs. pprev h' x = pprev h x \<Longrightarrow> hchain_to h' a xs = hchain_to h a xs"
  by (induction xs arbitrary: a) auto

lemma hlist_at_agree: "\<lbrakk>hlist_agree S h h'; S \<inter> set (head # xs) = {}\<rbrakk> \<Longrightarrow> hlist_at h' head xs = hlist_at h head xs"
  using hchain_cong(1) [of head xs h' h] by (auto simp: hlist_at_def hlist_agree_def)

lemma butlast_hchain: "set (butlast (a # xs)) \<subseteq> set (a # xs)"
  by (meson in_set_butlastD subsetI)

text \<open>The two changes every operation amounts to, whatever the order of its stores.\<close>

lemma hchain_insert:
  assumes at: "hlist_at h head (ys @ zs)" and n: "n \<noteq> NULL" "n \<notin> set (head # ys @ zs)"
    and l: "link h' = (link h)(n := link h (last (head # ys)), last (head # ys) := n)"
    and p: "pprev h' = (if link h (last (head # ys)) = NULL then pprev h else (pprev h)(link h (last (head # ys)) := n))(n := last (head # ys))"
  shows "hlist_at h' head (ys @ n # zs) \<and> hlist_agree (insert n (set (head # ys @ zs))) h h'"
proof -
  let ?p = "last (head # ys)"
  have d: "distinct (head # ys)" "distinct zs" "set (head # ys) \<inter> set zs = {}" "NULL \<notin> set (head # ys @ zs)"
    and c: "hchain_to h head ys" "hchain h ?p zs" using at by (auto simp: hlist_at_def hchain_append)
  have q: "link h ?p = (case zs of [] \<Rightarrow> NULL | z # _ \<Rightarrow> z)" using c(2) by (cases zs) auto
  note pp = last_hchain [of head ys]
  have q': "link h ?p = NULL \<or> link h ?p \<in> set zs" using q by (cases zs) auto
  have "\<forall>b\<in>set (butlast (head # ys)). link h' b = link h b"
    using pp(2) [OF d(1)] n butlast_hchain [of head ys] unfolding l by auto
  moreover have "\<forall>x\<in>set ys. pprev h' x = pprev h x" using q' d(3,4) n(2) unfolding p by auto
  ultimately have "hchain_to h' head ys" using c(1) hchain_cong(2) by blast
  moreover have "hchain h' n zs"
  proof (cases zs)
    case Nil
    then show ?thesis using n q pp(1) by (auto simp: l)
  next
    case (Cons z zs')
    have "hchain h' z zs' = hchain h z zs'"
    proof (rule hchain_cong(1))
      show "\<forall>b\<in>set (z # zs'). link h' b = link h b" using d n pp(1) Cons unfolding l by auto
      have "link h ?p = z" using c(2) Cons by simp
      then show "\<forall>x\<in>set zs'. pprev h' x = pprev h x" using d(2) n Cons unfolding p by auto
    qed
    then show ?thesis using Cons c(2) n d pp(1) by (auto simp: l p)
  qed
  moreover have "link h' ?p = n" "pprev h' n = ?p" by (simp_all add: l p)
  ultimately have "hlist_at h' head (ys @ n # zs)" using at n by (auto simp: hlist_at_def hchain_append)
  moreover have "hlist_agree (insert n (set (head # ys @ zs))) h h'"
    using pp(1) q by (auto simp: hlist_agree_def l p split: list.splits)
  ultimately show ?thesis by simp
qed

lemma hchain_remove:
  assumes at: "hlist_at h head (ys @ n # zs)"
    and l: "\<forall>a. a \<noteq> n \<longrightarrow> link h' a = (if a = last (head # ys) then link h n else link h a)"
    and p: "\<forall>a. a \<noteq> n \<longrightarrow> pprev h' a = (if a = link h n \<and> a \<noteq> NULL then last (head # ys) else pprev h a)"
  shows "hlist_at h' head (ys @ zs) \<and> hlist_agree (set (head # ys @ n # zs)) h h'"
proof -
  let ?p = "last (head # ys)"
  have d: "distinct (head # ys)" "distinct zs" "set (head # ys) \<inter> set zs = {}" "n \<notin> set (head # ys @ zs)" "NULL \<notin> set (head # ys @ zs)"
    and c: "hchain_to h head ys" "hchain h n zs" using at by (auto simp: hlist_at_def hchain_append)
  have q: "link h n = (case zs of [] \<Rightarrow> NULL | z # _ \<Rightarrow> z)" using c(2) by (cases zs) auto
  note pp = last_hchain [of head ys]
  have pn: "?p \<noteq> n" using pp(1) d(4) by auto
  have q': "link h n = NULL \<or> link h n \<in> set zs" using q by (cases zs) auto
  have "\<forall>b\<in>set (butlast (head # ys)). link h' b = link h b"
  proof
    fix b
    assume "b \<in> set (butlast (head # ys))"
    then have "b \<noteq> ?p" "b \<noteq> n" using pp(2) [OF d(1)] d(4) butlast_hchain [of head ys] by auto
    then show "link h' b = link h b" using l by simp
  qed
  moreover have "\<forall>x\<in>set ys. pprev h' x = pprev h x"
  proof
    fix x
    assume "x \<in> set ys"
    then have "x \<noteq> n" "\<not> (x = link h n \<and> x \<noteq> NULL)" using q' d(3-5) by auto
    then show "pprev h' x = pprev h x" using p by auto
  qed
  ultimately have "hchain_to h' head ys" using c(1) hchain_cong(2) by blast
  moreover have "hchain h' ?p zs"
  proof (cases zs)
    case Nil
    then show ?thesis using q l pn by simp
  next
    case (Cons z zs')
    have "hchain h' z zs' = hchain h z zs'"
    proof (rule hchain_cong(1))
      show "\<forall>b\<in>set (z # zs'). link h' b = link h b" using d(3,4) pp(1) Cons l by (metis IntI Un_iff append_Cons empty_iff set_append)
      have "link h n = z" using c(2) Cons by simp
      then show "\<forall>x\<in>set zs'. pprev h' x = pprev h x" using d(2,4) p Cons by auto
    qed
    then show ?thesis using Cons c(2) d(4,5) pn l p by auto
  qed
  ultimately have "hlist_at h' head (ys @ zs)" using at by (auto simp: hlist_at_def hchain_append)
  moreover have "hlist_agree (set (head # ys @ n # zs)) h h'"
    using pp(1) q l p by (auto simp: hlist_agree_def split: list.splits)
  ultimately show ?thesis by simp
qed

lemma hchain_position:
  assumes "hlist_at h head (ys @ n # zs)"
  shows "n \<noteq> NULL" "pprev h n = last (head # ys)" "pprev h n \<noteq> NULL" "pprev h n \<noteq> n" "link h n = (case zs of [] \<Rightarrow> NULL | z # _ \<Rightarrow> z)"
    "link h n \<noteq> n" "link h (last (head # ys)) = n"
proof -
  have c: "hchain h (last (head # ys)) (n # zs)" "n \<notin> set (head # ys @ zs)" "NULL \<notin> set (head # ys @ n # zs)"
    using assms by (auto simp: hlist_at_def hchain_append)
  then show "n \<noteq> NULL" "pprev h n = last (head # ys)" "link h (last (head # ys)) = n" by auto
  show "pprev h n \<noteq> NULL" "pprev h n \<noteq> n" using c last_hchain(1) [of head ys] by auto
  show "link h n = (case zs of [] \<Rightarrow> NULL | z # _ \<Rightarrow> z)" using c(1) by (cases zs) auto
  then show "link h n \<noteq> n" using c by (cases zs) auto
qed

section \<open>Every operation computes its counterpart on lists\<close>

lemma hlist_empty_ok: "hlist_at h head xs \<Longrightarrow> hlist_empty head h = Some (xs = [])"
  by (cases xs) (auto simp: hlist_empty_def hlist_at_def hlist_simps)

lemma INIT_HLIST_HEAD_ok: "head \<noteq> NULL \<Longrightarrow> \<exists>h'. INIT_HLIST_HEAD head h = Some h' \<and> hlist_at h' head [] \<and> hlist_agree {head} h h'"
  by (auto simp: INIT_HLIST_HEAD_def hlist_at_def hlist_simps)

lemma hlist_add_head_ok:
  assumes at: "hlist_at h head xs" and n: "n \<noteq> NULL" "n \<notin> set (head # xs)"
  shows "\<exists>h'. hlist_add_head n head h = Some h' \<and> hlist_at h' head (n # xs) \<and> hlist_agree (insert n (set (head # xs))) h h'"
proof -
  have hd0: "head \<noteq> NULL" "n \<noteq> head" using at n by (auto simp: hlist_at_def)
  let ?f = "link h head"
  let ?h = "set_link n ?f h"
  let ?h' = "set_pprev n head (set_link head n (if ?f \<noteq> NULL then set_pprev ?f n ?h else ?h))"
  have "hlist_add_head n head h = Some ?h'" using hd0 n by (simp add: hlist_add_head_def hlist_simps)
  moreover have "hlist_at ?h' head ([] @ n # xs) \<and> hlist_agree (insert n (set (head # [] @ xs))) h ?h'"
    by (rule hchain_insert) (use at n in \<open>auto simp: set_link_def set_pprev_def\<close>)
  ultimately show ?thesis by simp
qed

lemma hlist_add_before_ok:
  assumes at: "hlist_at h head (ys @ x # zs)" and n: "n \<noteq> NULL" "n \<notin> set (head # ys @ x # zs)"
  shows "\<exists>h'. hlist_add_before n x h = Some h' \<and> hlist_at h' head (ys @ n # x # zs) \<and>
    hlist_agree (insert n (set (head # ys @ x # zs))) h h'"
proof -
  note x = hchain_position [OF at]
  let ?p = "last (head # ys)"
  let ?h' = "set_link ?p n (set_pprev x n (set_link n x (set_pprev n ?p h)))"
  have "x \<noteq> n" "?p \<noteq> n" using n last_hchain(1) [of head ys] by auto
  then have "hlist_add_before n x h = Some ?h'" using x(1-3) n by (simp add: hlist_add_before_def hlist_simps)
  moreover have "hlist_at ?h' head (ys @ n # x # zs) \<and> hlist_agree (insert n (set (head # ys @ x # zs))) h ?h'"
    by (rule hchain_insert [OF at n]) (use x(1,7) \<open>x \<noteq> n\<close> in \<open>auto simp: set_link_def set_pprev_def fun_upd_twist\<close>)
  ultimately show ?thesis by simp
qed

lemma hlist_add_behind_ok:
  assumes at: "hlist_at h head (ys @ x # zs)" and n: "n \<noteq> NULL" "n \<notin> set (head # ys @ x # zs)"
  shows "\<exists>h'. hlist_add_behind n x h = Some h' \<and> hlist_at h' head (ys @ x # n # zs) \<and>
    hlist_agree (insert n (set (head # ys @ x # zs))) h h'"
proof -
  note x = hchain_position [OF at]
  let ?f = "link h x"
  let ?h = "set_pprev n x (set_link x n (set_link n ?f h))"
  let ?h' = "if ?f \<noteq> NULL then set_pprev ?f n ?h else ?h"
  have nx: "x \<noteq> n" "?f \<noteq> n" using n x(5) by (auto split: list.splits)
  then have "hlist_add_behind n x h = Some ?h'" using x(1) n by (simp add: hlist_add_behind_def hlist_simps)
  moreover have "hlist_at ?h' head ((ys @ [x]) @ n # zs) \<and> hlist_agree (insert n (set (head # (ys @ [x]) @ zs))) h ?h'"
    by (rule hchain_insert) (use at n nx in \<open>auto simp: set_link_def set_pprev_def fun_upd_twist\<close>)
  ultimately show ?thesis by simp
qed

lemma uu_hlist_del_ok:
  assumes at: "hlist_at h head (ys @ n # zs)"
  shows "\<exists>h'. uu_hlist_del n h = Some h' \<and> hlist_at h' head (ys @ zs) \<and> hlist_agree (set (head # ys @ n # zs)) h h'"
    and "\<exists>h'. hlist_del n h = Some h' \<and> hlist_at h' head (ys @ zs) \<and> hlist_agree (set (head # ys @ n # zs)) h h'"
    and "\<exists>h'. hlist_del_init n h = Some h' \<and> hlist_at h' head (ys @ zs) \<and> hlist_unhashed n h' = Some True \<and>
      hlist_agree (set (head # ys @ n # zs)) h h'"
proof -
  note n = hchain_position [OF at]
  let ?p = "last (head # ys)" and ?f = "link h n"
  let ?h = "set_link ?p ?f h"
  let ?h' = "if ?f \<noteq> NULL then set_pprev ?f ?p ?h else ?h"
  have p0: "?p \<noteq> NULL" "?p \<noteq> n" using n(2-4) by auto
  have r: "uu_hlist_del n h = Some ?h'" using n(1,2) p0 by (simp add: uu_hlist_del_def hlist_simps)
  show "\<exists>h'. uu_hlist_del n h = Some h' \<and> hlist_at h' head (ys @ zs) \<and> hlist_agree (set (head # ys @ n # zs)) h h'"
    unfolding r using hchain_remove [OF at, of ?h'] by (auto simp: hlist_simps)
  have "hlist_del n h = Some (set_pprev n LIST_POISON2 (set_link n LIST_POISON1 ?h'))"
    using r n(1) by (simp add: hlist_del_def hlist_simps)
  then show "\<exists>h'. hlist_del n h = Some h' \<and> hlist_at h' head (ys @ zs) \<and> hlist_agree (set (head # ys @ n # zs)) h h'"
    using hchain_remove [OF at, of "set_pprev n LIST_POISON2 (set_link n LIST_POISON1 ?h')"] by (auto simp: hlist_simps)
  have "hlist_del_init n h = Some (set_pprev n NULL (set_link n NULL ?h'))"
    using r n(1,3) by (simp add: hlist_del_init_def hlist_unhashed_def INIT_HLIST_NODE_def hlist_simps)
  then show "\<exists>h'. hlist_del_init n h = Some h' \<and> hlist_at h' head (ys @ zs) \<and> hlist_unhashed n h' = Some True \<and>
      hlist_agree (set (head # ys @ n # zs)) h h'"
    using hchain_remove [OF at, of "set_pprev n NULL (set_link n NULL ?h')"] n(1) by (auto simp: hlist_simps hlist_unhashed_def)
qed

lemma hlist_del_init_unhashed: "\<lbrakk>n \<noteq> NULL; pprev h n = NULL\<rbrakk> \<Longrightarrow> hlist_del_init n h = Some h"
  by (simp add: hlist_del_init_def hlist_unhashed_def hlist_simps)

text \<open>A node that is only pretended to be on a list can be deleted, and nothing else is written.\<close>

lemma hlist_add_fake_del:
  assumes "n \<noteq> NULL" "link h n = NULL"
  shows "\<exists>h' h''. hlist_add_fake n h = Some h' \<and> hlist_unhashed n h' = Some False \<and> hlist_del n h' = Some h'' \<and> hlist_agree {n} h h''"
  using assms by (auto simp: hlist_add_fake_def hlist_unhashed_def hlist_del_def uu_hlist_del_def hlist_simps)

lemma hlist_move_list_ok:
  assumes at: "hlist_at h old xs" and new: "new \<noteq> NULL" "new \<notin> set (old # xs)"
  shows "\<exists>h'. hlist_move_list old new h = Some h' \<and> hlist_at h' new xs \<and> hlist_at h' old [] \<and> hlist_agree (insert new (set (old # xs))) h h'"
proof (cases xs)
  case Nil
  then show ?thesis using assms by (auto simp: hlist_move_list_def hlist_at_def hlist_simps)
next
  case (Cons x xs')
  let ?h' = "set_link old NULL (set_pprev x new (set_link new x h))"
  have "hlist_move_list old new h = Some ?h'" using assms Cons by (auto simp: hlist_move_list_def hlist_at_def hlist_simps)
  moreover have "hchain ?h' x xs' = hchain h x xs'" using assms Cons by (intro hchain_cong(1)) (auto simp: hlist_at_def hlist_simps)
  ultimately show ?thesis using assms Cons by (auto simp: hlist_at_def hlist_simps)
qed

lemma hlist_each_ok: "\<lbrakk>hchain h a xs; a \<noteq> NULL; NULL \<notin> set xs\<rbrakk> \<Longrightarrow> hlist_each_from (link h a) h = Some xs"
proof (induction xs arbitrary: a)
  case Nil
  then show ?case by (simp add: hlist_each_from.simps)
next
  case (Cons x xs)
  then show ?case by (subst hlist_each_from.simps) (auto simp: hlist_simps)
qed

lemma hlist_for_each_ok:
  assumes "hlist_at h head xs"
  shows "hlist_for_each head h = Some xs"
  using assms hlist_each_ok [of h head xs] by (simp add: hlist_for_each_def hlist_at_def hlist_simps)

text \<open>No entry of the list may be at address 0: its null pointer would end the loops.\<close>

lemma hlist_entry_at: "p \<noteq> NULL \<Longrightarrow> p \<noteq> off \<Longrightarrow> hlist_entry_safe off p \<noteq> NULL \<and> hlist_entry_safe off p + off = p"
  by (simp add: hlist_entry_safe_def hlist_entry_def container_of_def)

lemma hlist_entries_ok:
  "\<lbrakk>hchain h a xs; a \<noteq> NULL; NULL \<notin> set xs; off \<notin> set xs\<rbrakk> \<Longrightarrow>
   hlist_for_each_entry_from off (hlist_entry_safe off (link h a)) h = Some (map (hlist_entry off) xs)"
proof (induction xs arbitrary: a)
  case Nil
  then show ?case by (simp add: hlist_for_each_entry_from.simps hlist_entry_safe_def)
next
  case (Cons x xs)
  then have x: "link h a = x" "x \<noteq> NULL" "hlist_entry_safe off x \<noteq> NULL" "hlist_entry_safe off x + off = x" "hlist_entry_safe off x = hlist_entry off x"
    using hlist_entry_at [of x off] by (auto simp: hlist_entry_safe_def)
  have "hlist_for_each_entry_from off (hlist_entry_safe off (link h x)) h = Some (map (hlist_entry off) xs)"
    using Cons x(2) by simp
  then show ?case using x(2-4) unfolding x(1) by (subst hlist_for_each_entry_from.simps) (simp add: hlist_simps x(5))
qed

lemma hlist_for_each_entry_ok:
  assumes "hlist_at h head xs" "off \<notin> set xs"
  shows "hlist_for_each_entry off head h = Some (map (hlist_entry off) xs)"
  using assms hlist_entries_ok [of h head xs off] by (simp add: hlist_for_each_entry_def hlist_at_def hlist_simps)

lemma hlist_continue_ok:
  assumes "hlist_at h head (ys @ x # zs)" "off \<notin> set (x # zs)"
  shows "hlist_for_each_entry_continue off (hlist_entry off x) h = Some (map (hlist_entry off) zs)"
proof -
  have x: "hchain h x zs" "x \<noteq> NULL" "NULL \<notin> set zs" "hlist_entry off x + off = x"
    using assms by (auto simp: hlist_at_def hchain_append hlist_entry_def container_of_def)
  then show ?thesis using hlist_entries_ok [OF x(1-3)] assms(2) by (simp add: hlist_for_each_entry_continue_def hlist_simps)
qed

text \<open>Deleting every node in a safe loop empties the list.\<close>

lemma hlist_each_safe_del:
  assumes "hlist_at h head xs"
  shows "\<exists>h'. hlist_for_each_safe hlist_del head h = Some h' \<and> hlist_at h' head [] \<and> hlist_agree (set (head # xs)) h h'"
proof -
  have "\<exists>h'. hlist_each_safe_from hlist_del (link h head) h = Some h' \<and> hlist_at h' head [] \<and> hlist_agree (set (head # xs)) h h'"
    using assms
  proof (induction xs arbitrary: h)
    case Nil
    then show ?case by (auto simp: hlist_at_def hlist_each_safe_from.simps hlist_simps)
  next
    case (Cons x xs)
    have x: "link h head = x" "x \<noteq> NULL" "head \<noteq> NULL" using Cons.prems by (auto simp: hlist_at_def)
    obtain h1 where h1: "hlist_del x h = Some h1" "hlist_at h1 head xs" "hlist_agree (set (head # x # xs)) h h1"
      using uu_hlist_del_ok(2) [of h head "[]" x xs] Cons.prems by auto
    have "link h1 head = link h x" using Cons.prems h1(2) by (cases xs) (auto simp: hlist_at_def)
    with Cons.IH [OF h1(2)] h1 x show ?case
      by (subst hlist_each_safe_from.simps) (auto simp: hlist_simps hlist_agree_def)
  qed
  moreover have "head \<noteq> NULL" using assms by (simp add: hlist_at_def)
  ultimately show ?thesis by (simp add: hlist_for_each_safe_def hlist_simps)
qed

lemma hlist_each_entry_safe_del:
  assumes "hlist_at h head xs" "off \<notin> set xs"
  shows "\<exists>h'. hlist_for_each_entry_safe off (\<lambda>pos. hlist_del (pos + off)) head h = Some h' \<and> hlist_at h' head []"
proof -
  have "\<exists>h'. hlist_entries_safe_from off (\<lambda>pos. hlist_del (pos + off)) (hlist_entry_safe off (link h head)) h = Some h' \<and> hlist_at h' head []"
    using assms
  proof (induction xs arbitrary: h)
    case Nil
    then show ?case by (auto simp: hlist_at_def hlist_entries_safe_from.simps hlist_entry_safe_def)
  next
    case (Cons x xs)
    have x: "link h head = x" "x \<noteq> NULL" "x \<noteq> off" using Cons.prems by (auto simp: hlist_at_def)
    obtain h1 where h1: "hlist_del x h = Some h1" "hlist_at h1 head xs"
      using uu_hlist_del_ok(2) [of h head "[]" x xs] Cons.prems(1) by auto
    have "link h1 head = link h x" using Cons.prems(1) h1(2) by (cases xs) (auto simp: hlist_at_def)
    with Cons.IH [OF h1(2)] Cons.prems(2) h1(1) x(2) hlist_entry_at [OF x(2,3)] show ?case unfolding x(1)
      by (subst hlist_entries_safe_from.simps) (simp add: hlist_simps)
  qed
  moreover have "head \<noteq> NULL" using assms(1) by (simp add: hlist_at_def)
  ultimately show ?thesis by (simp add: hlist_for_each_entry_safe_def hlist_simps)
qed

end
