(* ===== verification/Rbtree_Heap.thy ===== *)
theory Rbtree_Heap
  imports Prelude
begin

text \<open>
  Pointer-level model of \<^verbatim>\<open>src/rbtree.h\<close>, \<^verbatim>\<open>src/rbtree_augmented.h\<close> and
  \<^verbatim>\<open>src/rbtree.c\<close>: one definition per C function, each a transformer of an explicit heap of
  \<^verbatim>\<open>struct rb_node\<close> and \<^verbatim>\<open>struct rb_root\<close> objects. A leading underscore of a C name
  is written \<open>u\<close> (\<^verbatim>\<open>__rb_insert\<close> is \<open>uu_rb_insert\<close>). A result \<open>None\<close> means
  that the C code goes through a null pointer or does not return; the loops are
  \<^theory_text>\<open>partial_function (option)\<close> and are shown to return in the theory
  \<^verbatim>\<open>Rbtree_Refine\<close>.
\<close>

section \<open>Nodes, roots and links\<close>

text \<open>
  The heap holds, for every node address, the three fields of \<^verbatim>\<open>struct rb_node\<close>, and for
  every root address the field \<^verbatim>\<open>rb_node\<close> of \<^verbatim>\<open>struct rb_root\<close>.
\<close>

record rb_heap =
  rb_parent_color :: "ptr \<Rightarrow> u64"
  rb_right :: "ptr \<Rightarrow> ptr"
  rb_left :: "ptr \<Rightarrow> ptr"
  rb_node :: "ptr \<Rightarrow> ptr"

text \<open>The places a \<^verbatim>\<open>struct rb_node **\<close> of the search loops can point to.\<close>

datatype rb_link = LinkRoot ptr | LinkLeft ptr | LinkRight ptr

definition RB_RED :: u64 where "RB_RED = 0"
definition RB_BLACK :: u64 where "RB_BLACK = 1"

section \<open>Loads and stores\<close>

definition set_pc :: "ptr \<Rightarrow> u64 \<Rightarrow> rb_heap \<Rightarrow> rb_heap" where
  "set_pc a v h = h\<lparr>rb_parent_color := (rb_parent_color h)(a := v)\<rparr>"

definition set_right :: "ptr \<Rightarrow> ptr \<Rightarrow> rb_heap \<Rightarrow> rb_heap" where
  "set_right a v h = h\<lparr>rb_right := (rb_right h)(a := v)\<rparr>"

definition set_left :: "ptr \<Rightarrow> ptr \<Rightarrow> rb_heap \<Rightarrow> rb_heap" where
  "set_left a v h = h\<lparr>rb_left := (rb_left h)(a := v)\<rparr>"

definition set_root :: "ptr \<Rightarrow> ptr \<Rightarrow> rb_heap \<Rightarrow> rb_heap" where
  "set_root a v h = h\<lparr>rb_node := (rb_node h)(a := v)\<rparr>"

definition ld_pc :: "ptr \<Rightarrow> rb_heap \<Rightarrow> u64 option" where
  "ld_pc a h = (if a = NULL then None else Some (rb_parent_color h a))"

definition ld_right :: "ptr \<Rightarrow> rb_heap \<Rightarrow> ptr option" where
  "ld_right a h = (if a = NULL then None else Some (rb_right h a))"

definition ld_left :: "ptr \<Rightarrow> rb_heap \<Rightarrow> ptr option" where
  "ld_left a h = (if a = NULL then None else Some (rb_left h a))"

definition ld_root :: "ptr \<Rightarrow> rb_heap \<Rightarrow> ptr option" where
  "ld_root a h = (if a = NULL then None else Some (rb_node h a))"

definition st_pc :: "ptr \<Rightarrow> u64 \<Rightarrow> rb_heap \<Rightarrow> rb_heap option" where
  "st_pc a v h = (if a = NULL then None else Some (set_pc a v h))"

definition st_right :: "ptr \<Rightarrow> ptr \<Rightarrow> rb_heap \<Rightarrow> rb_heap option" where
  "st_right a v h = (if a = NULL then None else Some (set_right a v h))"

definition st_left :: "ptr \<Rightarrow> ptr \<Rightarrow> rb_heap \<Rightarrow> rb_heap option" where
  "st_left a v h = (if a = NULL then None else Some (set_left a v h))"

definition st_root :: "ptr \<Rightarrow> ptr \<Rightarrow> rb_heap \<Rightarrow> rb_heap option" where
  "st_root a v h = (if a = NULL then None else Some (set_root a v h))"

section \<open>rbtree.h\<close>

definition rb_parent :: "ptr \<Rightarrow> rb_heap \<Rightarrow> ptr option" where
  "rb_parent r h = do { pc \<leftarrow> ld_pc r h; Some (pc AND NOT 3) }"

definition RB_EMPTY_ROOT :: "ptr \<Rightarrow> rb_heap \<Rightarrow> bool option" where
  "RB_EMPTY_ROOT root h = do { n \<leftarrow> ld_root root h; Some (n = NULL) }"

definition RB_EMPTY_NODE :: "ptr \<Rightarrow> rb_heap \<Rightarrow> bool option" where
  "RB_EMPTY_NODE node h = do { pc \<leftarrow> ld_pc node h; Some (pc = node) }"

definition RB_CLEAR_NODE :: "ptr \<Rightarrow> rb_heap \<Rightarrow> rb_heap option" where
  "RB_CLEAR_NODE node h = st_pc node node h"

definition st_link :: "rb_link \<Rightarrow> ptr \<Rightarrow> rb_heap \<Rightarrow> rb_heap option" where
  "st_link l v h = (case l of LinkRoot r \<Rightarrow> st_root r v h | LinkLeft a \<Rightarrow> st_left a v h
     | LinkRight a \<Rightarrow> st_right a v h)"

definition ld_link :: "rb_link \<Rightarrow> rb_heap \<Rightarrow> ptr option" where
  "ld_link l h = (case l of LinkRoot r \<Rightarrow> ld_root r h | LinkLeft a \<Rightarrow> ld_left a h
     | LinkRight a \<Rightarrow> ld_right a h)"

definition rb_link_node :: "ptr \<Rightarrow> ptr \<Rightarrow> rb_link \<Rightarrow> rb_heap \<Rightarrow> rb_heap option" where
  "rb_link_node node parent rb_link h = do {
     h \<leftarrow> st_pc node parent h;
     h \<leftarrow> st_right node NULL h;
     h \<leftarrow> st_left node NULL h;
     st_link rb_link node h }"

section \<open>rbtree\_augmented.h: colours and parents\<close>

record rb_augment_callbacks =
  propagate :: "ptr \<Rightarrow> ptr \<Rightarrow> rb_heap \<Rightarrow> rb_heap"
  copy :: "ptr \<Rightarrow> ptr \<Rightarrow> rb_heap \<Rightarrow> rb_heap"
  rotate :: "ptr \<Rightarrow> ptr \<Rightarrow> rb_heap \<Rightarrow> rb_heap"

definition uu_rb_parent :: "u64 \<Rightarrow> ptr" where
  "uu_rb_parent pc = pc AND NOT 3"

definition uu_rb_color :: "u64 \<Rightarrow> u64" where
  "uu_rb_color pc = pc AND 1"

definition uu_rb_is_black :: "u64 \<Rightarrow> bool" where
  "uu_rb_is_black pc \<longleftrightarrow> uu_rb_color pc \<noteq> 0"

definition uu_rb_is_red :: "u64 \<Rightarrow> bool" where
  "uu_rb_is_red pc \<longleftrightarrow> uu_rb_color pc = 0"

definition rb_color :: "ptr \<Rightarrow> rb_heap \<Rightarrow> u64 option" where
  "rb_color rb h = do { pc \<leftarrow> ld_pc rb h; Some (uu_rb_color pc) }"

definition rb_is_red :: "ptr \<Rightarrow> rb_heap \<Rightarrow> bool option" where
  "rb_is_red rb h = do { pc \<leftarrow> ld_pc rb h; Some (uu_rb_is_red pc) }"

definition rb_is_black :: "ptr \<Rightarrow> rb_heap \<Rightarrow> bool option" where
  "rb_is_black rb h = do { pc \<leftarrow> ld_pc rb h; Some (uu_rb_is_black pc) }"

definition rb_set_parent :: "ptr \<Rightarrow> ptr \<Rightarrow> rb_heap \<Rightarrow> rb_heap option" where
  "rb_set_parent rb p h = do { c \<leftarrow> rb_color rb h; st_pc rb (c OR p) h }"

definition rb_set_parent_color :: "ptr \<Rightarrow> ptr \<Rightarrow> u64 \<Rightarrow> rb_heap \<Rightarrow> rb_heap option" where
  "rb_set_parent_color rb p color h = st_pc rb (p OR color) h"

definition uu_rb_change_child :: "ptr \<Rightarrow> ptr \<Rightarrow> ptr \<Rightarrow> ptr \<Rightarrow> rb_heap \<Rightarrow> rb_heap option" where
  "uu_rb_change_child old new parent root h =
     (if parent \<noteq> NULL then do {
        l \<leftarrow> ld_left parent h;
        if l = old then st_left parent new h else st_right parent new h }
      else st_root root new h)"

section \<open>rbtree.c: insertion\<close>

definition rb_set_black :: "ptr \<Rightarrow> rb_heap \<Rightarrow> rb_heap option" where
  "rb_set_black rb h = do { pc \<leftarrow> ld_pc rb h; st_pc rb (pc OR RB_BLACK) h }"

definition rb_red_parent :: "ptr \<Rightarrow> rb_heap \<Rightarrow> ptr option" where
  "rb_red_parent red h = ld_pc red h"

definition uu_rb_rotate_set_parents ::
  "ptr \<Rightarrow> ptr \<Rightarrow> ptr \<Rightarrow> u64 \<Rightarrow> rb_heap \<Rightarrow> rb_heap option" where
  "uu_rb_rotate_set_parents old new root color h = do {
     parent \<leftarrow> rb_parent old h;
     pc \<leftarrow> ld_pc old h;
     h \<leftarrow> st_pc new pc h;
     h \<leftarrow> rb_set_parent_color old new color h;
     uu_rb_change_child old new parent root h }"

text \<open>The body of the \<^verbatim>\<open>while (true)\<close> loop of \<^verbatim>\<open>__rb_insert\<close>; \<open>node\<close> and
  \<open>parent\<close> are the loop variables.\<close>

partial_function (option) uu_rb_insert_loop ::
  "(ptr \<Rightarrow> ptr \<Rightarrow> rb_heap \<Rightarrow> rb_heap) \<Rightarrow> ptr \<Rightarrow> ptr \<Rightarrow> ptr \<Rightarrow> rb_heap \<Rightarrow> rb_heap option" where
  "uu_rb_insert_loop augment_rotate root node parent h =
    (if parent = NULL then rb_set_parent_color node NULL RB_BLACK h
     else do {
       black \<leftarrow> rb_is_black parent h;
       if black then Some h
       else do {
         gparent \<leftarrow> rb_red_parent parent h;
         tmp \<leftarrow> ld_right gparent h;
         if parent \<noteq> tmp then do {
           red \<leftarrow> (if tmp \<noteq> NULL then rb_is_red tmp h else Some False);
           if red then do {
             h \<leftarrow> rb_set_parent_color tmp gparent RB_BLACK h;
             h \<leftarrow> rb_set_parent_color parent gparent RB_BLACK h;
             parent \<leftarrow> rb_parent gparent h;
             h \<leftarrow> rb_set_parent_color gparent parent RB_RED h;
             uu_rb_insert_loop augment_rotate root gparent parent h }
           else do {
             tmp \<leftarrow> ld_right parent h;
             (parent, tmp, h) \<leftarrow>
               (if node = tmp then do {
                  tmp \<leftarrow> ld_left node h;
                  h \<leftarrow> st_right parent tmp h;
                  h \<leftarrow> st_left node parent h;
                  h \<leftarrow> (if tmp \<noteq> NULL then rb_set_parent_color tmp parent RB_BLACK h else Some h);
                  h \<leftarrow> rb_set_parent_color parent node RB_RED h;
                  h \<leftarrow> Some (augment_rotate parent node h);
                  tmp \<leftarrow> ld_right node h;
                  Some (node, tmp, h) }
                else Some (parent, tmp, h));
             h \<leftarrow> st_left gparent tmp h;
             h \<leftarrow> st_right parent gparent h;
             h \<leftarrow> (if tmp \<noteq> NULL then rb_set_parent_color tmp gparent RB_BLACK h else Some h);
             h \<leftarrow> uu_rb_rotate_set_parents gparent parent root RB_RED h;
             Some (augment_rotate gparent parent h) } }
         else do {
           tmp \<leftarrow> ld_left gparent h;
           red \<leftarrow> (if tmp \<noteq> NULL then rb_is_red tmp h else Some False);
           if red then do {
             h \<leftarrow> rb_set_parent_color tmp gparent RB_BLACK h;
             h \<leftarrow> rb_set_parent_color parent gparent RB_BLACK h;
             parent \<leftarrow> rb_parent gparent h;
             h \<leftarrow> rb_set_parent_color gparent parent RB_RED h;
             uu_rb_insert_loop augment_rotate root gparent parent h }
           else do {
             tmp \<leftarrow> ld_left parent h;
             (parent, tmp, h) \<leftarrow>
               (if node = tmp then do {
                  tmp \<leftarrow> ld_right node h;
                  h \<leftarrow> st_left parent tmp h;
                  h \<leftarrow> st_right node parent h;
                  h \<leftarrow> (if tmp \<noteq> NULL then rb_set_parent_color tmp parent RB_BLACK h else Some h);
                  h \<leftarrow> rb_set_parent_color parent node RB_RED h;
                  h \<leftarrow> Some (augment_rotate parent node h);
                  tmp \<leftarrow> ld_left node h;
                  Some (node, tmp, h) }
                else Some (parent, tmp, h));
             h \<leftarrow> st_right gparent tmp h;
             h \<leftarrow> st_left parent gparent h;
             h \<leftarrow> (if tmp \<noteq> NULL then rb_set_parent_color tmp gparent RB_BLACK h else Some h);
             h \<leftarrow> uu_rb_rotate_set_parents gparent parent root RB_RED h;
             Some (augment_rotate gparent parent h) } } } })"

declare uu_rb_insert_loop.simps [code]

definition uu_rb_insert ::
  "ptr \<Rightarrow> ptr \<Rightarrow> (ptr \<Rightarrow> ptr \<Rightarrow> rb_heap \<Rightarrow> rb_heap) \<Rightarrow> rb_heap \<Rightarrow> rb_heap option" where
  "uu_rb_insert node root augment_rotate h = do {
     parent \<leftarrow> rb_red_parent node h;
     uu_rb_insert_loop augment_rotate root node parent h }"

section \<open>rbtree.c: removal\<close>

text \<open>Case 4 of \<^verbatim>\<open>____rb_erase_color\<close>, reached directly or after case 3, for a node that is
  the left (right) child of its parent.\<close>

definition erase_color_case4_left ::
  "(ptr \<Rightarrow> ptr \<Rightarrow> rb_heap \<Rightarrow> rb_heap) \<Rightarrow> ptr \<Rightarrow> ptr \<Rightarrow> ptr \<Rightarrow> ptr \<Rightarrow> rb_heap \<Rightarrow> rb_heap option" where
  "erase_color_case4_left augment_rotate root parent sibling tmp1 h = do {
     tmp2 \<leftarrow> ld_left sibling h;
     h \<leftarrow> st_right parent tmp2 h;
     h \<leftarrow> st_left sibling parent h;
     h \<leftarrow> rb_set_parent_color tmp1 sibling RB_BLACK h;
     h \<leftarrow> (if tmp2 \<noteq> NULL then rb_set_parent tmp2 parent h else Some h);
     h \<leftarrow> uu_rb_rotate_set_parents parent sibling root RB_BLACK h;
     Some (augment_rotate parent sibling h) }"

definition erase_color_case4_right ::
  "(ptr \<Rightarrow> ptr \<Rightarrow> rb_heap \<Rightarrow> rb_heap) \<Rightarrow> ptr \<Rightarrow> ptr \<Rightarrow> ptr \<Rightarrow> ptr \<Rightarrow> rb_heap \<Rightarrow> rb_heap option" where
  "erase_color_case4_right augment_rotate root parent sibling tmp1 h = do {
     tmp2 \<leftarrow> ld_right sibling h;
     h \<leftarrow> st_left parent tmp2 h;
     h \<leftarrow> st_right sibling parent h;
     h \<leftarrow> rb_set_parent_color tmp1 sibling RB_BLACK h;
     h \<leftarrow> (if tmp2 \<noteq> NULL then rb_set_parent tmp2 parent h else Some h);
     h \<leftarrow> uu_rb_rotate_set_parents parent sibling root RB_BLACK h;
     Some (augment_rotate parent sibling h) }"

text \<open>The body of the \<^verbatim>\<open>while (true)\<close> loop of \<^verbatim>\<open>____rb_erase_color\<close>; \<open>node\<close> and
  \<open>parent\<close> are the loop variables.\<close>

partial_function (option) uuuu_rb_erase_color_loop ::
  "(ptr \<Rightarrow> ptr \<Rightarrow> rb_heap \<Rightarrow> rb_heap) \<Rightarrow> ptr \<Rightarrow> ptr \<Rightarrow> ptr \<Rightarrow> rb_heap \<Rightarrow> rb_heap option" where
  "uuuu_rb_erase_color_loop augment_rotate root node parent h = do {
     sibling \<leftarrow> ld_right parent h;
     if node \<noteq> sibling then do {
       red \<leftarrow> rb_is_red sibling h;
       (sibling, h) \<leftarrow>
         (if red then do {
            tmp1 \<leftarrow> ld_left sibling h;
            h \<leftarrow> st_right parent tmp1 h;
            h \<leftarrow> st_left sibling parent h;
            h \<leftarrow> rb_set_parent_color tmp1 parent RB_BLACK h;
            h \<leftarrow> uu_rb_rotate_set_parents parent sibling root RB_RED h;
            h \<leftarrow> Some (augment_rotate parent sibling h);
            Some (tmp1, h) }
          else Some (sibling, h));
       tmp1 \<leftarrow> ld_right sibling h;
       black1 \<leftarrow> (if tmp1 = NULL then Some True else rb_is_black tmp1 h);
       if black1 then do {
         tmp2 \<leftarrow> ld_left sibling h;
         black2 \<leftarrow> (if tmp2 = NULL then Some True else rb_is_black tmp2 h);
         if black2 then do {
           h \<leftarrow> rb_set_parent_color sibling parent RB_RED h;
           red \<leftarrow> rb_is_red parent h;
           if red then rb_set_black parent h
           else do {
             pp \<leftarrow> rb_parent parent h;
             if pp \<noteq> NULL then uuuu_rb_erase_color_loop augment_rotate root parent pp h
             else Some h } }
         else do {
           tmp1 \<leftarrow> ld_right tmp2 h;
           h \<leftarrow> st_left sibling tmp1 h;
           h \<leftarrow> st_right tmp2 sibling h;
           h \<leftarrow> st_right parent tmp2 h;
           h \<leftarrow> (if tmp1 \<noteq> NULL then rb_set_parent_color tmp1 sibling RB_BLACK h else Some h);
           h \<leftarrow> Some (augment_rotate sibling tmp2 h);
           erase_color_case4_left augment_rotate root parent tmp2 sibling h } }
       else erase_color_case4_left augment_rotate root parent sibling tmp1 h }
     else do {
       sibling \<leftarrow> ld_left parent h;
       red \<leftarrow> rb_is_red sibling h;
       (sibling, h) \<leftarrow>
         (if red then do {
            tmp1 \<leftarrow> ld_right sibling h;
            h \<leftarrow> st_left parent tmp1 h;
            h \<leftarrow> st_right sibling parent h;
            h \<leftarrow> rb_set_parent_color tmp1 parent RB_BLACK h;
            h \<leftarrow> uu_rb_rotate_set_parents parent sibling root RB_RED h;
            h \<leftarrow> Some (augment_rotate parent sibling h);
            Some (tmp1, h) }
          else Some (sibling, h));
       tmp1 \<leftarrow> ld_left sibling h;
       black1 \<leftarrow> (if tmp1 = NULL then Some True else rb_is_black tmp1 h);
       if black1 then do {
         tmp2 \<leftarrow> ld_right sibling h;
         black2 \<leftarrow> (if tmp2 = NULL then Some True else rb_is_black tmp2 h);
         if black2 then do {
           h \<leftarrow> rb_set_parent_color sibling parent RB_RED h;
           red \<leftarrow> rb_is_red parent h;
           if red then rb_set_black parent h
           else do {
             pp \<leftarrow> rb_parent parent h;
             if pp \<noteq> NULL then uuuu_rb_erase_color_loop augment_rotate root parent pp h
             else Some h } }
         else do {
           tmp1 \<leftarrow> ld_left tmp2 h;
           h \<leftarrow> st_right sibling tmp1 h;
           h \<leftarrow> st_left tmp2 sibling h;
           h \<leftarrow> st_left parent tmp2 h;
           h \<leftarrow> (if tmp1 \<noteq> NULL then rb_set_parent_color tmp1 sibling RB_BLACK h else Some h);
           h \<leftarrow> Some (augment_rotate sibling tmp2 h);
           erase_color_case4_right augment_rotate root parent tmp2 sibling h } }
       else erase_color_case4_right augment_rotate root parent sibling tmp1 h } }"

declare uuuu_rb_erase_color_loop.simps [code]

definition uuuu_rb_erase_color ::
  "ptr \<Rightarrow> ptr \<Rightarrow> (ptr \<Rightarrow> ptr \<Rightarrow> rb_heap \<Rightarrow> rb_heap) \<Rightarrow> rb_heap \<Rightarrow> rb_heap option" where
  "uuuu_rb_erase_color parent root augment_rotate h =
     uuuu_rb_erase_color_loop augment_rotate root NULL parent h"

definition uu_rb_erase_color ::
  "ptr \<Rightarrow> ptr \<Rightarrow> (ptr \<Rightarrow> ptr \<Rightarrow> rb_heap \<Rightarrow> rb_heap) \<Rightarrow> rb_heap \<Rightarrow> rb_heap option" where
  "uu_rb_erase_color parent root augment_rotate h = uuuu_rb_erase_color parent root augment_rotate h"

text \<open>The \<^verbatim>\<open>do ... while (tmp)\<close> loop of case 3 of \<^verbatim>\<open>__rb_erase_augmented\<close>: the
  result is the final \<open>parent\<close> and \<open>successor\<close>.\<close>

partial_function (option) erase_successor :: "ptr \<Rightarrow> ptr \<Rightarrow> rb_heap \<Rightarrow> (ptr \<times> ptr) option" where
  "erase_successor successor tmp h = do {
     tmp' \<leftarrow> ld_left tmp h;
     if tmp' \<noteq> NULL then erase_successor tmp tmp' h else Some (successor, tmp) }"

declare erase_successor.simps [code]

definition uu_rb_erase_augmented ::
  "ptr \<Rightarrow> ptr \<Rightarrow> rb_augment_callbacks \<Rightarrow> rb_heap \<Rightarrow> (ptr \<times> rb_heap) option" where
  "uu_rb_erase_augmented node root augment h = do {
     child \<leftarrow> ld_right node h;
     tmp \<leftarrow> ld_left node h;
     (tmp, rebalance, h) \<leftarrow>
       (if tmp = NULL then do {
          pc \<leftarrow> ld_pc node h;
          let parent = uu_rb_parent pc;
          h \<leftarrow> uu_rb_change_child node child parent root h;
          if child \<noteq> NULL then do {
            h \<leftarrow> st_pc child pc h;
            Some (parent, NULL, h) }
          else Some (parent, (if uu_rb_is_black pc then parent else NULL), h) }
        else if child = NULL then do {
          pc \<leftarrow> ld_pc node h;
          h \<leftarrow> st_pc tmp pc h;
          let parent = uu_rb_parent pc;
          h \<leftarrow> uu_rb_change_child node tmp parent root h;
          Some (parent, NULL, h) }
        else do {
          ctmp \<leftarrow> ld_left child h;
          (parent, successor, child2, h) \<leftarrow>
            (if ctmp = NULL then do {
               child2 \<leftarrow> ld_right child h;
               Some (child, child, child2, copy augment node child h) }
             else do {
               (parent, successor) \<leftarrow> erase_successor child ctmp h;
               child2 \<leftarrow> ld_right successor h;
               h \<leftarrow> st_left parent child2 h;
               h \<leftarrow> st_right successor child h;
               h \<leftarrow> rb_set_parent child successor h;
               h \<leftarrow> Some (copy augment node successor h);
               h \<leftarrow> Some (propagate augment parent successor h);
               Some (parent, successor, child2, h) });
          tmp \<leftarrow> ld_left node h;
          h \<leftarrow> st_left successor tmp h;
          h \<leftarrow> rb_set_parent tmp successor h;
          pc \<leftarrow> ld_pc node h;
          let tmp = uu_rb_parent pc;
          h \<leftarrow> uu_rb_change_child node successor tmp root h;
          if child2 \<noteq> NULL then do {
            h \<leftarrow> st_pc successor pc h;
            h \<leftarrow> rb_set_parent_color child2 parent RB_BLACK h;
            Some (successor, NULL, h) }
          else do {
            pc2 \<leftarrow> ld_pc successor h;
            h \<leftarrow> st_pc successor pc h;
            Some (successor, (if uu_rb_is_black pc2 then parent else NULL), h) } });
     Some (rebalance, propagate augment tmp NULL h) }"

definition rb_erase_augmented :: "ptr \<Rightarrow> ptr \<Rightarrow> rb_augment_callbacks \<Rightarrow> rb_heap \<Rightarrow> rb_heap option" where
  "rb_erase_augmented node root augment h = do {
     (rebalance, h) \<leftarrow> uu_rb_erase_augmented node root augment h;
     if rebalance \<noteq> NULL then uu_rb_erase_color rebalance root (rotate augment) h else Some h }"

section \<open>rbtree.c: the non-augmented interface\<close>

definition dummy_propagate :: "ptr \<Rightarrow> ptr \<Rightarrow> rb_heap \<Rightarrow> rb_heap" where
  "dummy_propagate node stop h = h"

definition dummy_copy :: "ptr \<Rightarrow> ptr \<Rightarrow> rb_heap \<Rightarrow> rb_heap" where
  "dummy_copy old new h = h"

definition dummy_rotate :: "ptr \<Rightarrow> ptr \<Rightarrow> rb_heap \<Rightarrow> rb_heap" where
  "dummy_rotate old new h = h"

definition dummy_callbacks :: rb_augment_callbacks where
  "dummy_callbacks = \<lparr>propagate = dummy_propagate, copy = dummy_copy, rotate = dummy_rotate\<rparr>"

definition rb_insert_color :: "ptr \<Rightarrow> ptr \<Rightarrow> rb_heap \<Rightarrow> rb_heap option" where
  "rb_insert_color node root h = uu_rb_insert node root dummy_rotate h"

definition rb_erase :: "ptr \<Rightarrow> ptr \<Rightarrow> rb_heap \<Rightarrow> rb_heap option" where
  "rb_erase node root h = do {
     (rebalance, h) \<leftarrow> uu_rb_erase_augmented node root dummy_callbacks h;
     if rebalance \<noteq> NULL then uuuu_rb_erase_color rebalance root dummy_rotate h else Some h }"

definition uu_rb_insert_augmented ::
  "ptr \<Rightarrow> ptr \<Rightarrow> (ptr \<Rightarrow> ptr \<Rightarrow> rb_heap \<Rightarrow> rb_heap) \<Rightarrow> rb_heap \<Rightarrow> rb_heap option" where
  "uu_rb_insert_augmented node root augment_rotate h = uu_rb_insert node root augment_rotate h"

definition rb_insert_augmented :: "ptr \<Rightarrow> ptr \<Rightarrow> rb_augment_callbacks \<Rightarrow> rb_heap \<Rightarrow> rb_heap option" where
  "rb_insert_augmented node root augment h = uu_rb_insert_augmented node root (rotate augment) h"

definition rb_erase_init :: "ptr \<Rightarrow> ptr \<Rightarrow> rb_heap \<Rightarrow> rb_heap option" where
  "rb_erase_init n root h = do { h \<leftarrow> rb_erase n root h; RB_CLEAR_NODE n h }"

section \<open>rbtree.c: traversal and replacement\<close>

partial_function (option) leftmost_loop :: "ptr \<Rightarrow> rb_heap \<Rightarrow> ptr option" where
  "leftmost_loop n h = do {
     l \<leftarrow> ld_left n h;
     if l \<noteq> NULL then leftmost_loop l h else Some n }"

declare leftmost_loop.simps [code]

partial_function (option) rightmost_loop :: "ptr \<Rightarrow> rb_heap \<Rightarrow> ptr option" where
  "rightmost_loop n h = do {
     r \<leftarrow> ld_right n h;
     if r \<noteq> NULL then rightmost_loop r h else Some n }"

declare rightmost_loop.simps [code]

definition rb_first :: "ptr \<Rightarrow> rb_heap \<Rightarrow> ptr option" where
  "rb_first root h = do {
     n \<leftarrow> ld_root root h;
     if n = NULL then Some NULL else leftmost_loop n h }"

definition rb_last :: "ptr \<Rightarrow> rb_heap \<Rightarrow> ptr option" where
  "rb_last root h = do {
     n \<leftarrow> ld_root root h;
     if n = NULL then Some NULL else rightmost_loop n h }"

partial_function (option) next_up_loop :: "ptr \<Rightarrow> rb_heap \<Rightarrow> ptr option" where
  "next_up_loop node h = do {
     parent \<leftarrow> rb_parent node h;
     if parent = NULL then Some NULL
     else do {
       r \<leftarrow> ld_right parent h;
       if node = r then next_up_loop parent h else Some parent } }"

declare next_up_loop.simps [code]

partial_function (option) prev_up_loop :: "ptr \<Rightarrow> rb_heap \<Rightarrow> ptr option" where
  "prev_up_loop node h = do {
     parent \<leftarrow> rb_parent node h;
     if parent = NULL then Some NULL
     else do {
       l \<leftarrow> ld_left parent h;
       if node = l then prev_up_loop parent h else Some parent } }"

declare prev_up_loop.simps [code]

definition rb_next :: "ptr \<Rightarrow> rb_heap \<Rightarrow> ptr option" where
  "rb_next node h = do {
     empty \<leftarrow> RB_EMPTY_NODE node h;
     if empty then Some NULL
     else do {
       r \<leftarrow> ld_right node h;
       if r \<noteq> NULL then leftmost_loop r h else next_up_loop node h } }"

definition rb_prev :: "ptr \<Rightarrow> rb_heap \<Rightarrow> ptr option" where
  "rb_prev node h = do {
     empty \<leftarrow> RB_EMPTY_NODE node h;
     if empty then Some NULL
     else do {
       l \<leftarrow> ld_left node h;
       if l \<noteq> NULL then rightmost_loop l h else prev_up_loop node h } }"

definition rb_replace_node :: "ptr \<Rightarrow> ptr \<Rightarrow> ptr \<Rightarrow> rb_heap \<Rightarrow> rb_heap option" where
  "rb_replace_node victim new root h = do {
     parent \<leftarrow> rb_parent victim h;
     h \<leftarrow> uu_rb_change_child victim new parent root h;
     l \<leftarrow> ld_left victim h;
     h \<leftarrow> (if l \<noteq> NULL then rb_set_parent l new h else Some h);
     r \<leftarrow> ld_right victim h;
     h \<leftarrow> (if r \<noteq> NULL then rb_set_parent r new h else Some h);
     pc \<leftarrow> ld_pc victim h;
     l \<leftarrow> ld_left victim h;
     r \<leftarrow> ld_right victim h;
     h \<leftarrow> st_pc new pc h;
     h \<leftarrow> st_right new r h;
     st_left new l h }"

partial_function (option) rb_left_deepest_node :: "ptr \<Rightarrow> rb_heap \<Rightarrow> ptr option" where
  "rb_left_deepest_node node h = do {
     l \<leftarrow> ld_left node h;
     if l \<noteq> NULL then rb_left_deepest_node l h
     else do {
       r \<leftarrow> ld_right node h;
       if r \<noteq> NULL then rb_left_deepest_node r h else Some node } }"

declare rb_left_deepest_node.simps [code]

definition rb_next_postorder :: "ptr \<Rightarrow> rb_heap \<Rightarrow> ptr option" where
  "rb_next_postorder node h =
     (if node = NULL then Some NULL
      else do {
        parent \<leftarrow> rb_parent node h;
        if parent = NULL then Some NULL
        else do {
          l \<leftarrow> ld_left parent h;
          r \<leftarrow> ld_right parent h;
          if node = l \<and> r \<noteq> NULL then rb_left_deepest_node r h else Some parent } })"

definition rb_first_postorder :: "ptr \<Rightarrow> rb_heap \<Rightarrow> ptr option" where
  "rb_first_postorder root h = do {
     n \<leftarrow> ld_root root h;
     if n = NULL then Some NULL else rb_left_deepest_node n h }"

section \<open>Reading back what was written\<close>

lemmas set_defs = set_pc_def set_right_def set_left_def set_root_def

lemma read_set_pc [heap_simps]:
  "rb_parent_color (set_pc a v h) b = (if b = a then v else rb_parent_color h b)"
  "rb_right (set_pc a v h) = rb_right h"
  "rb_left (set_pc a v h) = rb_left h"
  "rb_node (set_pc a v h) = rb_node h"
  by (simp_all add: set_defs)

lemma read_set_right [heap_simps]:
  "rb_parent_color (set_right a v h) = rb_parent_color h"
  "rb_right (set_right a v h) b = (if b = a then v else rb_right h b)"
  "rb_left (set_right a v h) = rb_left h"
  "rb_node (set_right a v h) = rb_node h"
  by (simp_all add: set_defs)

lemma read_set_left [heap_simps]:
  "rb_parent_color (set_left a v h) = rb_parent_color h"
  "rb_right (set_left a v h) = rb_right h"
  "rb_left (set_left a v h) b = (if b = a then v else rb_left h b)"
  "rb_node (set_left a v h) = rb_node h"
  by (simp_all add: set_defs)

lemma read_set_root [heap_simps]:
  "rb_parent_color (set_root a v h) = rb_parent_color h"
  "rb_right (set_root a v h) = rb_right h"
  "rb_left (set_root a v h) = rb_left h"
  "rb_node (set_root a v h) b = (if b = a then v else rb_node h b)"
  by (simp_all add: set_defs)

lemma load_store [load_simps]:
  "a \<noteq> NULL \<Longrightarrow> ld_pc a h = Some (rb_parent_color h a)"
  "a \<noteq> NULL \<Longrightarrow> ld_right a h = Some (rb_right h a)"
  "a \<noteq> NULL \<Longrightarrow> ld_left a h = Some (rb_left h a)"
  "a \<noteq> NULL \<Longrightarrow> ld_root a h = Some (rb_node h a)"
  "a \<noteq> NULL \<Longrightarrow> st_pc a v h = Some (set_pc a v h)"
  "a \<noteq> NULL \<Longrightarrow> st_right a v h = Some (set_right a v h)"
  "a \<noteq> NULL \<Longrightarrow> st_left a v h = Some (set_left a v h)"
  "a \<noteq> NULL \<Longrightarrow> st_root a v h = Some (set_root a v h)"
  by (simp_all add: ld_pc_def ld_right_def ld_left_def ld_root_def
      st_pc_def st_right_def st_left_def st_root_def)

lemma colour_ops [load_simps]:
  "a \<noteq> NULL \<Longrightarrow> rb_parent a h = Some (rb_parent_color h a AND NOT 3)"
  "a \<noteq> NULL \<Longrightarrow> rb_color a h = Some (rb_parent_color h a AND 1)"
  "a \<noteq> NULL \<Longrightarrow> rb_is_red a h = Some (rb_parent_color h a AND 1 = 0)"
  "a \<noteq> NULL \<Longrightarrow> rb_is_black a h = Some (rb_parent_color h a AND 1 \<noteq> 0)"
  "a \<noteq> NULL \<Longrightarrow> rb_red_parent a h = Some (rb_parent_color h a)"
  "a \<noteq> NULL \<Longrightarrow> rb_set_parent a p h = Some (set_pc a ((rb_parent_color h a AND 1) OR p) h)"
  "a \<noteq> NULL \<Longrightarrow> rb_set_parent_color a p c h = Some (set_pc a (p OR c) h)"
  "a \<noteq> NULL \<Longrightarrow> rb_set_black a h = Some (set_pc a (rb_parent_color h a OR 1) h)"
  by (simp_all add: load_simps rb_parent_def rb_color_def rb_is_red_def rb_is_black_def
      uu_rb_color_def uu_rb_is_red_def uu_rb_is_black_def rb_red_parent_def rb_set_parent_def
      rb_set_parent_color_def rb_set_black_def RB_BLACK_def)

end
