(* ===== verification/Rbtree_Fun.thy ===== *)
theory Rbtree_Fun
  imports Main
begin

text \<open>
  The red-black tree algorithms of \<^verbatim>\<open>src/rbtree.c\<close> on trees instead of pointers. A
  position in a tree is a subtree together with the list of frames from it up to the root, which is
  what the C loops walk through the parent pointers. The functions follow the C case distinctions
  literally; \<open>None\<close> is where the C code would go through a null pointer. Shown here: the
  operations keep the in-order sequence and the five red-black properties listed at the top of
  \<^verbatim>\<open>rbtree.c\<close>, and never hit a null pointer on trees that satisfy them.
\<close>

section \<open>Trees and positions\<close>

datatype color = Red | Black

datatype 'a rbt = Leaf | Node "'a rbt" color 'a "'a rbt"

text \<open>\<open>FL c p s\<close>: the position is the left child of node \<open>p\<close> with colour \<open>c\<close> and
  right subtree \<open>s\<close>; \<open>FR s c p\<close>: it is the right child, \<open>s\<close> the left subtree.\<close>

datatype 'a frame = FL color 'a "'a rbt" | FR "'a rbt" color 'a

fun fill :: "'a rbt \<Rightarrow> 'a frame \<Rightarrow> 'a rbt" where
  "fill t (FL c p s) = Node t c p s"
| "fill t (FR s c p) = Node s c p t"

fun plug :: "'a rbt \<Rightarrow> 'a frame list \<Rightarrow> 'a rbt" where
  "plug t [] = t"
| "plug t (f # fs) = plug (fill t f) fs"

fun inorder :: "'a rbt \<Rightarrow> 'a list" where
  "inorder Leaf = []"
| "inorder (Node l c a r) = inorder l @ a # inorder r"

fun before :: "'a frame list \<Rightarrow> 'a list" where
  "before [] = []"
| "before (FL c p s # fs) = before fs"
| "before (FR s c p # fs) = before fs @ inorder s @ [p]"

fun after :: "'a frame list \<Rightarrow> 'a list" where
  "after [] = []"
| "after (FL c p s # fs) = p # inorder s @ after fs"
| "after (FR s c p # fs) = after fs"

lemma inorder_plug [simp]: "inorder (plug t fs) = before fs @ inorder t @ after fs"
proof (induction fs arbitrary: t)
  case (Cons f fs)
  then show ?case by (cases f) simp_all
qed simp

lemma plug_append [simp]: "plug t (fs @ gs) = plug (plug t fs) gs"
  by (induction fs arbitrary: t) simp_all

lemma before_append [simp]: "before (fs @ gs) = before gs @ before fs"
  by (induction fs rule: before.induct) simp_all

lemma after_append [simp]: "after (fs @ gs) = after fs @ after gs"
  by (induction fs rule: after.induct) simp_all

fun color_of :: "'a rbt \<Rightarrow> color" where
  "color_of Leaf = Black"
| "color_of (Node l c a r) = c"

fun paint :: "color \<Rightarrow> 'a rbt \<Rightarrow> 'a rbt" where
  "paint c Leaf = Leaf"
| "paint c (Node l d a r) = Node l c a r"

lemma inorder_paint [simp]: "inorder (paint c t) = inorder t"
  by (cases t) simp_all

lemma color_cases [simp]: "c \<noteq> Black \<longleftrightarrow> c = Red" "c \<noteq> Red \<longleftrightarrow> c = Black"
  by (cases c; simp)+

section \<open>Insertion fix-up\<close>

text \<open>\<open>ins_fix l x r fs\<close> is the loop of \<^verbatim>\<open>__rb_insert\<close> at the red node \<open>x\<close> with
  children \<open>l\<close> and \<open>r\<close>.\<close>

fun ins_fix :: "'a rbt \<Rightarrow> 'a \<Rightarrow> 'a rbt \<Rightarrow> 'a frame list \<Rightarrow> 'a rbt option" where
  "ins_fix l x r [] = Some (Node l Black x r)"
| "ins_fix l x r (FL Black p s # fs) = Some (plug (Node l Red x r) (FL Black p s # fs))"
| "ins_fix l x r (FR s Black p # fs) = Some (plug (Node l Red x r) (FR s Black p # fs))"
| "ins_fix l x r [FL Red p s] = None"
| "ins_fix l x r [FR s Red p] = None"
| "ins_fix l x r (FL Red p s # FL gc g u # fs) =
     (if color_of u = Red then ins_fix (Node (Node l Red x r) Black p s) g (paint Black u) fs
      else Some (plug (Node (Node l Red x r) gc p (Node (paint Black s) Red g u)) fs))"
| "ins_fix l x r (FR s Red p # FL gc g u # fs) =
     (if color_of u = Red then ins_fix (Node s Black p (Node l Red x r)) g (paint Black u) fs
      else Some (plug (Node (Node s Red p (paint Black l)) gc x (Node (paint Black r) Red g u)) fs))"
| "ins_fix l x r (FR s Red p # FR u gc g # fs) =
     (if color_of u = Red then ins_fix (paint Black u) g (Node s Black p (Node l Red x r)) fs
      else Some (plug (Node (Node u Red g (paint Black s)) gc p (Node l Red x r)) fs))"
| "ins_fix l x r (FL Red p s # FR u gc g # fs) =
     (if color_of u = Red then ins_fix (paint Black u) g (Node (Node l Red x r) Black p s) fs
      else Some (plug (Node (Node u Red g (paint Black l)) gc x (Node (paint Black r) Red p s)) fs))"

section \<open>Removal fix-up\<close>

text \<open>
  \<open>sib_left t c p sl sx sr\<close>: cases 2, 3 and 4 of \<^verbatim>\<open>____rb_erase_color\<close> for a node that is the
  left child \<open>t\<close> of \<open>p\<close>, with a black sibling \<open>sx\<close>. The result is the new subtree in
  place of \<open>p\<close> and whether it still lacks a black node (so that the loop goes on above it).
\<close>

fun sib_left :: "'a rbt \<Rightarrow> color \<Rightarrow> 'a \<Rightarrow> 'a rbt \<Rightarrow> 'a \<Rightarrow> 'a rbt \<Rightarrow> 'a rbt \<times> bool" where
  "sib_left t c p sl sx sr =
     (if color_of sr = Red then (Node (Node t Black p sl) c sx (paint Black sr), False)
      else case sl of
        Node sll Red slx slr \<Rightarrow>
          (Node (Node t Black p sll) c slx (Node (paint Black slr) Black sx sr), False)
      | _ \<Rightarrow> (Node t Black p (Node sl Red sx sr), c = Black))"

fun sib_right :: "'a rbt \<Rightarrow> color \<Rightarrow> 'a \<Rightarrow> 'a rbt \<Rightarrow> 'a \<Rightarrow> 'a rbt \<Rightarrow> 'a rbt \<times> bool" where
  "sib_right t c p sl sx sr =
     (if color_of sl = Red then (Node (paint Black sl) c sx (Node sr Black p t), False)
      else case sr of
        Node srl Red srx srr \<Rightarrow>
          (Node (Node sl Black sx (paint Black srl)) c srx (Node srr Black p t), False)
      | _ \<Rightarrow> (Node (Node sl Red sx sr) Black p t, c = Black))"

text \<open>The loop of \<^verbatim>\<open>____rb_erase_color\<close> at a subtree \<open>t\<close> that lacks a black node.\<close>

fun del_fix :: "'a rbt \<Rightarrow> 'a frame list \<Rightarrow> 'a rbt option" where
  "del_fix t [] = Some t"
| "del_fix t (FL c p s # fs) =
     (case s of
        Leaf \<Rightarrow> None
      | Node sl Red sx sr \<Rightarrow>
          (case sl of
             Leaf \<Rightarrow> None
           | Node sll d slx slr \<Rightarrow>
               Some (plug (fst (sib_left t Red p sll slx slr)) (FL c sx sr # fs)))
      | Node sl Black sx sr \<Rightarrow>
          (if snd (sib_left t c p sl sx sr) then del_fix (fst (sib_left t c p sl sx sr)) fs
           else Some (plug (fst (sib_left t c p sl sx sr)) fs)))"
| "del_fix t (FR s c p # fs) =
     (case s of
        Leaf \<Rightarrow> None
      | Node sl Red sx sr \<Rightarrow>
          (case sr of
             Leaf \<Rightarrow> None
           | Node srl d srx srr \<Rightarrow>
               Some (plug (fst (sib_right t Red p srl srx srr)) (FR sl c sx # fs)))
      | Node sl Black sx sr \<Rightarrow>
          (if snd (sib_right t c p sl sx sr) then del_fix (fst (sib_right t c p sl sx sr)) fs
           else Some (plug (fst (sib_right t c p sl sx sr)) fs)))"

text \<open>The leftmost node of a non-empty tree: colour, element, right subtree, and the frames above
  it (innermost first) pushed onto \<open>fs\<close>.\<close>

fun min_split :: "'a rbt \<Rightarrow> color \<Rightarrow> 'a \<Rightarrow> 'a rbt \<Rightarrow> 'a frame list \<Rightarrow> color \<times> 'a \<times> 'a rbt \<times> 'a frame list" where
  "min_split Leaf c a r fs = (c, a, r, fs)"
| "min_split (Node ll lc la lr) c a r fs = min_split ll lc la lr (FL c a r # fs)"

text \<open>A hole left by an unlinked node of colour \<open>c\<close> whose only child is \<open>t\<close>.\<close>

definition close_gap :: "color \<Rightarrow> 'a rbt \<Rightarrow> 'a frame list \<Rightarrow> 'a rbt option" where
  "close_gap c t fs =
     (case t of
        Leaf \<Rightarrow> (if c = Black then del_fix Leaf fs else Some (plug Leaf fs))
      | Node cl cc ca cr \<Rightarrow> Some (plug (Node cl Black ca cr) fs))"

text \<open>\<^verbatim>\<open>rb_erase\<close> of the node \<open>x\<close> at a position.\<close>

fun erase_at :: "'a rbt \<Rightarrow> color \<Rightarrow> 'a \<Rightarrow> 'a rbt \<Rightarrow> 'a frame list \<Rightarrow> 'a rbt option" where
  "erase_at Leaf c x r fs =
     (if r = Leaf then close_gap c Leaf fs else Some (plug (paint c r) fs))"
| "erase_at (Node ll lc la lr) c x Leaf fs = Some (plug (Node ll c la lr) fs)"
| "erase_at (Node ll lc la lr) c x (Node rl rc ra rr) fs =
     (case min_split rl rc ra rr [] of
        (sc, s, sr, path) \<Rightarrow> close_gap sc sr (path @ FR (Node ll lc la lr) c s # fs))"

section \<open>The sequence of elements\<close>

theorem ins_fix_inorder:
  "ins_fix l x r fs = Some t \<Longrightarrow> inorder t = inorder (plug (Node l Red x r) fs)"
  by (induction l x r fs rule: ins_fix.induct) (auto split: if_splits)

lemma sib_left_inorder [simp]:
  "inorder (fst (sib_left t c p sl sx sr)) = inorder t @ p # inorder sl @ sx # inorder sr"
  by (auto split: rbt.splits color.splits)

lemma sib_right_inorder [simp]:
  "inorder (fst (sib_right t c p sl sx sr)) = inorder sl @ sx # inorder sr @ p # inorder t"
  by (auto split: rbt.splits color.splits)

declare sib_left.simps [simp del] sib_right.simps [simp del]

lemma del_fix_inorder: "del_fix t fs = Some t' \<Longrightarrow> inorder t' = inorder (plug t fs)"
proof (induction t fs rule: del_fix.induct)
  case (2 t c p s fs)
  then show ?case
    by (auto split: rbt.splits color.splits if_splits)
next
  case (3 t s c p fs)
  then show ?case
    by (auto split: rbt.splits color.splits if_splits)
qed simp

lemma close_gap_inorder: "close_gap c t fs = Some t' \<Longrightarrow> inorder t' = before fs @ inorder t @ after fs"
  by (auto simp: close_gap_def dest: del_fix_inorder split: rbt.splits if_splits)

lemma min_split_inorder:
  "min_split l c a r fs = (sc, s, sr, fs') \<Longrightarrow>
   s # inorder sr @ after fs' = inorder l @ a # inorder r @ after fs \<and> before fs' = before fs"
  by (induction l c a r fs rule: min_split.induct) auto

theorem erase_at_inorder:
  "erase_at l c x r fs = Some t \<Longrightarrow> inorder t = before fs @ inorder l @ inorder r @ after fs"
proof (induction l c x r fs rule: erase_at.induct)
  case (1 c x r fs)
  then show ?case
    by (auto split: if_splits dest: close_gap_inorder)
next
  case (3 ll lc la lr c x rl rc ra rr fs)
  obtain sc s sr path where ms: "min_split rl rc ra rr [] = (sc, s, sr, path)"
    by (cases "min_split rl rc ra rr []") auto
  from min_split_inorder [OF ms] have sq: "s # inorder sr @ after path = inorder rl @ ra # inorder rr"
    and bf: "before path = []" by auto
  from 3 ms have "close_gap sc sr (path @ FR (Node ll lc la lr) c s # fs) = Some t"
    by simp
  from close_gap_inorder [OF this] show ?case
    using sq bf by simp
qed auto

section \<open>Red-black properties\<close>

text \<open>Property 4: both children of a red node are black. Property 5: all paths have the same number
  of black nodes. Together with a black root they make \<open>rb_ok\<close>.\<close>

fun bheight :: "'a rbt \<Rightarrow> nat" where
  "bheight Leaf = 0"
| "bheight (Node l c a r) = bheight l + (if c = Black then 1 else 0)"

fun invh :: "'a rbt \<Rightarrow> bool" where
  "invh Leaf \<longleftrightarrow> True"
| "invh (Node l c a r) \<longleftrightarrow> bheight l = bheight r \<and> invh l \<and> invh r"

fun invc :: "'a rbt \<Rightarrow> bool" where
  "invc Leaf \<longleftrightarrow> True"
| "invc (Node l c a r) \<longleftrightarrow> (c = Red \<longrightarrow> color_of l = Black \<and> color_of r = Black) \<and> invc l \<and> invc r"

definition rb_ok :: "'a rbt \<Rightarrow> bool" where
  "rb_ok t \<longleftrightarrow> invc t \<and> invh t \<and> color_of t = Black"

text \<open>What the frames ask of a subtree put into the position: its black height and its colour.\<close>

fun frames_h :: "nat \<Rightarrow> 'a frame list \<Rightarrow> bool" where
  "frames_h n [] \<longleftrightarrow> True"
| "frames_h n (FL c p s # fs) \<longleftrightarrow>
     bheight s = n \<and> invh s \<and> frames_h (n + (if c = Black then 1 else 0)) fs"
| "frames_h n (FR s c p # fs) \<longleftrightarrow>
     bheight s = n \<and> invh s \<and> frames_h (n + (if c = Black then 1 else 0)) fs"

fun frames_c :: "color \<Rightarrow> 'a frame list \<Rightarrow> bool" where
  "frames_c d [] \<longleftrightarrow> d = Black"
| "frames_c d (FL c p s # fs) \<longleftrightarrow>
     (c = Red \<longrightarrow> d = Black \<and> color_of s = Black) \<and> invc s \<and> frames_c c fs"
| "frames_c d (FR s c p # fs) \<longleftrightarrow>
     (c = Red \<longrightarrow> d = Black \<and> color_of s = Black) \<and> invc s \<and> frames_c c fs"

lemma invh_plug: "invh (plug t fs) \<longleftrightarrow> invh t \<and> frames_h (bheight t) fs"
proof (induction fs arbitrary: t)
  case (Cons f fs)
  show ?case
  proof (cases f)
    case (FL c p s)
    then show ?thesis by (auto simp: Cons.IH)
  next
    case (FR s c p)
    then show ?thesis by (auto simp: Cons.IH)
  qed
qed simp

fun root_black :: "'a rbt \<Rightarrow> 'a frame list \<Rightarrow> bool" where
  "root_black t [] \<longleftrightarrow> color_of t = Black"
| "root_black t (f # fs) \<longleftrightarrow> root_black (fill t f) fs"

lemma color_of_plug: "color_of (plug t fs) = Black \<longleftrightarrow> root_black t fs"
  by (induction fs arbitrary: t) simp_all

lemma invc_plug: "invc (plug t fs) \<and> root_black t fs \<longleftrightarrow> invc t \<and> frames_c (color_of t) fs"
proof (induction fs arbitrary: t)
  case (Cons f fs)
  show ?case
  proof (cases f)
    case (FL c p s)
    then show ?thesis using Cons.IH [of "fill t f"] by auto
  next
    case (FR s c p)
    then show ?thesis using Cons.IH [of "fill t f"] by auto
  qed
qed auto

lemma rb_ok_plug:
  "rb_ok (plug t fs) \<longleftrightarrow> invc t \<and> invh t \<and> frames_h (bheight t) fs \<and> frames_c (color_of t) fs"
  using invc_plug [of t fs] by (auto simp: rb_ok_def invh_plug color_of_plug)

lemma frames_c_Black: "frames_c d fs \<Longrightarrow> frames_c Black fs"
  by (cases "(d, fs)" rule: frames_c.cases) auto

lemma bheight_paint_Red: "color_of t = Red \<Longrightarrow> bheight (paint Black t) = Suc (bheight t)"
  by (cases t) auto

lemma paint_props [simp]:
  "invh (paint c t) = invh t" "color_of (paint Black t) = Black" "invc t \<Longrightarrow> invc (paint Black t)"
  "color_of t = Black \<Longrightarrow> paint Black t = t"
  by (cases t; auto)+


lemma rb_ok_Black:
  "rb_ok (Node l Black x r) \<longleftrightarrow> invc l \<and> invc r \<and> bheight l = bheight r \<and> invh l \<and> invh r"
  by (auto simp: rb_ok_def)

theorem ins_fix_ok:
  assumes "invc l" "invc r" "color_of l = Black" "color_of r = Black" "invh l" "invh r"
    and "bheight l = bheight r" "frames_h (bheight l) fs" "frames_c Black fs"
  shows "\<exists>t. ins_fix l x r fs = Some t \<and> rb_ok t"
  using assms
proof (induction l x r fs rule: ins_fix.induct)
  case (6 l x r p s gc g u fs)
  show ?case
  proof (cases "color_of u")
    case Red
    with "6.prems" have "\<exists>t. ins_fix (Node (Node l Red x r) Black p s) g (paint Black u) fs = Some t \<and> rb_ok t"
      by (intro "6.IH") (auto simp: bheight_paint_Red)
    with Red show ?thesis by simp
  next
    case Black
    with "6.prems" show ?thesis by (auto simp: rb_ok_plug)
  qed
next
  case (7 l x r s p gc g u fs)
  show ?case
  proof (cases "color_of u")
    case Red
    with "7.prems" have "\<exists>t. ins_fix (Node s Black p (Node l Red x r)) g (paint Black u) fs = Some t \<and> rb_ok t"
      by (intro "7.IH") (auto simp: bheight_paint_Red)
    with Red show ?thesis by simp
  next
    case Black
    with "7.prems" show ?thesis by (auto simp: rb_ok_plug)
  qed
next
  case (8 l x r s p u gc g fs)
  show ?case
  proof (cases "color_of u")
    case Red
    with "8.prems" have "\<exists>t. ins_fix (paint Black u) g (Node s Black p (Node l Red x r)) fs = Some t \<and> rb_ok t"
      by (intro "8.IH") (auto simp: bheight_paint_Red)
    with Red show ?thesis by simp
  next
    case Black
    with "8.prems" show ?thesis by (auto simp: rb_ok_plug)
  qed
next
  case (9 l x r p s u gc g fs)
  show ?case
  proof (cases "color_of u")
    case Red
    with "9.prems" have "\<exists>t. ins_fix (paint Black u) g (Node (Node l Red x r) Black p s) fs = Some t \<and> rb_ok t"
      by (intro "9.IH") (auto simp: bheight_paint_Red)
    with Red show ?thesis by simp
  next
    case Black
    with "9.prems" show ?thesis by (auto simp: rb_ok_plug)
  qed
qed (simp_all add: rb_ok_plug rb_ok_Black)

lemma sib_left_ok:
  assumes "invc t" "invh t" "color_of t = Black"
    and "invc sl" "invc sr" "invh sl" "invh sr" "bheight sl = bheight t" "bheight sr = bheight t"
    and "sib_left t c p sl sx sr = (t', short)"
  shows "invc t'" "invh t'" "color_of t' = c \<or> color_of t' = Black"
    and "short \<Longrightarrow> c = Black \<and> color_of t' = Black \<and> bheight t' = Suc (bheight t)"
    and "\<not> short \<Longrightarrow> bheight t' = Suc (bheight t) + (if c = Black then 1 else 0)"
  using assms by (auto split: if_splits rbt.splits color.splits simp: sib_left.simps bheight_paint_Red)

lemma sib_right_ok:
  assumes "invc t" "invh t" "color_of t = Black"
    and "invc sl" "invc sr" "invh sl" "invh sr" "bheight sl = bheight t" "bheight sr = bheight t"
    and "sib_right t c p sl sx sr = (t', short)"
  shows "invc t'" "invh t'" "color_of t' = c \<or> color_of t' = Black"
    and "short \<Longrightarrow> c = Black \<and> color_of t' = Black \<and> bheight t' = Suc (bheight t)"
    and "\<not> short \<Longrightarrow> bheight t' = Suc (bheight t) + (if c = Black then 1 else 0)"
  using assms by (auto split: if_splits rbt.splits color.splits simp: sib_right.simps bheight_paint_Red)

lemma frames_c_either: "frames_c c fs \<Longrightarrow> d = c \<or> d = Black \<Longrightarrow> frames_c d fs"
  by (auto intro: frames_c_Black)

lemma black_height_Node: "Suc n = bheight s \<Longrightarrow> \<exists>l c x r. s = Node l c x r"
  by (cases s) auto

lemma del_fix_left_done:
  assumes t: "invc t" "invh t" "color_of t = Black"
    and sib: "invc sl" "invc sr" "invh sl" "invh sr" "bheight sl = bheight t" "bheight sr = bheight t"
    and fs: "frames_h (Suc (bheight t) + (if c = Black then 1 else 0)) fs" "frames_c c fs"
    and fin: "\<not> snd (sib_left t c p sl sx sr)"
  shows "rb_ok (plug (fst (sib_left t c p sl sx sr)) fs)"
proof -
  obtain t' where t': "sib_left t c p sl sx sr = (t', False)"
    using fin by (cases "sib_left t c p sl sx sr") auto
  note ok = sib_left_ok [OF t sib t']
  from ok(5) fs(1) have "frames_h (bheight t') fs" by simp
  moreover from ok(3) fs(2) have "frames_c (color_of t') fs" by (rule frames_c_either [rotated])
  ultimately show ?thesis using ok(1,2) t' by (simp add: rb_ok_plug)
qed

lemma del_fix_right_done:
  assumes t: "invc t" "invh t" "color_of t = Black"
    and sib: "invc sl" "invc sr" "invh sl" "invh sr" "bheight sl = bheight t" "bheight sr = bheight t"
    and fs: "frames_h (Suc (bheight t) + (if c = Black then 1 else 0)) fs" "frames_c c fs"
    and fin: "\<not> snd (sib_right t c p sl sx sr)"
  shows "rb_ok (plug (fst (sib_right t c p sl sx sr)) fs)"
proof -
  obtain t' where t': "sib_right t c p sl sx sr = (t', False)"
    using fin by (cases "sib_right t c p sl sx sr") auto
  note ok = sib_right_ok [OF t sib t']
  from ok(5) fs(1) have "frames_h (bheight t') fs" by simp
  moreover from ok(3) fs(2) have "frames_c (color_of t') fs" by (rule frames_c_either [rotated])
  ultimately show ?thesis using ok(1,2) t' by (simp add: rb_ok_plug)
qed

lemma sib_Red_done [simp]: "\<not> snd (sib_left t Red p sl sx sr)" "\<not> snd (sib_right t Red p sl sx sr)"
  by (auto simp: sib_left.simps sib_right.simps split: rbt.splits color.splits)

lemma del_fix_left_step:
  assumes t: "invc t" "invh t" "color_of t = Black"
    and fs: "frames_h (Suc (bheight t)) (FL c p s # fs)" "frames_c Black (FL c p s # fs)"
    and IH: "\<And>t'. \<lbrakk>invc t'; invh t'; color_of t' = Black; frames_h (Suc (bheight t')) fs; frames_c Black fs\<rbrakk>
      \<Longrightarrow> \<exists>t''. del_fix t' fs = Some t'' \<and> rb_ok t''"
  shows "\<exists>t'. del_fix t (FL c p s # fs) = Some t' \<and> rb_ok t'"
proof -
  from fs obtain sl sc sx sr where s: "s = Node sl sc sx sr"
    using black_height_Node [of "bheight t" s] by auto
  show ?thesis
  proof (cases sc)
    case Red
    with fs s obtain sll d slx slr where sl: "sl = Node sll d slx slr"
      using black_height_Node [of "bheight t" sl] by auto
    have "rb_ok (plug (fst (sib_left t Red p sll slx slr)) (FL c sx sr # fs))"
      by (rule del_fix_left_done) (use t fs Red s sl in auto)
    with Red s sl show ?thesis by simp
  next
    case Black
    obtain t' short where t': "sib_left t c p sl sx sr = (t', short)"
      by (cases "sib_left t c p sl sx sr")
    show ?thesis
    proof (cases short)
      case True
      then have "invc t'" "invh t'" "c = Black \<and> color_of t' = Black \<and> bheight t' = Suc (bheight t)"
        using sib_left_ok [OF t _ _ _ _ _ _ t'] fs Black s by simp_all
      with fs True s Black t' show ?thesis
        using IH [of t'] by simp
    next
      case False
      with t fs Black s t' have "rb_ok (plug (fst (sib_left t c p sl sx sr)) fs)"
        by (intro del_fix_left_done) auto
      with s Black False t' show ?thesis by simp
    qed
  qed
qed

lemma del_fix_right_step:
  assumes t: "invc t" "invh t" "color_of t = Black"
    and fs: "frames_h (Suc (bheight t)) (FR s c p # fs)" "frames_c Black (FR s c p # fs)"
    and IH: "\<And>t'. \<lbrakk>invc t'; invh t'; color_of t' = Black; frames_h (Suc (bheight t')) fs; frames_c Black fs\<rbrakk>
      \<Longrightarrow> \<exists>t''. del_fix t' fs = Some t'' \<and> rb_ok t''"
  shows "\<exists>t'. del_fix t (FR s c p # fs) = Some t' \<and> rb_ok t'"
proof -
  from fs obtain sl sc sx sr where s: "s = Node sl sc sx sr"
    using black_height_Node [of "bheight t" s] by auto
  show ?thesis
  proof (cases sc)
    case Red
    with fs s obtain srl d srx srr where sr: "sr = Node srl d srx srr"
      using black_height_Node [of "bheight t" sr] by auto
    have "rb_ok (plug (fst (sib_right t Red p srl srx srr)) (FR sl c sx # fs))"
      by (rule del_fix_right_done) (use t fs Red s sr in auto)
    with Red s sr show ?thesis by simp
  next
    case Black
    obtain t' short where t': "sib_right t c p sl sx sr = (t', short)"
      by (cases "sib_right t c p sl sx sr")
    show ?thesis
    proof (cases short)
      case True
      then have "invc t'" "invh t'" "c = Black \<and> color_of t' = Black \<and> bheight t' = Suc (bheight t)"
        using sib_right_ok [OF t _ _ _ _ _ _ t'] fs Black s by simp_all
      with fs True s Black t' show ?thesis
        using IH [of t'] by simp
    next
      case False
      with t fs Black s t' have "rb_ok (plug (fst (sib_right t c p sl sx sr)) fs)"
        by (intro del_fix_right_done) auto
      with s Black False t' show ?thesis by simp
    qed
  qed
qed

lemma del_fix_ok:
  assumes "invc t" "invh t" "color_of t = Black"
    and "frames_h (Suc (bheight t)) fs" "frames_c Black fs"
  shows "\<exists>t'. del_fix t fs = Some t' \<and> rb_ok t'"
  using assms
proof (induction fs arbitrary: t)
  case Nil
  then show ?case by (simp add: rb_ok_def)
next
  case (Cons f fs)
  show ?case
  proof (cases f)
    case (FL c p s)
    with Cons show ?thesis using del_fix_left_step [of t c p s fs] by blast
  next
    case (FR s c p)
    with Cons show ?thesis using del_fix_right_step [of t s c p fs] by blast
  qed
qed

lemma close_gap_ok:
  assumes "invc t" "invh t" "c = Red \<longrightarrow> color_of t = Black"
    and "frames_h (bheight t + (if c = Black then 1 else 0)) fs" "frames_c c fs"
    and "t \<noteq> Leaf \<Longrightarrow> color_of t = Red \<and> c = Black"
  shows "\<exists>t'. close_gap c t fs = Some t' \<and> rb_ok t'"
proof (cases t)
  case Leaf
  with assms show ?thesis
    using del_fix_ok [of Leaf fs] frames_c_Black [of c fs]
    by (auto simp: close_gap_def rb_ok_plug)
next
  case (Node cl cc ca cr)
  with assms show ?thesis
    by (auto simp: close_gap_def rb_ok_plug)
qed

text \<open>A node with a single child is black and its child is red and has no children.\<close>

lemma single_child_red:
  "\<lbrakk>invh t; bheight t = 0; invc t; t \<noteq> Leaf\<rbrakk> \<Longrightarrow> color_of t = Red"
  by (cases t) (auto split: if_splits)

lemma min_split_ok:
  "\<lbrakk>min_split l c a r fs = (sc, s, sr, fs'); invc (Node l c a r); invh (Node l c a r);
    frames_h (bheight (Node l c a r)) fs; frames_c c fs\<rbrakk>
   \<Longrightarrow> invc sr \<and> invh sr \<and> bheight sr = 0 \<and> (sc = Red \<longrightarrow> color_of sr = Black) \<and>
       frames_h (if sc = Black then 1 else 0) fs' \<and> frames_c sc fs'"
  by (induction l c a r fs rule: min_split.induct) auto

lemma min_split_acc:
  "min_split l c a r fs = (case min_split l c a r [] of (sc, s, sr, path) \<Rightarrow> (sc, s, sr, path @ fs))"
proof (induction l arbitrary: c a r fs)
  case (Node ll lc la lr)
  show ?case
    by (simp add: Node.IH(1) [of _ _ _ "FL c a r # fs"] Node.IH(1) [of _ _ _ "[FL c a r]"] split: prod.splits)
qed simp

theorem erase_at_ok:
  assumes "rb_ok (plug (Node l c x r) fs)"
  shows "\<exists>t. erase_at l c x r fs = Some t \<and> rb_ok t"
proof -
  from assms have lr: "invc (Node l c x r)" "invh (Node l c x r)"
    and fs: "frames_h (bheight (Node l c x r)) fs" "frames_c c fs"
    unfolding rb_ok_plug by auto
  consider "l = Leaf" "r = Leaf" | "l = Leaf" "r \<noteq> Leaf" | "l \<noteq> Leaf" "r = Leaf" | "l \<noteq> Leaf" "r \<noteq> Leaf"
    by blast
  then show ?thesis
  proof cases
    case 1
    with lr fs show ?thesis using close_gap_ok [of Leaf c fs] by simp
  next
    case 2
    with lr have "color_of r = Red" using single_child_red [of r] by simp
    with 2 lr fs show ?thesis
      by (cases r) (auto simp: rb_ok_plug)
  next
    case 3
    with lr have "color_of l = Red" using single_child_red [of l] by simp
    with 3 lr fs show ?thesis
      by (cases l) (auto simp: rb_ok_plug)
  next
    case 4
    then obtain ll lc la lr' rl rc ra rr where l: "l = Node ll lc la lr'" and r: "r = Node rl rc ra rr"
      by (meson rbt.exhaust)
    obtain sc s sr path where ms: "min_split rl rc ra rr [] = (sc, s, sr, path)"
      by (cases "min_split rl rc ra rr []") auto
    then have "min_split rl rc ra rr (FR l c s # fs) = (sc, s, sr, path @ FR l c s # fs)"
      by (simp add: min_split_acc [of rl rc ra rr "FR l c s # fs"])
    then have "invc sr \<and> invh sr \<and> bheight sr = 0 \<and> (sc = Red \<longrightarrow> color_of sr = Black) \<and>
       frames_h (if sc = Black then 1 else 0) (path @ FR l c s # fs) \<and> frames_c sc (path @ FR l c s # fs)"
      by (rule min_split_ok) (use lr fs r in auto)
    moreover from this have "sr \<noteq> Leaf \<Longrightarrow> color_of sr = Red \<and> sc = Black"
      using single_child_red [of sr] by (cases sc) auto
    ultimately have "\<exists>t. close_gap sc sr (path @ FR l c s # fs) = Some t \<and> rb_ok t"
      by (intro close_gap_ok) auto
    with l r ms show ?thesis by simp
  qed
qed
end
