(* ===== verification/Rbtree_Refine.thy ===== *)
theory Rbtree_Refine
  imports Rbtree_Heap Rbtree_Fun
begin

text \<open>
  The pointer code of \<^verbatim>\<open>Rbtree_Heap\<close> computes the functions of \<^verbatim>\<open>Rbtree_Fun\<close>. A heap
  represents a tree of node addresses when the child pointers spell out the tree and every
  \<^verbatim>\<open>__rb_parent_color\<close> word holds the address of the parent with the colour in bit 0. The
  refinement theorems give termination, absence of null-pointer accesses, the represented result
  and a frame condition (nothing outside the tree is written) in one statement each.
\<close>

section \<open>Trees in the heap\<close>

fun col :: "color \<Rightarrow> u64" where
  "col Red = 0"
| "col Black = 1"

fun rootp :: "ptr rbt \<Rightarrow> ptr" where
  "rootp Leaf = NULL"
| "rootp (Node l c a r) = a"

fun tree_at :: "rb_heap \<Rightarrow> ptr \<Rightarrow> ptr rbt \<Rightarrow> bool" where
  "tree_at h p Leaf \<longleftrightarrow> True"
| "tree_at h p (Node l c a r) \<longleftrightarrow>
     a \<noteq> NULL \<and> aligned a \<and> rb_parent_color h a = p OR col c \<and>
     rb_left h a = rootp l \<and> rb_right h a = rootp r \<and> tree_at h a l \<and> tree_at h a r"

fun par :: "ptr frame list \<Rightarrow> ptr" where
  "par [] = NULL"
| "par (FL c a s # fs) = a"
| "par (FR s c a # fs) = a"

text \<open>\<open>frames_at h rt x fs\<close>: the frames \<open>fs\<close> are in the heap, below root \<open>rt\<close>, with
  \<open>x\<close> as the pointer stored at the position.\<close>

fun frames_at :: "rb_heap \<Rightarrow> ptr \<Rightarrow> ptr \<Rightarrow> ptr frame list \<Rightarrow> bool" where
  "frames_at h rt x [] \<longleftrightarrow> rb_node h rt = x"
| "frames_at h rt x (FL c a s # fs) \<longleftrightarrow>
     a \<noteq> NULL \<and> aligned a \<and> rb_parent_color h a = par fs OR col c \<and>
     rb_left h a = x \<and> rb_right h a = rootp s \<and> tree_at h a s \<and> frames_at h rt a fs"
| "frames_at h rt x (FR s c a # fs) \<longleftrightarrow>
     a \<noteq> NULL \<and> aligned a \<and> rb_parent_color h a = par fs OR col c \<and>
     rb_right h a = x \<and> rb_left h a = rootp s \<and> tree_at h a s \<and> frames_at h rt a fs"

abbreviation fnodes :: "ptr frame list \<Rightarrow> ptr set" where
  "fnodes fs \<equiv> set (before fs) \<union> set (after fs)"

definition rb_tree_at :: "rb_heap \<Rightarrow> ptr \<Rightarrow> ptr rbt \<Rightarrow> bool" where
  "rb_tree_at h rt t \<longleftrightarrow>
     rt \<noteq> NULL \<and> rb_node h rt = rootp t \<and> tree_at h NULL t \<and> distinct (inorder t)"

text \<open>Two heaps agree outside a set of nodes and one root.\<close>

definition agree :: "ptr set \<Rightarrow> ptr \<Rightarrow> rb_heap \<Rightarrow> rb_heap \<Rightarrow> bool" where
  "agree S rt h h' \<longleftrightarrow>
     (\<forall>a. a \<notin> S \<longrightarrow> rb_parent_color h' a = rb_parent_color h a \<and> rb_left h' a = rb_left h a \<and>
        rb_right h' a = rb_right h a) \<and> (\<forall>r. r \<noteq> rt \<longrightarrow> rb_node h' r = rb_node h r)"

section \<open>Frame rules\<close>

lemma rootp_in [simp]: "t \<noteq> Leaf \<Longrightarrow> rootp t \<in> set (inorder t)"
  by (cases t) auto

lemma rootp_NULL_iff: "tree_at h p t \<Longrightarrow> rootp t = NULL \<longleftrightarrow> t = Leaf"
  by (cases t) auto

lemma tree_at_cong:
  assumes "\<And>a. a \<in> set (inorder t) \<Longrightarrow> rb_parent_color h' a = rb_parent_color h a \<and>
      rb_left h' a = rb_left h a \<and> rb_right h' a = rb_right h a"
  shows "tree_at h' p t = tree_at h p t"
  using assms by (induction t arbitrary: p) auto

lemma tree_at_upd [heap_simps]:
  "a \<notin> set (inorder t) \<Longrightarrow> tree_at (set_pc a v h) p t = tree_at h p t"
  "a \<notin> set (inorder t) \<Longrightarrow> tree_at (set_left a v h) p t = tree_at h p t"
  "a \<notin> set (inorder t) \<Longrightarrow> tree_at (set_right a v h) p t = tree_at h p t"
  "tree_at (set_root a v h) p t = tree_at h p t"
  by (rule tree_at_cong; auto simp: heap_simps)+

lemma frames_at_cong:
  assumes "\<And>a. a \<in> fnodes fs \<Longrightarrow> rb_parent_color h' a = rb_parent_color h a \<and>
      rb_left h' a = rb_left h a \<and> rb_right h' a = rb_right h a"
    and "rb_node h' rt = rb_node h rt"
  shows "frames_at h' rt x fs = frames_at h rt x fs"
  using assms
proof (induction h rt x fs rule: frames_at.induct)
  case (2 h rt x c a s fs)
  then have "tree_at h' a s = tree_at h a s" by (intro tree_at_cong) auto
  moreover from 2 have "frames_at h' rt a fs = frames_at h rt a fs" by auto
  ultimately show ?case using "2.prems" by simp
next
  case (3 h rt x s c a fs)
  then have "tree_at h' a s = tree_at h a s" by (intro tree_at_cong) auto
  moreover from 3 have "frames_at h' rt a fs = frames_at h rt a fs" by auto
  ultimately show ?case using "3.prems" by simp
qed simp

lemma frames_at_upd [heap_simps]:
  "a \<notin> fnodes fs \<Longrightarrow> frames_at (set_pc a v h) rt x fs = frames_at h rt x fs"
  "a \<notin> fnodes fs \<Longrightarrow> frames_at (set_left a v h) rt x fs = frames_at h rt x fs"
  "a \<notin> fnodes fs \<Longrightarrow> frames_at (set_right a v h) rt x fs = frames_at h rt x fs"
  by (rule frames_at_cong; auto simp: heap_simps)+

lemma frames_at_aligned: "frames_at h rt x fs \<Longrightarrow> aligned (par fs)"
  by (cases "(h, rt, x, fs)" rule: frames_at.cases) auto

lemma par_in: "fs \<noteq> [] \<Longrightarrow> par fs \<in> fnodes fs"
  by (cases fs rule: par.cases) auto

lemma par_NULL_iff: "frames_at h rt x fs \<Longrightarrow> par fs = NULL \<longleftrightarrow> fs = []"
  by (cases "(h, rt, x, fs)" rule: frames_at.cases) auto

lemma tree_at_plug:
  "tree_at h NULL (plug t fs) \<and> rb_node h rt = rootp (plug t fs) \<longleftrightarrow>
   tree_at h (par fs) t \<and> frames_at h rt (rootp t) fs"
proof (induction fs arbitrary: t)
  case (Cons f fs)
  show ?case
  proof (cases f)
    case (FL c p s)
    then show ?thesis using Cons.IH [of "fill t f"] by auto
  next
    case (FR s c p)
    then show ?thesis using Cons.IH [of "fill t f"] by auto
  qed
qed simp

lemma agree_refl [simp]: "agree S rt h h"
  by (simp add: agree_def)

lemma agree_set:
  "a \<in> S \<Longrightarrow> agree S rt h h' \<Longrightarrow> agree S rt h (set_pc a v h')"
  "a \<in> S \<Longrightarrow> agree S rt h h' \<Longrightarrow> agree S rt h (set_left a v h')"
  "a \<in> S \<Longrightarrow> agree S rt h h' \<Longrightarrow> agree S rt h (set_right a v h')"
  "agree S rt h h' \<Longrightarrow> agree S rt h (set_root rt v h')"
  by (auto simp: agree_def heap_simps)

lemma agree_trans: "agree S rt h h' \<Longrightarrow> agree S rt h' h'' \<Longrightarrow> agree S rt h h''"
  by (auto simp: agree_def)

lemma agree_mono: "agree S rt h h' \<Longrightarrow> S \<subseteq> T \<Longrightarrow> agree T rt h h'"
  by (auto simp: agree_def)

lemma agree_tree: "agree S rt h h' \<Longrightarrow> set (inorder t) \<inter> S = {} \<Longrightarrow> tree_at h' p t = tree_at h p t"
  by (rule tree_at_cong) (auto simp: agree_def)

section \<open>Relinking a child\<close>

definition set_child :: "ptr frame list \<Rightarrow> ptr \<Rightarrow> ptr \<Rightarrow> rb_heap \<Rightarrow> rb_heap" where
  "set_child fs rt v h =
     (case fs of [] \<Rightarrow> set_root rt v h | FL c a s # _ \<Rightarrow> set_left a v h | FR s c a # _ \<Rightarrow> set_right a v h)"

lemma change_child [load_simps]:
  assumes "frames_at h rt old fs" "rt \<noteq> NULL" "old \<noteq> NULL" "old \<notin> fnodes fs"
  shows "uu_rb_change_child old new (par fs) rt h = Some (set_child fs rt new h)"
proof (cases fs rule: par.cases)
  case (3 s c a gs)
  with assms have "rootp s \<noteq> old" by (cases s) auto
  with 3 assms show ?thesis
    by (simp add: uu_rb_change_child_def set_child_def load_simps)
qed (use assms in \<open>auto simp: uu_rb_change_child_def set_child_def load_simps\<close>)

lemma rotate_set_parents [load_simps]:
  assumes "frames_at h rt old fs" "rt \<noteq> NULL" "old \<noteq> NULL" "old \<notin> fnodes fs"
    and "new \<noteq> NULL" "new \<notin> fnodes fs" "new \<noteq> old" "rb_parent_color h old = par fs OR col c"
  shows "uu_rb_rotate_set_parents old new rt k h =
     Some (set_child fs rt new (set_pc old (new OR k) (set_pc new (par fs OR col c) h)))"
proof -
  have "aligned (par fs)" using assms(1) by (rule frames_at_aligned)
  then have "(par fs OR col c) AND NOT 3 = par fs" by (cases c) simp_all
  with assms show ?thesis
    by (simp add: uu_rb_rotate_set_parents_def load_simps heap_simps change_child)
qed

lemma read_set_child [heap_simps]:
  "rb_parent_color (set_child fs rt v h) = rb_parent_color h"
  "b \<notin> fnodes fs \<Longrightarrow> rb_left (set_child fs rt v h) b = rb_left h b"
  "b \<notin> fnodes fs \<Longrightarrow> rb_right (set_child fs rt v h) b = rb_right h b"
  by (cases fs rule: par.cases; auto simp: set_child_def heap_simps)+

lemma tree_at_set_child:
  "set (inorder t) \<inter> fnodes fs = {} \<Longrightarrow> tree_at (set_child fs rt v h) p t = tree_at h p t"
  by (rule tree_at_cong) (simp add: heap_simps disjoint_iff)

lemma frames_at_set_child:
  "\<lbrakk>frames_at h rt x fs; distinct (before fs @ after fs)\<rbrakk> \<Longrightarrow> frames_at (set_child fs rt v h) rt v fs"
  by (cases fs rule: par.cases) (auto simp: set_child_def heap_simps)

lemma set_child_plug:
  assumes "tree_at h (par fs) t" "frames_at h rt x fs" "rootp t = v"
    and "distinct (before fs @ inorder t @ after fs)"
  shows "tree_at (set_child fs rt v h) NULL (plug t fs) \<and>
    rb_node (set_child fs rt v h) rt = rootp (plug t fs)"
proof -
  have "set (inorder t) \<inter> fnodes fs = {}" using assms(4) by auto
  with assms show ?thesis
    using frames_at_set_child [of h rt x fs v]
    by (auto simp: tree_at_plug tree_at_set_child)
qed

lemma agree_set_child:
  "\<lbrakk>agree S rt h h'; fnodes fs \<subseteq> S\<rbrakk> \<Longrightarrow> agree S rt h (set_child fs rt v h')"
  by (cases fs rule: par.cases) (auto simp: set_child_def agree_set)

lemma dummy_rotate_id [load_simps]: "dummy_rotate a b h = h"
  by (simp add: dummy_rotate_def)


lemma color_bit:
  "\<lbrakk>tree_at h p t; aligned p; rootp t \<noteq> NULL\<rbrakk> \<Longrightarrow>
   rb_parent_color h (rootp t) AND 1 = (if color_of t = Red then 0 else 1)"
  by (cases t; cases "color_of t") auto

lemma red_test:
  "\<lbrakk>tree_at h p t; aligned p\<rbrakk> \<Longrightarrow>
   (if rootp t \<noteq> NULL then rb_is_red (rootp t) h else Some False) = Some (color_of t = Red)"
  using color_bit [of h p t] by (cases t) (auto simp: load_simps)

lemma col_mask [simp]: "aligned p \<Longrightarrow> (p OR col c) AND 1 = col c" "aligned p \<Longrightarrow> (p OR col c) AND - 4 = p"
  by (cases c; simp)+

lemma col_or: "col c OR p = p OR col c"
  by (simp add: or.commute)

lemma black_test:
  "\<lbrakk>tree_at h p t; aligned p\<rbrakk> \<Longrightarrow>
   (if rootp t = NULL then Some True else rb_is_black (rootp t) h) = Some (color_of t = Black)"
  using color_bit [of h p t] by (cases t) (auto simp: load_simps)

lemmas rb_consts = RB_RED_def RB_BLACK_def

text \<open>\<open>yields res h rt t\<close>: the computation \<open>res\<close> started in heap \<open>h\<close> returns, leaves the tree
  \<open>t\<close> at root \<open>rt\<close>, and writes to nothing but the nodes of \<open>t\<close> and this root.\<close>

abbreviation rb_holds :: "rb_heap \<Rightarrow> ptr \<Rightarrow> ptr rbt \<Rightarrow> bool" where
  "rb_holds h rt t \<equiv> tree_at h NULL t \<and> rb_node h rt = rootp t"


definition yields :: "rb_heap option \<Rightarrow> rb_heap \<Rightarrow> ptr \<Rightarrow> ptr rbt \<Rightarrow> bool" where
  "yields res h rt t \<longleftrightarrow>
     (\<exists>h'. res = Some h' \<and> rb_holds h' rt t \<and> agree (set (inorder t)) rt h h')"

lemma yields_set_child:
  assumes "res = Some (set_child fs rt v h1)"
    and "tree_at h1 (par fs) t" "frames_at h1 rt y fs" "rootp t = v"
    and "distinct (before fs @ inorder t @ after fs)"
    and "agree (set (inorder (plug t fs))) rt h h1"
  shows "yields res h rt (plug t fs)"
  unfolding yields_def
  using assms set_child_plug [OF assms(2-5)] agree_set_child [OF assms(6), of fs v] by auto

lemma yields_plug:
  assumes "res = Some h1" "tree_at h1 (par fs) t" "frames_at h1 rt (rootp t) fs"
    and "agree (set (inorder (plug t fs))) rt h h1"
  shows "yields res h rt (plug t fs)"
  unfolding yields_def using assms tree_at_plug [of h1 t fs rt] by auto

lemma yields_agree:
  "\<lbrakk>yields res h1 rt t; agree (set (inorder t)) rt h h1\<rbrakk> \<Longrightarrow> yields res h rt t"
  unfolding yields_def by (blast intro: agree_trans)

lemma in_insert_both: "a \<in> insert b A \<longleftrightarrow> a = b \<or> b = a \<or> a \<in> A"
  by auto

lemmas step_simps = load_simps heap_simps rb_consts in_insert_both

lemma rootp_neq: "\<lbrakk>a \<notin> set (inorder t); a \<noteq> NULL\<rbrakk> \<Longrightarrow> a \<noteq> rootp t \<and> rootp t \<noteq> a"
  by (cases t) auto

section \<open>The insertion loop\<close>

lemma insert_rotate_LL:
  assumes t: "tree_at h p (Node l Red x r)"
    and fs: "frames_at h rt x (FL Red p s # FL gc g u # fs)" and rt: "rt \<noteq> NULL"
    and d: "distinct (before fs @ inorder (Node (Node (Node l Red x r) Red p s) gc g u) @ after fs)" and u: "color_of u = Black"
  shows "yields (uu_rb_insert_loop dummy_rotate rt x p h) h rt (plug (Node (Node l Red x r) gc p (Node (paint Black s) Red g u)) fs)"
proof -
  have al: "aligned (par fs)" using fs frames_at_aligned by auto
  have ub: "(if rootp u \<noteq> NULL then rb_is_red (rootp u) h else Some False) = Some False"
    using red_test [of h g u] fs u by simp
  have pu: "p \<noteq> rootp u" using d fs t rootp_neq by auto
  note pre = t fs rt d al
  show ?thesis
  proof (cases s)
    case Leaf
    show ?thesis
      by (rule yields_set_child [where y = g],
        use pre ub pu Leaf in \<open>subst uu_rb_insert_loop.simps,
          simp add: step_simps rotate_set_parents [of _ rt g fs p gc] del: insert_iff\<close>,
        use pre Leaf in \<open>simp_all add: heap_simps agree_set in_insert_both del: insert_iff\<close>)
  next
    case (Node bl bc b br)
    show ?thesis
      by (rule yields_set_child [where y = g],
        use pre ub pu Node in \<open>subst uu_rb_insert_loop.simps,
          simp add: step_simps rotate_set_parents [of _ rt g fs p gc] del: insert_iff\<close>,
        use pre Node in \<open>simp_all add: heap_simps agree_set in_insert_both del: insert_iff\<close>)
  qed
qed

lemma insert_rotate_LR:
  assumes t: "tree_at h p (Node l Red x r)"
    and fs: "frames_at h rt x (FR s Red p # FL gc g u # fs)" and rt: "rt \<noteq> NULL"
    and d: "distinct (before fs @ inorder (Node (Node s Red p (Node l Red x r)) gc g u) @ after fs)" and u: "color_of u = Black"
  shows "yields (uu_rb_insert_loop dummy_rotate rt x p h) h rt (plug (Node (Node s Red p (paint Black l)) gc x (Node (paint Black r) Red g u)) fs)"
proof -
  have al: "aligned (par fs)" using fs frames_at_aligned by auto
  have ub: "(if rootp u \<noteq> NULL then rb_is_red (rootp u) h else Some False) = Some False"
    using red_test [of h g u] fs u by simp
  have pu: "p \<noteq> rootp u" using d fs t rootp_neq by auto
  note pre = t fs rt d al
  show ?thesis
  proof (cases l)
    case Leaf
    note l = this
    show ?thesis
    proof (cases r)
      case Leaf
      show ?thesis
        by (rule yields_set_child [where y = g],
          use pre ub pu l Leaf in \<open>subst uu_rb_insert_loop.simps,
            simp add: step_simps rotate_set_parents [of _ rt g fs x gc] del: insert_iff\<close>,
          use pre l Leaf in \<open>simp_all add: heap_simps agree_set in_insert_both del: insert_iff\<close>)
    next
      case (Node bl bc b br)
      show ?thesis
        by (rule yields_set_child [where y = g],
          use pre ub pu l Node in \<open>subst uu_rb_insert_loop.simps,
            simp add: step_simps rotate_set_parents [of _ rt g fs x gc] del: insert_iff\<close>,
          use pre l Node in \<open>simp_all add: heap_simps agree_set in_insert_both del: insert_iff\<close>)
    qed
  next
    case (Node al ac a ar)
    note l = this
    show ?thesis
    proof (cases r)
      case Leaf
      show ?thesis
        by (rule yields_set_child [where y = g],
          use pre ub pu l Leaf in \<open>subst uu_rb_insert_loop.simps,
            simp add: step_simps rotate_set_parents [of _ rt g fs x gc] del: insert_iff\<close>,
          use pre l Leaf in \<open>simp_all add: heap_simps agree_set in_insert_both del: insert_iff\<close>)
    next
      case (Node bl bc b br)
      show ?thesis
        by (rule yields_set_child [where y = g],
          use pre ub pu l Node in \<open>subst uu_rb_insert_loop.simps,
            simp add: step_simps rotate_set_parents [of _ rt g fs x gc] del: insert_iff\<close>,
          use pre l Node in \<open>simp_all add: heap_simps agree_set in_insert_both del: insert_iff\<close>)
    qed
  qed
qed

lemma insert_rotate_RR:
  assumes t: "tree_at h p (Node l Red x r)"
    and fs: "frames_at h rt x (FR s Red p # FR u gc g # fs)" and rt: "rt \<noteq> NULL"
    and d: "distinct (before fs @ inorder (Node u gc g (Node s Red p (Node l Red x r))) @ after fs)" and u: "color_of u = Black"
  shows "yields (uu_rb_insert_loop dummy_rotate rt x p h) h rt (plug (Node (Node u Red g (paint Black s)) gc p (Node l Red x r)) fs)"
proof -
  have al: "aligned (par fs)" using fs frames_at_aligned by auto
  have ub: "(if rootp u \<noteq> NULL then rb_is_red (rootp u) h else Some False) = Some False"
    using red_test [of h g u] fs u by simp
  have pu: "p \<noteq> rootp u" using d fs t rootp_neq by auto
  note pre = t fs rt d al
  show ?thesis
  proof (cases s)
    case Leaf
    show ?thesis
      by (rule yields_set_child [where y = g],
        use pre ub pu Leaf in \<open>subst uu_rb_insert_loop.simps,
          simp add: step_simps rotate_set_parents [of _ rt g fs p gc] del: insert_iff\<close>,
        use pre Leaf in \<open>simp_all add: heap_simps agree_set in_insert_both del: insert_iff\<close>)
  next
    case (Node bl bc b br)
    show ?thesis
      by (rule yields_set_child [where y = g],
        use pre ub pu Node in \<open>subst uu_rb_insert_loop.simps,
          simp add: step_simps rotate_set_parents [of _ rt g fs p gc] del: insert_iff\<close>,
        use pre Node in \<open>simp_all add: heap_simps agree_set in_insert_both del: insert_iff\<close>)
  qed
qed

lemma insert_rotate_RL:
  assumes t: "tree_at h p (Node l Red x r)"
    and fs: "frames_at h rt x (FL Red p s # FR u gc g # fs)" and rt: "rt \<noteq> NULL"
    and d: "distinct (before fs @ inorder (Node u gc g (Node (Node l Red x r) Red p s)) @ after fs)" and u: "color_of u = Black"
  shows "yields (uu_rb_insert_loop dummy_rotate rt x p h) h rt (plug (Node (Node u Red g (paint Black l)) gc x (Node (paint Black r) Red p s)) fs)"
proof -
  have al: "aligned (par fs)" using fs frames_at_aligned by auto
  have ub: "(if rootp u \<noteq> NULL then rb_is_red (rootp u) h else Some False) = Some False"
    using red_test [of h g u] fs u by simp
  have pu: "p \<noteq> rootp u" using d fs t rootp_neq by auto
  note pre = t fs rt d al
  show ?thesis
  proof (cases l)
    case Leaf
    note l = this
    show ?thesis
    proof (cases r)
      case Leaf
      show ?thesis
        by (rule yields_set_child [where y = g],
          use pre ub pu l Leaf in \<open>subst uu_rb_insert_loop.simps,
            simp add: step_simps rotate_set_parents [of _ rt g fs x gc] del: insert_iff\<close>,
          use pre l Leaf in \<open>simp_all add: heap_simps agree_set in_insert_both del: insert_iff\<close>)
    next
      case (Node bl bc b br)
      show ?thesis
        by (rule yields_set_child [where y = g],
          use pre ub pu l Node in \<open>subst uu_rb_insert_loop.simps,
            simp add: step_simps rotate_set_parents [of _ rt g fs x gc] del: insert_iff\<close>,
          use pre l Node in \<open>simp_all add: heap_simps agree_set in_insert_both del: insert_iff\<close>)
    qed
  next
    case (Node al ac a ar)
    note l = this
    show ?thesis
    proof (cases r)
      case Leaf
      show ?thesis
        by (rule yields_set_child [where y = g],
          use pre ub pu l Leaf in \<open>subst uu_rb_insert_loop.simps,
            simp add: step_simps rotate_set_parents [of _ rt g fs x gc] del: insert_iff\<close>,
          use pre l Leaf in \<open>simp_all add: heap_simps agree_set in_insert_both del: insert_iff\<close>)
    next
      case (Node bl bc b br)
      show ?thesis
        by (rule yields_set_child [where y = g],
          use pre ub pu l Node in \<open>subst uu_rb_insert_loop.simps,
            simp add: step_simps rotate_set_parents [of _ rt g fs x gc] del: insert_iff\<close>,
          use pre l Node in \<open>simp_all add: heap_simps agree_set in_insert_both del: insert_iff\<close>)
    qed
  qed
qed


lemma insert_recolor_L:
  assumes t: "tree_at h p (Node l Red x r)" and f: "f = FL Red p s \<or> f = FR s Red p"
    and fs: "frames_at h rt x (f # FL gc g u # fs)"
    and d: "distinct (before fs @ inorder (Node (fill (Node l Red x r) f) gc g u) @ after fs)"
    and u: "color_of u = Red"
    and rest: "\<And>h1. \<lbrakk>tree_at h1 (par fs) (Node (paint Black (fill (Node l Red x r) f)) Red g (paint Black u)); frames_at h1 rt g fs\<rbrakk>
      \<Longrightarrow> yields (uu_rb_insert_loop dummy_rotate rt g (par fs) h1) h1 rt t'"
    and t': "inorder t' = inorder (plug (Node (paint Black (fill (Node l Red x r) f)) Red g (paint Black u)) fs)"
  shows "yields (uu_rb_insert_loop dummy_rotate rt x p h) h rt t'"
proof -
  have al: "aligned (par fs)" using f fs frames_at_aligned by auto
  then have mask: "(par fs OR col gc) AND - 4 = par fs" by (cases gc) simp_all
  from u obtain ul b ur where un: "u = Node ul Red b ur" by (cases u) auto
  let ?h1 = "set_pc g (par fs) (set_pc p (g OR 1) (set_pc b (g OR 1) h))"
  note pre = t fs d al mask un
  from f have step: "uu_rb_insert_loop dummy_rotate rt x p h = uu_rb_insert_loop dummy_rotate rt g (par fs) ?h1"
    by (subst uu_rb_insert_loop.simps, elim disjE)
      (use pre in \<open>simp_all add: step_simps del: insert_iff\<close>)
  from f have "tree_at ?h1 (par fs) (Node (paint Black (fill (Node l Red x r) f)) Red g (paint Black u))"
    by (elim disjE) (use pre in \<open>simp_all add: step_simps del: insert_iff\<close>)
  moreover from f have "frames_at ?h1 rt g fs"
    by (elim disjE) (use pre in \<open>simp_all add: step_simps del: insert_iff\<close>)
  ultimately have "yields (uu_rb_insert_loop dummy_rotate rt g (par fs) ?h1) ?h1 rt t'" by (rule rest)
  moreover from f un t' have "agree (set (inorder t')) rt h ?h1"
    by (auto intro!: agree_set)
  ultimately show ?thesis unfolding step by (rule yields_agree)
qed

lemma insert_recolor_R:
  assumes t: "tree_at h p (Node l Red x r)" and f: "f = FL Red p s \<or> f = FR s Red p"
    and fs: "frames_at h rt x (f # FR u gc g # fs)"
    and d: "distinct (before fs @ inorder (Node u gc g (fill (Node l Red x r) f)) @ after fs)"
    and u: "color_of u = Red"
    and rest: "\<And>h1. \<lbrakk>tree_at h1 (par fs) (Node (paint Black u) Red g (paint Black (fill (Node l Red x r) f))); frames_at h1 rt g fs\<rbrakk>
      \<Longrightarrow> yields (uu_rb_insert_loop dummy_rotate rt g (par fs) h1) h1 rt t'"
    and t': "inorder t' = inorder (plug (Node (paint Black u) Red g (paint Black (fill (Node l Red x r) f))) fs)"
  shows "yields (uu_rb_insert_loop dummy_rotate rt x p h) h rt t'"
proof -
  have al: "aligned (par fs)" using f fs frames_at_aligned by auto
  then have mask: "(par fs OR col gc) AND - 4 = par fs" by (cases gc) simp_all
  from u obtain ul b ur where un: "u = Node ul Red b ur" by (cases u) auto
  let ?h1 = "set_pc g (par fs) (set_pc p (g OR 1) (set_pc b (g OR 1) h))"
  note pre = t fs d al mask un
  from f have step: "uu_rb_insert_loop dummy_rotate rt x p h = uu_rb_insert_loop dummy_rotate rt g (par fs) ?h1"
    by (subst uu_rb_insert_loop.simps, elim disjE)
      (use pre in \<open>simp_all add: step_simps del: insert_iff\<close>)
  from f have "tree_at ?h1 (par fs) (Node (paint Black u) Red g (paint Black (fill (Node l Red x r) f)))"
    by (elim disjE) (use pre in \<open>simp_all add: step_simps del: insert_iff\<close>)
  moreover from f have "frames_at ?h1 rt g fs"
    by (elim disjE) (use pre in \<open>simp_all add: step_simps del: insert_iff\<close>)
  ultimately have "yields (uu_rb_insert_loop dummy_rotate rt g (par fs) ?h1) ?h1 rt t'" by (rule rest)
  moreover from f un t' have "agree (set (inorder t')) rt h ?h1"
    by (auto intro!: agree_set)
  ultimately show ?thesis unfolding step by (rule yields_agree)
qed

theorem insert_loop_refines:
  assumes "ins_fix l x r fs = Some t" "tree_at h (par fs) (Node l Red x r)" "frames_at h rt x fs"
    and "distinct (before fs @ inorder (Node l Red x r) @ after fs)" "rt \<noteq> NULL"
  shows "yields (uu_rb_insert_loop dummy_rotate rt x (par fs) h) h rt t"
  using assms
proof (induction l x r fs arbitrary: h rule: ins_fix.induct)
  case (1 l x r)
  from "1.prems"(2-) have "yields (uu_rb_insert_loop dummy_rotate rt x NULL h) h rt (plug (Node l Black x r) [])"
    by (intro yields_plug [where ?h1.0 = "set_pc x 1 h"])
      (simp_all add: uu_rb_insert_loop.simps [of _ _ _ NULL] step_simps agree_set del: insert_iff)
  with 1 show ?case by simp
next
  case (2 l x r p s fs)
  from "2.prems"(2-) have "yields (uu_rb_insert_loop dummy_rotate rt x p h) h rt
      (plug (Node l Red x r) (FL Black p s # fs))"
    by (intro yields_plug [where ?h1.0 = h])
      (simp_all add: uu_rb_insert_loop.simps [of _ _ _ p] step_simps frames_at_aligned del: insert_iff plug.simps)
  with 2 show ?case by simp
next
  case (3 l x r s p fs)
  from "3.prems"(2-) have "yields (uu_rb_insert_loop dummy_rotate rt x p h) h rt
      (plug (Node l Red x r) (FR s Black p # fs))"
    by (intro yields_plug [where ?h1.0 = h])
      (simp_all add: uu_rb_insert_loop.simps [of _ _ _ p] step_simps frames_at_aligned del: insert_iff plug.simps)
  with 3 show ?case by simp
next
  case (6 l x r p s gc g u fs)
  show ?case
  proof (cases "color_of u")
    case Red
    from "6.prems"(1) Red have t: "ins_fix (Node (Node l Red x r) Black p s) g (paint Black u) fs = Some t" by simp
    have "yields (uu_rb_insert_loop dummy_rotate rt x p h) h rt t"
      by (rule insert_recolor_L [of h p l x r "FL Red p s" s rt gc g u fs])
        (use "6.prems" Red "6.IH" [OF Red t] ins_fix_inorder [OF t] in simp_all)
    then show ?thesis by simp
  next
    case Black
    from "6.prems"(1) Black have t: "t = plug (Node (Node l Red x r) gc p (Node (paint Black s) Red g u)) fs" by simp
    have "yields (uu_rb_insert_loop dummy_rotate rt x p h) h rt t"
      unfolding t by (rule insert_rotate_LL) (use "6.prems" Black in simp_all)
    then show ?thesis by simp
  qed
next
  case (7 l x r s p gc g u fs)
  show ?case
  proof (cases "color_of u")
    case Red
    from "7.prems"(1) Red have t: "ins_fix (Node s Black p (Node l Red x r)) g (paint Black u) fs = Some t" by simp
    have "yields (uu_rb_insert_loop dummy_rotate rt x p h) h rt t"
      by (rule insert_recolor_L [of h p l x r "FR s Red p" s rt gc g u fs])
        (use "7.prems" Red "7.IH" [OF Red t] ins_fix_inorder [OF t] in simp_all)
    then show ?thesis by simp
  next
    case Black
    from "7.prems"(1) Black have t: "t = plug (Node (Node s Red p (paint Black l)) gc x (Node (paint Black r) Red g u)) fs" by simp
    have "yields (uu_rb_insert_loop dummy_rotate rt x p h) h rt t"
      unfolding t by (rule insert_rotate_LR) (use "7.prems" Black in simp_all)
    then show ?thesis by simp
  qed
next
  case (8 l x r s p u gc g fs)
  show ?case
  proof (cases "color_of u")
    case Red
    from "8.prems"(1) Red have t: "ins_fix (paint Black u) g (Node s Black p (Node l Red x r)) fs = Some t" by simp
    have "yields (uu_rb_insert_loop dummy_rotate rt x p h) h rt t"
      by (rule insert_recolor_R [of h p l x r "FR s Red p" s rt u gc g fs])
        (use "8.prems" Red "8.IH" [OF Red t] ins_fix_inorder [OF t] in simp_all)
    then show ?thesis by simp
  next
    case Black
    from "8.prems"(1) Black have t: "t = plug (Node (Node u Red g (paint Black s)) gc p (Node l Red x r)) fs" by simp
    have "yields (uu_rb_insert_loop dummy_rotate rt x p h) h rt t"
      unfolding t by (rule insert_rotate_RR) (use "8.prems" Black in simp_all)
    then show ?thesis by simp
  qed
next
  case (9 l x r p s u gc g fs)
  show ?case
  proof (cases "color_of u")
    case Red
    from "9.prems"(1) Red have t: "ins_fix (paint Black u) g (Node (Node l Red x r) Black p s) fs = Some t" by simp
    have "yields (uu_rb_insert_loop dummy_rotate rt x p h) h rt t"
      by (rule insert_recolor_R [of h p l x r "FL Red p s" s rt u gc g fs])
        (use "9.prems" Red "9.IH" [OF Red t] ins_fix_inorder [OF t] in simp_all)
    then show ?thesis by simp
  next
    case Black
    from "9.prems"(1) Black have t: "t = plug (Node (Node u Red g (paint Black l)) gc x (Node (paint Black r) Red p s)) fs" by simp
    have "yields (uu_rb_insert_loop dummy_rotate rt x p h) h rt t"
      unfolding t by (rule insert_rotate_RL) (use "9.prems" Black in simp_all)
    then show ?thesis by simp
  qed
qed simp_all
section \<open>Linking and inserting a node\<close>

text \<open>The \<^verbatim>\<open>struct rb_node **\<close> that a search loop holds at a position.\<close>

fun link_of :: "ptr \<Rightarrow> ptr frame list \<Rightarrow> rb_link" where
  "link_of rt [] = LinkRoot rt"
| "link_of rt (FL c a s # fs) = LinkLeft a"
| "link_of rt (FR s c a # fs) = LinkRight a"

lemma st_link_child:
  "\<lbrakk>frames_at h rt x fs; rt \<noteq> NULL\<rbrakk> \<Longrightarrow> st_link (link_of rt fs) v h = Some (set_child fs rt v h)"
  by (cases "(rt, fs)" rule: link_of.cases) (auto simp: st_link_def set_child_def load_simps)

theorem rb_link_node_at:
  assumes fs: "frames_at h rt NULL fs" and rt: "rt \<noteq> NULL" and n: "n \<noteq> NULL" "aligned n" "n \<notin> fnodes fs"
    and d: "distinct (before fs @ after fs)"
  shows "\<exists>h1. rb_link_node n (par fs) (link_of rt fs) h = Some h1 \<and>
     tree_at h1 (par fs) (Node Leaf Red n Leaf) \<and> frames_at h1 rt n fs \<and>
     agree (insert n (fnodes fs)) rt h h1"
proof -
  let ?h = "set_left n NULL (set_right n NULL (set_pc n (par fs) h))"
  have fr: "frames_at ?h rt NULL fs" using fs n by (simp add: heap_simps)
  have "rb_link_node n (par fs) (link_of rt fs) h = Some (set_child fs rt n ?h)"
    using n st_link_child [OF fr rt] by (simp add: rb_link_node_def load_simps)
  moreover have "tree_at (set_child fs rt n ?h) (par fs) (Node Leaf Red n Leaf)"
    using n by (simp add: heap_simps)
  moreover have "frames_at (set_child fs rt n ?h) rt n fs"
    using fr d by (rule frames_at_set_child)
  moreover have "agree (insert n (fnodes fs)) rt h (set_child fs rt n ?h)"
    by (intro agree_set_child agree_set) auto
  ultimately show ?thesis by blast
qed

theorem rb_insert_refines:
  assumes t: "rb_tree_at h rt (plug Leaf fs)" and ok: "rb_ok (plug Leaf fs)"
    and n: "n \<noteq> NULL" "aligned n" "n \<notin> set (inorder (plug Leaf fs))"
  shows "\<exists>h1 h' t'. rb_link_node n (par fs) (link_of rt fs) h = Some h1 \<and>
     rb_insert_color n rt h1 = Some h' \<and> rb_tree_at h' rt t' \<and> rb_ok t' \<and>
     ins_fix Leaf n Leaf fs = Some t' \<and> agree (set (inorder t')) rt h h'"
proof -
  from t have rt: "rt \<noteq> NULL" and d: "distinct (before fs @ after fs)" and fs: "frames_at h rt NULL fs"
    using tree_at_plug [of h Leaf fs rt] by (auto simp: rb_tree_at_def)
  from n have nf: "n \<notin> fnodes fs" by simp
  obtain h1 where link: "rb_link_node n (par fs) (link_of rt fs) h = Some h1"
    and t1: "tree_at h1 (par fs) (Node Leaf Red n Leaf)" and fs1: "frames_at h1 rt n fs"
    and ag1: "agree (insert n (fnodes fs)) rt h h1"
    using rb_link_node_at [OF fs rt n(1,2) nf d] by blast
  obtain t' where t': "ins_fix Leaf n Leaf fs = Some t'" and ok': "rb_ok t'"
    using ins_fix_ok [of Leaf Leaf fs n] ok by (auto simp: rb_ok_plug)
  have io: "inorder t' = before fs @ n # after fs"
    using ins_fix_inorder [OF t'] by simp
  have dn: "distinct (before fs @ inorder (Node Leaf Red n Leaf) @ after fs)"
    using d nf by simp
  have "yields (uu_rb_insert_loop dummy_rotate rt n (par fs) h1) h1 rt t'"
    using t' t1 fs1 dn rt by (rule insert_loop_refines)
  then obtain h' where h': "uu_rb_insert_loop dummy_rotate rt n (par fs) h1 = Some h'"
    and r: "rb_holds h' rt t'" and ag: "agree (set (inorder t')) rt h1 h'"
    unfolding yields_def by blast
  have "rb_insert_color n rt h1 = Some h'"
    using h' t1 by (simp add: rb_insert_color_def uu_rb_insert_def load_simps)
  moreover have "rb_tree_at h' rt t'"
    using r rt io d nf by (simp add: rb_tree_at_def)
  moreover have "agree (set (inorder t')) rt h h'"
    using agree_trans [OF agree_mono [OF ag1] ag] io by auto
  ultimately show ?thesis using link ok' t' by blast
qed
end
