(* ===== verification/Rbtree_Erase.thy ===== *)
theory Rbtree_Erase
  imports Rbtree_Refine
begin

text \<open>
  The removal half of the refinement: \<^verbatim>\<open>____rb_erase_color\<close>, \<^verbatim>\<open>__rb_erase_augmented\<close> and
  \<^verbatim>\<open>rb_erase\<close> compute \<open>del_fix\<close> and \<open>erase_at\<close>. One lemma per case of the C
  comments (1 red sibling, 2 recolouring, 3 inner red nephew, 4 outer red nephew), left and right.
\<close>

section \<open>The removal loop\<close>

lemma erase_case2_left:
  assumes t: "tree_at h p t" and fs: "frames_at h rt (rootp t) (FL c p (Node sl Black sx sr) # fs)" and rt: "rt \<noteq> NULL"
    and d: "distinct (before fs @ inorder (Node t c p (Node sl Black sx sr)) @ after fs)"
    and bl: "color_of sl = Black" "color_of sr = Black"
  shows "c = Red \<Longrightarrow> yields (uuuu_rb_erase_color_loop dummy_rotate rt (rootp t) p h) h rt
        (plug (Node t Black p (Node sl Red sx sr)) fs)"
    and "c = Black \<Longrightarrow> uuuu_rb_erase_color_loop dummy_rotate rt (rootp t) p h =
        (if fs = [] then Some (set_pc sx p h) else uuuu_rb_erase_color_loop dummy_rotate rt p (par fs) (set_pc sx p h))"
    and "c = Black \<Longrightarrow> tree_at (set_pc sx p h) (par fs) (Node t Black p (Node sl Red sx sr)) \<and>
        frames_at (set_pc sx p h) rt p fs"
proof -
  have al: "aligned (par fs)" using fs frames_at_aligned by auto
  have nt: "rootp t \<noteq> sx" "sx \<noteq> rootp t" using d fs t by (cases t; auto)+
  have ft: "(if rootp sr = NULL then Some True else rb_is_black (rootp sr) h) = Some (color_of sr = Black)"
    and nt2: "(if rootp sl = NULL then Some True else rb_is_black (rootp sl) h) = Some (color_of sl = Black)"
    using black_test [of h sx] fs by auto
  note pre = t fs rt d al nt ft nt2
  have pn: "par fs = NULL \<longleftrightarrow> fs = []" using fs par_NULL_iff by auto
  show "c = Red \<Longrightarrow> yields (uuuu_rb_erase_color_loop dummy_rotate rt (rootp t) p h) h rt
        (plug (Node t Black p (Node sl Red sx sr)) fs)"
    by (rule yields_plug [where ?h1.0 = "set_pc p (par fs OR 1) (set_pc sx p h)"],
        use pre bl in \<open>subst uuuu_rb_erase_color_loop.simps, simp add: step_simps del: insert_iff cong: if_cong\<close>,
        use pre in \<open>simp_all add: heap_simps agree_set in_insert_both del: insert_iff\<close>)
  show "c = Black \<Longrightarrow> uuuu_rb_erase_color_loop dummy_rotate rt (rootp t) p h =
        (if fs = [] then Some (set_pc sx p h) else uuuu_rb_erase_color_loop dummy_rotate rt p (par fs) (set_pc sx p h))"
    by (use pre bl pn in \<open>subst uuuu_rb_erase_color_loop.simps, simp add: step_simps del: insert_iff cong: if_cong\<close>)
  show "c = Black \<Longrightarrow> tree_at (set_pc sx p h) (par fs) (Node t Black p (Node sl Red sx sr)) \<and>
        frames_at (set_pc sx p h) rt p fs"
    by (use pre in \<open>simp add: heap_simps in_insert_both del: insert_iff\<close>)
qed

lemma erase_case2_right:
  assumes t: "tree_at h p t" and fs: "frames_at h rt (rootp t) (FR (Node sl Black sx sr) c p # fs)" and rt: "rt \<noteq> NULL"
    and d: "distinct (before fs @ inorder (Node (Node sl Black sx sr) c p t) @ after fs)"
    and bl: "color_of sl = Black" "color_of sr = Black"
  shows "c = Red \<Longrightarrow> yields (uuuu_rb_erase_color_loop dummy_rotate rt (rootp t) p h) h rt
        (plug (Node (Node sl Red sx sr) Black p t) fs)"
    and "c = Black \<Longrightarrow> uuuu_rb_erase_color_loop dummy_rotate rt (rootp t) p h =
        (if fs = [] then Some (set_pc sx p h) else uuuu_rb_erase_color_loop dummy_rotate rt p (par fs) (set_pc sx p h))"
    and "c = Black \<Longrightarrow> tree_at (set_pc sx p h) (par fs) (Node (Node sl Red sx sr) Black p t) \<and>
        frames_at (set_pc sx p h) rt p fs"
proof -
  have al: "aligned (par fs)" using fs frames_at_aligned by auto
  have nt: "rootp t \<noteq> sx" "sx \<noteq> rootp t" using d fs t by (cases t; auto)+
  have ft: "(if rootp sl = NULL then Some True else rb_is_black (rootp sl) h) = Some (color_of sl = Black)"
    and nt2: "(if rootp sr = NULL then Some True else rb_is_black (rootp sr) h) = Some (color_of sr = Black)"
    using black_test [of h sx] fs by auto
  note pre = t fs rt d al nt ft nt2
  have pn: "par fs = NULL \<longleftrightarrow> fs = []" using fs par_NULL_iff by auto
  show "c = Red \<Longrightarrow> yields (uuuu_rb_erase_color_loop dummy_rotate rt (rootp t) p h) h rt
        (plug (Node (Node sl Red sx sr) Black p t) fs)"
    by (rule yields_plug [where ?h1.0 = "set_pc p (par fs OR 1) (set_pc sx p h)"],
        use pre bl in \<open>subst uuuu_rb_erase_color_loop.simps, simp add: step_simps del: insert_iff cong: if_cong\<close>,
        use pre in \<open>simp_all add: heap_simps agree_set in_insert_both del: insert_iff\<close>)
  show "c = Black \<Longrightarrow> uuuu_rb_erase_color_loop dummy_rotate rt (rootp t) p h =
        (if fs = [] then Some (set_pc sx p h) else uuuu_rb_erase_color_loop dummy_rotate rt p (par fs) (set_pc sx p h))"
    by (use pre bl pn in \<open>subst uuuu_rb_erase_color_loop.simps, simp add: step_simps del: insert_iff cong: if_cong\<close>)
  show "c = Black \<Longrightarrow> tree_at (set_pc sx p h) (par fs) (Node (Node sl Red sx sr) Black p t) \<and>
        frames_at (set_pc sx p h) rt p fs"
    by (use pre in \<open>simp add: heap_simps in_insert_both del: insert_iff\<close>)
qed

lemma erase_case4_left:
  assumes t: "tree_at h p t" and fs: "frames_at h rt (rootp t) (FL c p (Node sl Black sx sr) # fs)" and rt: "rt \<noteq> NULL"
    and d: "distinct (before fs @ inorder (Node t c p (Node sl Black sx sr)) @ after fs)"
    and red: "color_of sr = Red"
  shows "yields (uuuu_rb_erase_color_loop dummy_rotate rt (rootp t) p h) h rt (plug (Node (Node t Black p sl) c sx (paint Black sr)) fs)"
proof -
  have al: "aligned (par fs)" using fs frames_at_aligned by auto
  have nt: "rootp t \<noteq> sx" "sx \<noteq> rootp t" using d fs t by (cases t; auto)+
  from red obtain fl fx fr where sr: "sr = Node fl Red fx fr" by (cases sr) auto
  note pre = t fs rt d al nt sr
  show ?thesis
  proof (cases sl)
    case Leaf
    show ?thesis
      by (rule yields_set_child [where y = p],
        use pre Leaf in \<open>subst uuuu_rb_erase_color_loop.simps, simp add: step_simps col_or
          erase_color_case4_left_def rotate_set_parents [of _ rt p fs sx c] del: insert_iff cong: if_cong\<close>,
        use pre Leaf in \<open>simp_all add: heap_simps agree_set in_insert_both del: insert_iff\<close>)
  next
    case (Node nl nc nx nr)
    show ?thesis
      by (rule yields_set_child [where y = p],
        use pre Node in \<open>subst uuuu_rb_erase_color_loop.simps, simp add: step_simps col_or
          erase_color_case4_left_def rotate_set_parents [of _ rt p fs sx c] del: insert_iff cong: if_cong\<close>,
        use pre Node in \<open>simp_all add: heap_simps agree_set in_insert_both del: insert_iff\<close>)
  qed
qed

lemma erase_case3_left:
  assumes t: "tree_at h p t" and fs: "frames_at h rt (rootp t) (FL c p (Node sl Black sx sr) # fs)" and rt: "rt \<noteq> NULL"
    and d: "distinct (before fs @ inorder (Node t c p (Node sl Black sx sr)) @ after fs)"
    and bl: "color_of sr = Black" and sl: "sl = Node nl Red nx nr"
  shows "yields (uuuu_rb_erase_color_loop dummy_rotate rt (rootp t) p h) h rt
     (plug (Node (Node t Black p nl) c nx (Node (paint Black nr) Black sx sr)) fs)"
proof -
  have al: "aligned (par fs)" using fs frames_at_aligned by auto
  have nt: "rootp t \<noteq> sx" "sx \<noteq> rootp t" using d fs t by (cases t; auto)+
  have ft: "(if rootp sr = NULL then Some True else rb_is_black (rootp sr) h) = Some True"
    using black_test [of h sx sr] fs bl by auto
  note pre = t fs rt d al nt ft bl sl
  show ?thesis
  proof (cases nl)
    case Leaf
    note nl = this
    show ?thesis
    proof (cases nr)
      case Leaf
      show ?thesis
        by (rule yields_set_child [where y = p],
          use pre nl Leaf in \<open>subst uuuu_rb_erase_color_loop.simps, simp add: step_simps col_or
            erase_color_case4_left_def rotate_set_parents [of _ rt p fs nx c] del: insert_iff cong: if_cong\<close>,
          use pre nl Leaf in \<open>simp_all add: heap_simps agree_set in_insert_both del: insert_iff\<close>)
    next
      case (Node bl bc b br)
      show ?thesis
        by (rule yields_set_child [where y = p],
          use pre nl Node in \<open>subst uuuu_rb_erase_color_loop.simps, simp add: step_simps col_or
            erase_color_case4_left_def rotate_set_parents [of _ rt p fs nx c] del: insert_iff cong: if_cong\<close>,
          use pre nl Node in \<open>simp_all add: heap_simps agree_set in_insert_both del: insert_iff\<close>)
    qed
  next
    case (Node al ac a ar)
    note nl = this
    show ?thesis
    proof (cases nr)
      case Leaf
      show ?thesis
        by (rule yields_set_child [where y = p],
          use pre nl Leaf in \<open>subst uuuu_rb_erase_color_loop.simps, simp add: step_simps col_or
            erase_color_case4_left_def rotate_set_parents [of _ rt p fs nx c] del: insert_iff cong: if_cong\<close>,
          use pre nl Leaf in \<open>simp_all add: heap_simps agree_set in_insert_both del: insert_iff\<close>)
    next
      case (Node bl bc b br)
      show ?thesis
        by (rule yields_set_child [where y = p],
          use pre nl Node in \<open>subst uuuu_rb_erase_color_loop.simps, simp add: step_simps col_or
            erase_color_case4_left_def rotate_set_parents [of _ rt p fs nx c] del: insert_iff cong: if_cong\<close>,
          use pre nl Node in \<open>simp_all add: heap_simps agree_set in_insert_both del: insert_iff\<close>)
    qed
  qed
qed

lemma erase_case4_right:
  assumes t: "tree_at h p t" and fs: "frames_at h rt (rootp t) (FR (Node sl Black sx sr) c p # fs)" and rt: "rt \<noteq> NULL"
    and d: "distinct (before fs @ inorder (Node (Node sl Black sx sr) c p t) @ after fs)"
    and red: "color_of sl = Red"
  shows "yields (uuuu_rb_erase_color_loop dummy_rotate rt (rootp t) p h) h rt (plug (Node (paint Black sl) c sx (Node sr Black p t)) fs)"
proof -
  have al: "aligned (par fs)" using fs frames_at_aligned by auto
  have nt: "rootp t \<noteq> sx" "sx \<noteq> rootp t" using d fs t by (cases t; auto)+
  from red obtain fl fx fr where sl: "sl = Node fl Red fx fr" by (cases sl) auto
  note pre = t fs rt d al nt sl
  show ?thesis
  proof (cases sr)
    case Leaf
    show ?thesis
      by (rule yields_set_child [where y = p],
        use pre Leaf in \<open>subst uuuu_rb_erase_color_loop.simps, simp add: step_simps col_or
          erase_color_case4_right_def rotate_set_parents [of _ rt p fs sx c] del: insert_iff cong: if_cong\<close>,
        use pre Leaf in \<open>simp_all add: heap_simps agree_set in_insert_both del: insert_iff\<close>)
  next
    case (Node nl nc nx nr)
    show ?thesis
      by (rule yields_set_child [where y = p],
        use pre Node in \<open>subst uuuu_rb_erase_color_loop.simps, simp add: step_simps col_or
          erase_color_case4_right_def rotate_set_parents [of _ rt p fs sx c] del: insert_iff cong: if_cong\<close>,
        use pre Node in \<open>simp_all add: heap_simps agree_set in_insert_both del: insert_iff\<close>)
  qed
qed

lemma erase_case3_right:
  assumes t: "tree_at h p t" and fs: "frames_at h rt (rootp t) (FR (Node sl Black sx sr) c p # fs)" and rt: "rt \<noteq> NULL"
    and d: "distinct (before fs @ inorder (Node (Node sl Black sx sr) c p t) @ after fs)"
    and bl: "color_of sl = Black" and sr: "sr = Node nl Red nx nr"
  shows "yields (uuuu_rb_erase_color_loop dummy_rotate rt (rootp t) p h) h rt
     (plug (Node (Node sl Black sx (paint Black nl)) c nx (Node nr Black p t)) fs)"
proof -
  have al: "aligned (par fs)" using fs frames_at_aligned by auto
  have nt: "rootp t \<noteq> sx" "sx \<noteq> rootp t" using d fs t by (cases t; auto)+
  have ft: "(if rootp sl = NULL then Some True else rb_is_black (rootp sl) h) = Some True"
    using black_test [of h sx sl] fs bl by auto
  note pre = t fs rt d al nt ft bl sr
  show ?thesis
  proof (cases nr)
    case Leaf
    note nr = this
    show ?thesis
    proof (cases nl)
      case Leaf
      show ?thesis
        by (rule yields_set_child [where y = p],
          use pre nr Leaf in \<open>subst uuuu_rb_erase_color_loop.simps, simp add: step_simps col_or
            erase_color_case4_right_def rotate_set_parents [of _ rt p fs nx c] del: insert_iff cong: if_cong\<close>,
          use pre nr Leaf in \<open>simp_all add: heap_simps agree_set in_insert_both del: insert_iff\<close>)
    next
      case (Node bl bc b br)
      show ?thesis
        by (rule yields_set_child [where y = p],
          use pre nr Node in \<open>subst uuuu_rb_erase_color_loop.simps, simp add: step_simps col_or
            erase_color_case4_right_def rotate_set_parents [of _ rt p fs nx c] del: insert_iff cong: if_cong\<close>,
          use pre nr Node in \<open>simp_all add: heap_simps agree_set in_insert_both del: insert_iff\<close>)
    qed
  next
    case (Node al ac a ar)
    note nr = this
    show ?thesis
    proof (cases nl)
      case Leaf
      show ?thesis
        by (rule yields_set_child [where y = p],
          use pre nr Leaf in \<open>subst uuuu_rb_erase_color_loop.simps, simp add: step_simps col_or
            erase_color_case4_right_def rotate_set_parents [of _ rt p fs nx c] del: insert_iff cong: if_cong\<close>,
          use pre nr Leaf in \<open>simp_all add: heap_simps agree_set in_insert_both del: insert_iff\<close>)
    next
      case (Node bl bc b br)
      show ?thesis
        by (rule yields_set_child [where y = p],
          use pre nr Node in \<open>subst uuuu_rb_erase_color_loop.simps, simp add: step_simps col_or
            erase_color_case4_right_def rotate_set_parents [of _ rt p fs nx c] del: insert_iff cong: if_cong\<close>,
          use pre nr Node in \<open>simp_all add: heap_simps agree_set in_insert_both del: insert_iff\<close>)
    qed
  qed
qed

lemma erase_case1_left:
  assumes t: "tree_at h p t" and fs: "frames_at h rt (rootp t) (FL c p (Node (Node kl d k kr) Red sx sr) # fs)" and rt: "rt \<noteq> NULL"
    and d: "distinct (before fs @ inorder (Node t c p (Node (Node kl d k kr) Red sx sr)) @ after fs)"
  defines "h1 \<equiv> set_child fs rt sx (set_pc p sx (set_pc sx (par fs OR col c) (set_pc k (p OR 1)
      (set_left sx p (set_right p k h)))))"
  shows "uuuu_rb_erase_color_loop dummy_rotate rt (rootp t) p h = uuuu_rb_erase_color_loop dummy_rotate rt (rootp t) p h1"
    and "tree_at h1 p t" "frames_at h1 rt (rootp t) (FL Red p (Node kl Black k kr) # FL c sx sr # fs)"
    and "agree (set (inorder (plug (Node t c p (Node (Node kl d k kr) Red sx sr)) fs))) rt h h1"
proof -
  have al: "aligned (par fs)" using fs frames_at_aligned by auto
  have nt: "rootp t \<noteq> sx" "sx \<noteq> rootp t" "rootp t \<noteq> k" "k \<noteq> rootp t" using d fs t by (cases t; auto)+
  note pre = t fs rt d al nt
  show "uuuu_rb_erase_color_loop dummy_rotate rt (rootp t) p h = uuuu_rb_erase_color_loop dummy_rotate rt (rootp t) p h1"
    unfolding h1_def
    by (subst (1 2) uuuu_rb_erase_color_loop.simps)
      (use pre in \<open>simp add: step_simps rotate_set_parents [of _ rt p fs sx c] del: insert_iff\<close>)
  have "tree_at (set_child fs rt sx h2) p t \<longleftrightarrow> tree_at h2 p t" for h2
    using d by (intro tree_at_set_child) auto
  then show "tree_at h1 p t"
    unfolding h1_def using pre by (simp add: heap_simps in_insert_both del: insert_iff)
  show "agree (set (inorder (plug (Node t c p (Node (Node kl d k kr) Red sx sr)) fs))) rt h h1"
    unfolding h1_def by (intro agree_set_child agree_set) auto
  show "frames_at h1 rt (rootp t) (FL Red p (Node kl Black k kr) # FL c sx sr # fs)"
  proof -
    have "set (inorder kl) \<inter> fnodes fs = {}" "set (inorder kr) \<inter> fnodes fs = {}"
      "set (inorder sr) \<inter> fnodes fs = {}"
      using d by auto
    moreover have df: "distinct (before fs @ after fs)"
      using d by auto
    moreover have "frames_at h1 rt sx fs"
      unfolding h1_def by (rule frames_at_set_child [where x = p, OF _ df])
        (use pre in \<open>simp_all add: heap_simps in_insert_both del: insert_iff\<close>)
    ultimately show ?thesis using pre unfolding h1_def
      by (simp add: heap_simps tree_at_set_child in_insert_both del: insert_iff)
  qed
qed

lemma erase_case1_right:
  assumes t: "tree_at h p t" and fs: "frames_at h rt (rootp t) (FR (Node sl Red sx (Node kl d k kr)) c p # fs)" and rt: "rt \<noteq> NULL"
    and d: "distinct (before fs @ inorder (Node (Node sl Red sx (Node kl d k kr)) c p t) @ after fs)"
  defines "h1 \<equiv> set_child fs rt sx (set_pc p sx (set_pc sx (par fs OR col c) (set_pc k (p OR 1)
      (set_right sx p (set_left p k h)))))"
  shows "uuuu_rb_erase_color_loop dummy_rotate rt (rootp t) p h = uuuu_rb_erase_color_loop dummy_rotate rt (rootp t) p h1"
    and "tree_at h1 p t" "frames_at h1 rt (rootp t) (FR (Node kl Black k kr) Red p # FR sl c sx # fs)"
    and "agree (set (inorder (plug (Node (Node sl Red sx (Node kl d k kr)) c p t) fs))) rt h h1"
proof -
  have al: "aligned (par fs)" using fs frames_at_aligned by auto
  have nt: "rootp t \<noteq> sx" "sx \<noteq> rootp t" "rootp t \<noteq> k" "k \<noteq> rootp t" using d fs t by (cases t; auto)+
  note pre = t fs rt d al nt
  show "uuuu_rb_erase_color_loop dummy_rotate rt (rootp t) p h = uuuu_rb_erase_color_loop dummy_rotate rt (rootp t) p h1"
    unfolding h1_def
    by (subst (1 2) uuuu_rb_erase_color_loop.simps)
      (use pre in \<open>simp add: step_simps rotate_set_parents [of _ rt p fs sx c] del: insert_iff\<close>)
  have "tree_at (set_child fs rt sx h2) p t \<longleftrightarrow> tree_at h2 p t" for h2
    using d by (intro tree_at_set_child) auto
  then show "tree_at h1 p t"
    unfolding h1_def using pre by (simp add: heap_simps in_insert_both del: insert_iff)
  show "agree (set (inorder (plug (Node (Node sl Red sx (Node kl d k kr)) c p t) fs))) rt h h1"
    unfolding h1_def by (intro agree_set_child agree_set) auto
  show "frames_at h1 rt (rootp t) (FR (Node kl Black k kr) Red p # FR sl c sx # fs)"
  proof -
    have "set (inorder kl) \<inter> fnodes fs = {}" "set (inorder kr) \<inter> fnodes fs = {}"
      "set (inorder sl) \<inter> fnodes fs = {}"
      using d by auto
    moreover have df: "distinct (before fs @ after fs)"
      using d by auto
    moreover have "frames_at h1 rt sx fs"
      unfolding h1_def by (rule frames_at_set_child [where x = p, OF _ df])
        (use pre in \<open>simp_all add: heap_simps in_insert_both del: insert_iff\<close>)
    ultimately show ?thesis using pre unfolding h1_def
      by (simp add: heap_simps tree_at_set_child in_insert_both del: insert_iff)
  qed
qed

lemma black_sibling_left:
  assumes t: "tree_at h p t" and fs: "frames_at h rt (rootp t) (FL c p (Node sl Black sx sr) # fs)" and rt: "rt \<noteq> NULL"
    and d: "distinct (before fs @ inorder (Node t c p (Node sl Black sx sr)) @ after fs)"
    and t': "inorder t' = inorder (plug (fst (sib_left t c p sl sx sr)) fs)"
    and halt: "(snd (sib_left t c p sl sx sr) \<longrightarrow> fs = []) \<Longrightarrow> t' = plug (fst (sib_left t c p sl sx sr)) fs"
    and rest: "\<And>h1. \<lbrakk>snd (sib_left t c p sl sx sr); fs \<noteq> []; tree_at h1 (par fs) (fst (sib_left t c p sl sx sr)); frames_at h1 rt p fs\<rbrakk>
      \<Longrightarrow> yields (uuuu_rb_erase_color_loop dummy_rotate rt p (par fs) h1) h1 rt t'"
  shows "yields (uuuu_rb_erase_color_loop dummy_rotate rt (rootp t) p h) h rt t'"
proof (cases "color_of sr")
  case Red
  then have "t' = plug (fst (sib_left t c p sl sx sr)) fs" by (intro halt) (simp add: sib_left.simps)
  with Red show ?thesis using erase_case4_left [OF t fs rt d] by (simp add: sib_left.simps)
next
  case far: Black
  show ?thesis
  proof (cases "color_of sl")
    case Red
    then obtain nl nx nr where n: "sl = Node nl Red nx nr" by (cases sl) auto
    with far have "t' = plug (fst (sib_left t c p sl sx sr)) fs" by (intro halt) (simp add: sib_left.simps)
    with n far show ?thesis using erase_case3_left [OF t fs rt d] by (simp add: sib_left.simps)
  next
    case near: Black
    have s: "sib_left t c p sl sx sr = (Node t Black p (Node sl Red sx sr), c = Black)"
      using far near by (cases sl) (simp_all add: sib_left.simps)
    note c2 = erase_case2_left [OF t fs rt d]
    show ?thesis
    proof (cases "c = Black \<and> fs \<noteq> []")
      case True
      then have "yields (uuuu_rb_erase_color_loop dummy_rotate rt p (par fs) (set_pc sx p h)) (set_pc sx p h) rt t'"
        using c2(3) far near s by (intro rest) auto
      moreover have "agree (set (inorder t')) rt h (set_pc sx p h)"
        using t' s by (intro agree_set) auto
      ultimately have "yields (uuuu_rb_erase_color_loop dummy_rotate rt p (par fs) (set_pc sx p h)) h rt t'"
        by (rule yields_agree)
      with True show ?thesis using c2(2) far near by simp
    next
      case False
      then have e: "t' = plug (Node t Black p (Node sl Red sx sr)) fs" using halt s by auto
      show ?thesis
      proof (cases c)
        case Red
        then show ?thesis using c2(1) far near e by simp
      next
        case Black
        with False have "fs = []" by simp
        moreover have "agree (set (inorder (plug (Node t Black p (Node sl Red sx sr)) fs))) rt h (set_pc sx p h)"
          by (intro agree_set) auto
        ultimately show ?thesis unfolding e using Black c2(2,3) far near
          by (intro yields_plug [where ?h1.0 = "set_pc sx p h"]) auto
      qed
    qed
  qed
qed

lemma black_sibling_right:
  assumes t: "tree_at h p t" and fs: "frames_at h rt (rootp t) (FR (Node sl Black sx sr) c p # fs)" and rt: "rt \<noteq> NULL"
    and d: "distinct (before fs @ inorder (Node (Node sl Black sx sr) c p t) @ after fs)"
    and t': "inorder t' = inorder (plug (fst (sib_right t c p sl sx sr)) fs)"
    and halt: "(snd (sib_right t c p sl sx sr) \<longrightarrow> fs = []) \<Longrightarrow> t' = plug (fst (sib_right t c p sl sx sr)) fs"
    and rest: "\<And>h1. \<lbrakk>snd (sib_right t c p sl sx sr); fs \<noteq> []; tree_at h1 (par fs) (fst (sib_right t c p sl sx sr)); frames_at h1 rt p fs\<rbrakk>
      \<Longrightarrow> yields (uuuu_rb_erase_color_loop dummy_rotate rt p (par fs) h1) h1 rt t'"
  shows "yields (uuuu_rb_erase_color_loop dummy_rotate rt (rootp t) p h) h rt t'"
proof (cases "color_of sl")
  case Red
  then have "t' = plug (fst (sib_right t c p sl sx sr)) fs" by (intro halt) (simp add: sib_right.simps)
  with Red show ?thesis using erase_case4_right [OF t fs rt d] by (simp add: sib_right.simps)
next
  case far: Black
  show ?thesis
  proof (cases "color_of sr")
    case Red
    then obtain nl nx nr where n: "sr = Node nl Red nx nr" by (cases sr) auto
    with far have "t' = plug (fst (sib_right t c p sl sx sr)) fs" by (intro halt) (simp add: sib_right.simps)
    with n far show ?thesis using erase_case3_right [OF t fs rt d] by (simp add: sib_right.simps)
  next
    case near: Black
    have s: "sib_right t c p sl sx sr = (Node (Node sl Red sx sr) Black p t, c = Black)"
      using far near by (cases sr) (simp_all add: sib_right.simps)
    note c2 = erase_case2_right [OF t fs rt d]
    show ?thesis
    proof (cases "c = Black \<and> fs \<noteq> []")
      case True
      then have "yields (uuuu_rb_erase_color_loop dummy_rotate rt p (par fs) (set_pc sx p h)) (set_pc sx p h) rt t'"
        using c2(3) far near s by (intro rest) auto
      moreover have "agree (set (inorder t')) rt h (set_pc sx p h)"
        using t' s by (intro agree_set) auto
      ultimately have "yields (uuuu_rb_erase_color_loop dummy_rotate rt p (par fs) (set_pc sx p h)) h rt t'"
        by (rule yields_agree)
      with True show ?thesis using c2(2) far near by simp
    next
      case False
      then have e: "t' = plug (Node (Node sl Red sx sr) Black p t) fs" using halt s by auto
      show ?thesis
      proof (cases c)
        case Red
        then show ?thesis using c2(1) far near e by simp
      next
        case Black
        with False have "fs = []" by simp
        moreover have "agree (set (inorder (plug (Node (Node sl Red sx sr) Black p t) fs))) rt h (set_pc sx p h)"
          by (intro agree_set) auto
        ultimately show ?thesis unfolding e using Black c2(2,3) far near
          by (intro yields_plug [where ?h1.0 = "set_pc sx p h"]) auto
      qed
    qed
  qed
qed

lemma rootp_sib [simp]:
  "snd (sib_left t c p sl sx sr) \<Longrightarrow> rootp (fst (sib_left t c p sl sx sr)) = p"
  "snd (sib_right t c p sl sx sr) \<Longrightarrow> rootp (fst (sib_right t c p sl sx sr)) = p"
  by (auto simp: sib_left.simps sib_right.simps split: rbt.splits color.splits if_splits)


lemma red_sibling_left:
  assumes t: "tree_at h p t" and fs: "frames_at h rt (rootp t) (FL c p (Node (Node kl d k kr) Red sx sr) # fs)" and rt: "rt \<noteq> NULL"
    and d: "distinct (before fs @ inorder (Node t c p (Node (Node kl d k kr) Red sx sr)) @ after fs)"
  shows "yields (uuuu_rb_erase_color_loop dummy_rotate rt (rootp t) p h) h rt
    (plug (fst (sib_left t Red p kl k kr)) (FL c sx sr # fs))" (is "yields _ _ _ ?t")
proof -
  note c1 = erase_case1_left [OF t fs rt d]
  have "yields (uuuu_rb_erase_color_loop dummy_rotate rt (rootp t) p h1) h1 rt ?t"
    if "tree_at h1 p t" "frames_at h1 rt (rootp t) (F # FL c sx sr # fs)"
      "F = FL Red p (Node kl Black k kr)" for h1 F
    by (rule black_sibling_left [of h1 p t rt Red kl k kr "FL c sx sr # fs"])
      (use that rt d in \<open>simp_all\<close>)
  from this [OF c1(2,3) refl] show ?thesis
    unfolding c1(1) by (rule yields_agree) (use c1(4) in \<open>simp add: ac_simps Un_commute insert_commute\<close>)
qed

lemma red_sibling_right:
  assumes t: "tree_at h p t" and fs: "frames_at h rt (rootp t) (FR (Node sl Red sx (Node kl d k kr)) c p # fs)" and rt: "rt \<noteq> NULL"
    and d: "distinct (before fs @ inorder (Node (Node sl Red sx (Node kl d k kr)) c p t) @ after fs)"
  shows "yields (uuuu_rb_erase_color_loop dummy_rotate rt (rootp t) p h) h rt
    (plug (fst (sib_right t Red p kl k kr)) (FR sl c sx # fs))" (is "yields _ _ _ ?t")
proof -
  note c1 = erase_case1_right [OF t fs rt d]
  have "yields (uuuu_rb_erase_color_loop dummy_rotate rt (rootp t) p h1) h1 rt ?t"
    if "tree_at h1 p t" "frames_at h1 rt (rootp t) (F # FR sl c sx # fs)"
      "F = FR (Node kl Black k kr) Red p" for h1 F
    by (rule black_sibling_right [of h1 p t rt kl k kr Red "FR sl c sx # fs"])
      (use that rt d in \<open>simp_all\<close>)
  from this [OF c1(2,3) refl] show ?thesis
    unfolding c1(1) by (rule yields_agree) (use c1(4) in \<open>simp add: ac_simps Un_commute insert_commute\<close>)
qed

theorem erase_color_loop_refines:
  assumes "del_fix t fs = Some t'" "fs \<noteq> []" "tree_at h (par fs) t" "frames_at h rt (rootp t) fs"
    and "distinct (before fs @ inorder t @ after fs)" "rt \<noteq> NULL"
  shows "yields (uuuu_rb_erase_color_loop dummy_rotate rt (rootp t) (par fs) h) h rt t'"
  using assms
proof (induction t fs arbitrary: h rule: del_fix.induct)
  case (2 t c p s fs)
  from "2.prems"(1) obtain sl sc sx sr where s: "s = Node sl sc sx sr" by (cases s) auto
  note io = del_fix_inorder [OF "2.prems"(1)]
  show ?case
  proof (cases sc)
    case Red
    with s "2.prems"(1) obtain kl d k kr where sl: "sl = Node kl d k kr" by (cases sl) auto
    with s Red "2.prems" have t': "t' = plug (fst (sib_left t Red p kl k kr)) (FL c sx sr # fs)" by simp
    have "yields (uuuu_rb_erase_color_loop dummy_rotate rt (rootp t) p h) h rt t'"
      unfolding t' by (rule red_sibling_left [where d = d]) (use "2.prems" s sl Red in simp_all)
    then show ?thesis by simp
  next
    case Black
    note e = "2.prems"(1) [unfolded s Black, simplified]
    have "yields (uuuu_rb_erase_color_loop dummy_rotate rt (rootp t) p h) h rt t'"
      by (rule black_sibling_left [of h p t rt c sl sx sr fs])
        (use "2.prems" s Black e io "2.IH" [OF s Black] in \<open>auto split: if_splits\<close>)
    then show ?thesis by simp
  qed
next
  case (3 t s c p fs)
  from "3.prems"(1) obtain sl sc sx sr where s: "s = Node sl sc sx sr" by (cases s) auto
  note io = del_fix_inorder [OF "3.prems"(1)]
  show ?case
  proof (cases sc)
    case Red
    with s "3.prems"(1) obtain kl d k kr where sr: "sr = Node kl d k kr" by (cases sr) auto
    with s Red "3.prems" have t': "t' = plug (fst (sib_right t Red p kl k kr)) (FR sl c sx # fs)" by simp
    have "yields (uuuu_rb_erase_color_loop dummy_rotate rt (rootp t) p h) h rt t'"
      unfolding t' by (rule red_sibling_right [where d = d]) (use "3.prems" s sr Red in simp_all)
    then show ?thesis by simp
  next
    case Black
    note e = "3.prems"(1) [unfolded s Black, simplified]
    have "yields (uuuu_rb_erase_color_loop dummy_rotate rt (rootp t) p h) h rt t'"
      by (rule black_sibling_right [of h p t rt sl sx sr c fs])
        (use "3.prems" s Black e io "3.IH" [OF s Black] in \<open>auto split: if_splits\<close>)
    then show ?thesis by simp
  qed
qed simp_all

end
