(* ===== verification/Rbtree_Unlink.thy ===== *)
theory Rbtree_Unlink
  imports Rbtree_Erase
begin

text \<open>
  \<^verbatim>\<open>__rb_erase_augmented\<close> (the three cases of a node without a left child, without a right child,
  and with both) and \<^verbatim>\<open>rb_erase\<close> as a whole. The final theorem \<open>rb_erase_refines\<close> says that
  the pointer code returns, computes \<open>erase_at\<close>, and writes to no node but those that stay in the
  tree; in particular the fields of the removed node are left as they were.
\<close>

section \<open>Unlinking a node\<close>

text \<open>\<open>seg_at h p v fs\<close>: the frames \<open>fs\<close> form a path in the heap whose outermost node has
  parent \<open>p\<close>, with \<open>v\<close> stored at the innermost position.\<close>

fun seg_at :: "rb_heap \<Rightarrow> ptr \<Rightarrow> ptr \<Rightarrow> ptr frame list \<Rightarrow> bool" where
  "seg_at h p v [] \<longleftrightarrow> True"
| "seg_at h p v (FL c a s # fs) \<longleftrightarrow>
     a \<noteq> NULL \<and> aligned a \<and> rb_parent_color h a = (if fs = [] then p else par fs) OR col c \<and>
     rb_left h a = v \<and> rb_right h a = rootp s \<and> tree_at h a s \<and> seg_at h p a fs"
| "seg_at h p v (FR s c a # fs) \<longleftrightarrow>
     a \<noteq> NULL \<and> aligned a \<and> rb_parent_color h a = (if fs = [] then p else par fs) OR col c \<and>
     rb_right h a = v \<and> rb_left h a = rootp s \<and> tree_at h a s \<and> seg_at h p a fs"

definition topp :: "ptr \<Rightarrow> ptr frame list \<Rightarrow> ptr" where
  "topp v fs = (if fs = [] then v else par [last fs])"

lemma topp_simps [simp]:
  "topp v [] = v" "topp v (FL c a s # fs) = topp a fs" "topp v (FR s c a # fs) = topp a fs"
  by (simp_all add: topp_def)

lemma par_append: "par (fs @ gs) = (if fs = [] then par gs else par fs)"
  by (cases fs rule: par.cases) auto

lemma frames_at_append:
  "frames_at h rt v (fs @ gs) \<longleftrightarrow> seg_at h (par gs) v fs \<and> frames_at h rt (topp v fs) gs"
proof (induction fs arbitrary: v)
  case (Cons f fs)
  then show ?case by (cases f) (auto simp: par_append)
qed simp

lemma seg_at_cong:
  assumes "\<And>a. a \<in> fnodes fs \<Longrightarrow> rb_parent_color h' a = rb_parent_color h a \<and>
      rb_left h' a = rb_left h a \<and> rb_right h' a = rb_right h a"
  shows "seg_at h' p v fs = seg_at h p v fs"
  using assms
proof (induction h p v fs rule: seg_at.induct)
  case (2 h p v c a s fs)
  then have "tree_at h' a s = tree_at h a s" by (intro tree_at_cong) auto
  moreover from 2 have "seg_at h' p a fs = seg_at h p a fs" by auto
  ultimately show ?case using "2.prems" by simp
next
  case (3 h p v s c a fs)
  then have "tree_at h' a s = tree_at h a s" by (intro tree_at_cong) auto
  moreover from 3 have "seg_at h' p a fs = seg_at h p a fs" by auto
  ultimately show ?case using "3.prems" by simp
qed simp

lemma seg_at_upd [heap_simps]:
  "a \<notin> fnodes fs \<Longrightarrow> seg_at (set_pc a v h) p x fs = seg_at h p x fs"
  "a \<notin> fnodes fs \<Longrightarrow> seg_at (set_left a v h) p x fs = seg_at h p x fs"
  "a \<notin> fnodes fs \<Longrightarrow> seg_at (set_right a v h) p x fs = seg_at h p x fs"
  by (rule seg_at_cong; auto simp: heap_simps)+

lemma seg_at_set_child:
  "fnodes fs \<inter> fnodes gs = {} \<Longrightarrow> seg_at (set_child gs rt w h) p x fs = seg_at h p x fs"
  by (rule seg_at_cong) (auto simp: heap_simps disjoint_iff)

lemma erase_successor_min:
  "\<lbrakk>min_split l c a r (FL d q u # gs) = (sc, s, sr, fs'); tree_at h q (Node l c a r)\<rbrakk>
   \<Longrightarrow> erase_successor q a h = Some (par fs', s)"
proof (induction l arbitrary: c a r d q u gs)
  case Leaf
  then show ?case by (subst erase_successor.simps) (auto simp: load_simps)
next
  case (Node ll lc la lr)
  from Node.prems Node.IH(1) [of lc la lr c a r "FL d q u # gs"] show ?case
    by (subst erase_successor.simps) (auto simp: load_simps)
qed

lemma min_split_plug:
  "min_split l c a r fs = (sc, s, sr, fs') \<Longrightarrow> plug (Node Leaf sc s sr) fs' = plug (Node l c a r) fs"
  by (induction l c a r fs rule: min_split.induct) auto

lemma gap_yields:
  assumes "close_gap c t fs = Some t'" "tree_at h1 (par fs) (paint Black t)" "frames_at h1 rt (rootp t) fs"
    and "rb = (if t = Leaf \<and> c = Black then par fs else NULL)"
    and "distinct (before fs @ inorder t @ after fs)" "rt \<noteq> NULL"
  shows "yields (if rb \<noteq> NULL then uuuu_rb_erase_color rb rt dummy_rotate h1 else Some h1) h1 rt t'"
proof (cases "rb = NULL")
  case True
  with assms par_NULL_iff [OF assms(3)] have "t' = plug (paint Black t) fs"
    by (cases t; cases c) (auto simp: close_gap_def split: if_splits)
  moreover have "rootp (paint Black t) = rootp t" by (cases t) auto
  ultimately show ?thesis using True assms by (simp add: yields_plug)
next
  case False
  with assms have "t = Leaf" "c = Black" "rb = par fs" by (auto split: if_splits)
  with assms False par_NULL_iff [OF assms(3)] show ?thesis
    using erase_color_loop_refines [of Leaf fs t' h1 rt]
    by (simp add: close_gap_def uuuu_rb_erase_color_def)
qed

lemmas erase_defs = uu_rb_erase_augmented_def dummy_callbacks_def dummy_copy_def dummy_propagate_def
  uu_rb_parent_def uu_rb_is_black_def uu_rb_color_def Let_def

lemma erase_aug_left_NULL:
  assumes t: "tree_at h (par fs) (Node Leaf c x r)" and fs: "frames_at h rt x fs" and rt: "rt \<noteq> NULL"
    and d: "distinct (before fs @ inorder (Node Leaf c x r) @ after fs)"
  shows "\<exists>h1. uu_rb_erase_augmented x rt dummy_callbacks h =
      Some (if r = Leaf \<and> c = Black then par fs else NULL, h1) \<and>
    tree_at h1 (par fs) (paint c r) \<and> frames_at h1 rt (rootp r) fs \<and>
    agree (fnodes fs \<union> set (inorder r)) rt h h1"
proof -
  have al: "aligned (par fs)" using fs frames_at_aligned by auto
  have df: "distinct (before fs @ after fs)" "set (inorder r) \<inter> fnodes fs = {}" using d by auto
  note pre = t fs rt d al
  show ?thesis
  proof (cases r)
    case Leaf
    have "uu_rb_erase_augmented x rt dummy_callbacks h =
      Some (if c = Black then par fs else NULL, set_child fs rt NULL h)"
      by (use pre Leaf in \<open>cases c; simp add: step_simps erase_defs change_child [of _ rt x fs]\<close>)
    with Leaf show ?thesis using frames_at_set_child [OF fs df(1), of NULL]
      by (auto intro!: agree_set_child)
  next
    case (Node rl rc ra rr)
    have "uu_rb_erase_augmented x rt dummy_callbacks h =
      Some (NULL, set_pc ra (par fs OR col c) (set_child fs rt ra h))"
      by (use pre Node in \<open>simp add: step_simps erase_defs change_child [of _ rt x fs] del: insert_iff\<close>)
    moreover have "frames_at (set_pc ra (par fs OR col c) (set_child fs rt ra h)) rt ra fs"
      using frames_at_set_child [OF fs df(1), of ra] d Node by (simp add: heap_simps)
    moreover have "tree_at (set_pc ra (par fs OR col c) (set_child fs rt ra h)) (par fs) (paint c r)"
      using df d t Node by (simp add: heap_simps tree_at_set_child Int_Un_distrib2)
    moreover have "agree (fnodes fs \<union> set (inorder r)) rt h (set_pc ra (par fs OR col c) (set_child fs rt ra h))"
      using Node by (intro agree_set agree_set_child agree_refl) auto
    ultimately show ?thesis using Node by auto
  qed
qed

lemma erase_aug_right_NULL:
  assumes t: "tree_at h (par fs) (Node (Node ll lc la lr) c x Leaf)" and fs: "frames_at h rt x fs" and rt: "rt \<noteq> NULL"
    and d: "distinct (before fs @ inorder (Node (Node ll lc la lr) c x Leaf) @ after fs)"
  shows "\<exists>h1. uu_rb_erase_augmented x rt dummy_callbacks h = Some (NULL, h1) \<and>
    tree_at h1 (par fs) (Node ll c la lr) \<and> frames_at h1 rt la fs \<and>
    agree (fnodes fs \<union> set (inorder (Node ll lc la lr))) rt h h1"
proof -
  have al: "aligned (par fs)" using fs frames_at_aligned by auto
  have df: "distinct (before fs @ after fs)" "set (inorder ll) \<inter> fnodes fs = {}" "set (inorder lr) \<inter> fnodes fs = {}" "la \<notin> fnodes fs" using d by auto
  note pre = t fs rt d al
  have "uu_rb_erase_augmented x rt dummy_callbacks h =
      Some (NULL, set_child fs rt la (set_pc la (par fs OR col c) h))"
      by (use pre in \<open>simp add: step_simps erase_defs change_child [of _ rt x fs] del: insert_iff\<close>)
  moreover have "frames_at (set_child fs rt la (set_pc la (par fs OR col c) h)) rt la fs"
    by (rule frames_at_set_child [OF _ df(1), of _ _ x]) (use fs df in \<open>simp add: heap_simps\<close>)
  moreover have "tree_at (set_child fs rt la (set_pc la (par fs OR col c) h)) (par fs) (Node ll c la lr)"
      using df d t by (simp add: heap_simps tree_at_set_child)
  moreover have "agree (fnodes fs \<union> set (inorder (Node ll lc la lr))) rt h (set_child fs rt la (set_pc la (par fs OR col c) h))"
      by (intro agree_set agree_set_child agree_refl) auto
  ultimately show ?thesis by blast
qed

text \<open>Case 2 of \<^verbatim>\<open>__rb_erase_augmented\<close>: the successor is the right child itself.\<close>

lemma erase_aug_child:
  assumes t: "tree_at h (par fs) (Node (Node ll lc la lr) c x (Node Leaf sc s sr))"
    and fs: "frames_at h rt x fs" and rt: "rt \<noteq> NULL"
    and d: "distinct (before fs @ inorder (Node (Node ll lc la lr) c x (Node Leaf sc s sr)) @ after fs)"
  shows "\<exists>h1. uu_rb_erase_augmented x rt dummy_callbacks h =
      Some (if sr = Leaf \<and> sc = Black then s else NULL, h1) \<and>
    tree_at h1 s (paint Black sr) \<and> frames_at h1 rt (rootp sr) (FR (Node ll lc la lr) c s # fs) \<and>
    agree (fnodes fs \<union> set (inorder (Node ll lc la lr) @ s # inorder sr)) rt h h1"
proof -
  have al: "aligned (par fs)" using fs frames_at_aligned by auto
  have df: "distinct (before fs @ after fs)" "set (inorder ll) \<inter> fnodes fs = {}"
    "set (inorder lr) \<inter> fnodes fs = {}" "set (inorder sr) \<inter> fnodes fs = {}" using d by auto
  let ?g = "set_child fs rt s (set_pc la (s OR col lc) (set_left s la h))"
  note pre = t fs rt d al
  have fr: "frames_at ?g rt s fs"
    by (rule frames_at_set_child [OF _ df(1), of _ _ x]) (use pre in \<open>simp add: heap_simps\<close>)
  have ag: "agree (fnodes fs \<union> set (inorder (Node ll lc la lr) @ s # inorder sr)) rt h (set_pc s v ?g)" for v
    by (intro agree_set agree_set_child agree_refl) auto
  show ?thesis
  proof (cases sr)
    case Leaf
    have "uu_rb_erase_augmented x rt dummy_callbacks h =
        Some (if sc = Black then s else NULL, set_pc s (par fs OR col c) ?g)"
      by (use pre Leaf in \<open>cases sc; simp add: step_simps erase_defs col_or change_child [of _ rt x fs] del: insert_iff\<close>)
    moreover have "frames_at (set_pc s (par fs OR col c) ?g) rt NULL (FR (Node ll lc la lr) c s # fs)"
      using fr pre df Leaf by (simp add: heap_simps tree_at_set_child in_insert_both del: insert_iff)
    ultimately show ?thesis using ag Leaf by auto
  next
    case (Node rl rc ra rr)
    let ?h = "set_pc ra (s OR 1) (set_pc s (par fs OR col c) ?g)"
    have "uu_rb_erase_augmented x rt dummy_callbacks h = Some (NULL, ?h)"
      by (use pre Node in \<open>simp add: step_simps erase_defs col_or change_child [of _ rt x fs] del: insert_iff\<close>)
    moreover have "frames_at ?h rt ra (FR (Node ll lc la lr) c s # fs)"
      using fr pre df Node by (simp add: heap_simps tree_at_set_child in_insert_both del: insert_iff)
    moreover have "tree_at ?h s (paint Black sr)"
      using pre df Node by (simp add: heap_simps tree_at_set_child Int_Un_distrib2 in_insert_both del: insert_iff)
    moreover have "agree (fnodes fs \<union> set (inorder (Node ll lc la lr) @ s # inorder sr)) rt h ?h"
      using Node by (intro agree_set(1) ag) auto
    ultimately show ?thesis using Node by auto
  qed
qed

text \<open>Case 3: the successor \<open>s\<close> is deeper; \<open>inner\<close> is the path from it up to the left
  child of \<open>ra\<close>, the right child of the removed node.\<close>

lemma erase_aug_deep:
  assumes x: "tree_at h (par fs) (Node (Node ll lc la lr) c x R)" "rootp R = ra"
    and fs: "frames_at h rt x fs" and rt: "rt \<noteq> NULL"
    and s: "tree_at h q (Node Leaf sc s sr)" and q: "q = par (inner @ [FL rc ra rr])"
    and path: "frames_at h rt s (inner @ FL rc ra rr # FR (Node ll lc la lr) c x # fs)"
    and bf: "before inner = []" and es: "erase_successor ra (topp s inner) h = Some (q, s)"
    and d: "distinct (before fs @ inorder (Node ll lc la lr) @ x # s # inorder sr @ after inner @ ra # inorder rr @ after fs)"
  shows "\<exists>h1. uu_rb_erase_augmented x rt dummy_callbacks h =
      Some (if sr = Leaf \<and> sc = Black then q else NULL, h1) \<and>
    tree_at h1 q (paint Black sr) \<and>
    frames_at h1 rt (rootp sr) (inner @ FL rc ra rr # FR (Node ll lc la lr) c s # fs) \<and>
    agree (fnodes fs \<union> set (inorder (Node ll lc la lr) @ s # inorder sr @ after inner @ ra # inorder rr)) rt h h1"
proof -
  have al: "aligned (par fs)" using fs frames_at_aligned by auto
  have df: "distinct (before fs @ after fs)" "set (inorder ll) \<inter> fnodes fs = {}" "set (inorder rr) \<inter> fnodes fs = {}"
    "set (inorder lr) \<inter> fnodes fs = {}" "set (inorder sr) \<inter> fnodes fs = {}" "fnodes inner \<inter> fnodes fs = {}"
    using d bf by (simp_all add: Int_Un_distrib Int_Un_distrib2 Int_commute)
  have tp: "topp s inner \<noteq> NULL"
  proof (cases inner rule: rev_cases)
    case (snoc ys y)
    with path show ?thesis by (cases y) (auto simp: topp_def frames_at_append)
  qed (use s in simp)
  have q0: "q \<noteq> NULL" "aligned q" "q \<in> insert ra (set (after inner))"
    using q path bf by (cases inner rule: par.cases; simp)+
  have nin: "s \<notin> fnodes fs" "la \<notin> fnodes fs" "ra \<notin> fnodes fs" "q \<notin> fnodes fs"
    "q \<notin> set (inorder sr)" using d q0 bf by auto
  have qn: "q \<noteq> x" "x \<noteq> q" "q \<noteq> s" "s \<noteq> q" "q \<noteq> la" "la \<noteq> q" using d q0 by auto
  let ?g = "set_child fs rt s (set_pc la (s OR col lc) (set_left s la (set_pc ra (s OR col rc)
     (set_right s ra (set_left q (rootp sr) h)))))"
  note pre = x s q0 tp fs rt d al path [unfolded frames_at_append] es nin qn
  have fr: "frames_at ?g rt s fs"
    by (rule frames_at_set_child [OF _ df(1), of _ _ x]) (use fs nin in \<open>simp add: heap_simps\<close>)
  have ag: "agree (fnodes fs \<union> set (inorder (Node ll lc la lr) @ s # inorder sr @ after inner @ ra # inorder rr)) rt h (set_pc s v ?g)" for v
    using q0 by (intro agree_set agree_set_child agree_refl) auto
  show ?thesis
  proof (cases sr)
    case Leaf
    have "uu_rb_erase_augmented x rt dummy_callbacks h =
        Some (if sc = Black then q else NULL, set_pc s (par fs OR col c) ?g)"
      by (use pre Leaf in \<open>cases sc; simp add: step_simps erase_defs col_or change_child [of _ rt x fs] del: insert_iff\<close>)
    moreover have "frames_at (set_pc s (par fs OR col c) ?g) rt NULL (inner @ FL rc ra rr # FR (Node ll lc la lr) c s # fs)"
      by (cases inner rule: par.cases)
        (use fr pre df Leaf bf q in \<open>simp_all add: heap_simps tree_at_set_child seg_at_set_child frames_at_append par_append
          Int_Un_distrib2 in_insert_both del: insert_iff\<close>)
    ultimately show ?thesis using ag Leaf by auto
  next
    case (Node rl rc2 ra2 rr2)
    let ?h = "set_pc ra2 (q OR 1) (set_pc s (par fs OR col c) ?g)"
    have "uu_rb_erase_augmented x rt dummy_callbacks h = Some (NULL, ?h)"
      by (use pre Node in \<open>simp add: step_simps erase_defs col_or change_child [of _ rt x fs] del: insert_iff\<close>)
    moreover have "frames_at ?h rt ra2 (inner @ FL rc ra rr # FR (Node ll lc la lr) c s # fs)"
      by (cases inner rule: par.cases)
        (use fr pre df Node bf q in \<open>simp_all add: heap_simps tree_at_set_child seg_at_set_child frames_at_append par_append
          Int_Un_distrib2 in_insert_both del: insert_iff\<close>)
    moreover have "tree_at ?h q (paint Black sr)"
      using pre df Node by (simp add: heap_simps tree_at_set_child Int_Un_distrib2 in_insert_both del: insert_iff)
    moreover have "agree (fnodes fs \<union> set (inorder (Node ll lc la lr) @ s # inorder sr @ after inner @ ra # inorder rr)) rt h ?h"
      using Node by (intro agree_set(1) ag) auto
    ultimately show ?thesis using Node by auto
  qed
qed

lemma erase_aug_gap:
  assumes t: "tree_at h (par fs) (Node (Node ll lc la lr) c x (Node rl rc ra rr))"
    and fs: "frames_at h rt x fs" and rt: "rt \<noteq> NULL"
    and d: "distinct (before fs @ inorder (Node (Node ll lc la lr) c x (Node rl rc ra rr)) @ after fs)"
    and ms: "min_split rl rc ra rr [] = (sc, s, sr, path)"
  shows "\<exists>h1. uu_rb_erase_augmented x rt dummy_callbacks h =
      Some (if sr = Leaf \<and> sc = Black then par (path @ FR (Node ll lc la lr) c s # fs) else NULL, h1) \<and>
    tree_at h1 (par (path @ FR (Node ll lc la lr) c s # fs)) (paint Black sr) \<and>
    frames_at h1 rt (rootp sr) (path @ FR (Node ll lc la lr) c s # fs) \<and>
    agree (fnodes fs \<union> set (inorder (Node ll lc la lr)) \<union> set (inorder (Node rl rc ra rr))) rt h h1"
proof (cases rl)
  case Leaf
  with ms have [simp]: "path = []" "sc = rc" "s = ra" "sr = rr" by auto
  show ?thesis using erase_aug_child [OF t [unfolded Leaf] fs rt d [unfolded Leaf]] Leaf
    by (auto elim!: agree_mono simp del: tree_at.simps frames_at.simps)
next
  case (Node rll rlc rla rlr)
  let ?L = "Node ll lc la lr"
  obtain inner where ms': "min_split rll rlc rla rlr [] = (sc, s, sr, inner)" and path: "path = inner @ [FL rc ra rr]"
    using ms Node min_split_acc [of rll rlc rla rlr "[FL rc ra rr]"] by (auto split: prod.splits)
  let ?fs = "inner @ FL rc ra rr # FR ?L c x # fs"
  have msf: "min_split rll rlc rla rlr (FL rc ra rr # FR ?L c x # fs) = (sc, s, sr, ?fs)"
    using ms' min_split_acc [of rll rlc rla rlr "FL rc ra rr # FR ?L c x # fs"] by simp
  have pos: "tree_at h (par ?fs) (Node Leaf sc s sr) \<and> frames_at h rt s ?fs"
    using tree_at_plug [of h "Node Leaf sc s sr" ?fs rt] min_split_plug [OF msf]
      tree_at_plug [of h "Node rll rlc rla rlr" "FL rc ra rr # FR ?L c x # fs" rt] t fs Node by simp
  have io: "s # inorder sr @ after inner = inorder rll @ rla # inorder rlr" "before inner = []"
    using min_split_inorder [OF ms'] by auto
  have q: "par ?fs = par (inner @ [FL rc ra rr])" by (simp add: par_append)
  have es: "erase_successor ra rla h = Some (par ?fs, s)"
    using erase_successor_min [OF msf] t Node by simp
  have top: "topp s inner = rla" using pos t Node by (simp add: frames_at_append)
  have dd: "distinct (before fs @ inorder ?L @ x # s # inorder sr @ after inner @ ra # inorder rr @ after fs)"
    using d Node arg_cong [OF io(1), of "\<lambda>u. distinct (before fs @ inorder ?L @ x # u @ ra # inorder rr @ after fs)"]
    by simp
  have sub: "fnodes fs \<union> set (inorder ?L @ s # inorder sr @ after inner @ ra # inorder rr)
    \<subseteq> fnodes fs \<union> set (inorder ?L) \<union> set (inorder (Node rl rc ra rr))"
    using arg_cong [OF io(1), of set] Node by auto
  have pp: "par ?fs = par (path @ FR ?L c s # fs)" "path @ FR ?L c s # fs = inner @ FL rc ra rr # FR ?L c s # fs"
    using path by (simp_all add: par_append)
  show ?thesis
    using erase_aug_deep [OF t rootp.simps(2) fs rt conjunct1 [OF pos] q conjunct2 [OF pos] io(2) es [folded top] dd]
    unfolding pp by (blast intro: agree_mono [OF _ sub])
qed

lemma erase_yields:
  assumes e: "erase_at l c x r fs = Some t'"
    and t: "tree_at h (par fs) (Node l c x r)" and fs: "frames_at h rt x fs" and rt: "rt \<noteq> NULL"
    and d: "distinct (before fs @ inorder (Node l c x r) @ after fs)"
  shows "yields (rb_erase x rt h) h rt t'"
proof -
  note io = erase_at_inorder [OF e]
  have fin: "yields (rb_erase x rt h) h rt t'"
    if "uu_rb_erase_augmented x rt dummy_callbacks h = Some (rb, h1)" "agree S rt h h1" "S \<subseteq> set (inorder t')"
      "yields (if rb \<noteq> NULL then uuuu_rb_erase_color rb rt dummy_rotate h1 else Some h1) h1 rt t'" for rb h1 S
    using yields_agree [OF that(4) agree_mono [OF that(2,3)]] that(1) by (simp add: rb_erase_def)
  show ?thesis
  proof (cases l)
    case Leaf
    obtain h1 where h1: "uu_rb_erase_augmented x rt dummy_callbacks h =
        Some (if r = Leaf \<and> c = Black then par fs else NULL, h1)"
      "tree_at h1 (par fs) (paint c r)" "frames_at h1 rt (rootp r) fs" "agree (fnodes fs \<union> set (inorder r)) rt h h1"
      using erase_aug_left_NULL [OF t [unfolded Leaf] fs rt d [unfolded Leaf]] by blast
    show ?thesis
    proof (rule fin [OF h1(1,4)], goal_cases)
      case 2
      show ?case
      proof (cases r)
        case Leaf
        with h1 \<open>l = Leaf\<close> e d rt show ?thesis by (intro gap_yields [of c Leaf fs]) auto
      next
        case (Node rl rc ra rr)
        with h1 \<open>l = Leaf\<close> e have "t' = plug (paint c r) fs" "rootp (paint c r) = rootp r" by auto
        with h1 Node show ?thesis by (simp add: yields_plug)
      qed
    qed (use io Leaf in auto)
  next
    case (Node ll lc la lr)
    note l = this
    show ?thesis
    proof (cases r)
      case Leaf
      obtain h1 where h1: "uu_rb_erase_augmented x rt dummy_callbacks h = Some (NULL, h1)"
        "tree_at h1 (par fs) (Node ll c la lr)" "frames_at h1 rt la fs" "agree (fnodes fs \<union> set (inorder (Node ll lc la lr))) rt h h1"
        using erase_aug_right_NULL [OF t [unfolded l Leaf] fs rt d [unfolded l Leaf]] by blast
      from e l Leaf have "t' = plug (Node ll c la lr) fs" by simp
      with h1 have "yields (Some h1) h1 rt t'" by (simp add: yields_plug)
      then show ?thesis using fin [OF h1(1,4)] io l by auto
    next
      case (Node rl rc ra rr)
      obtain sc s sr path where ms: "min_split rl rc ra rr [] = (sc, s, sr, path)" by (cases "min_split rl rc ra rr []") auto
      let ?fs = "path @ FR l c s # fs"
      obtain h1 where h1: "uu_rb_erase_augmented x rt dummy_callbacks h = Some (if sr = Leaf \<and> sc = Black then par ?fs else NULL, h1)"
        "tree_at h1 (par ?fs) (paint Black sr)" "frames_at h1 rt (rootp sr) ?fs"
        "agree (fnodes fs \<union> set (inorder l) \<union> set (inorder r)) rt h h1"
        using erase_aug_gap [OF t [unfolded l Node] fs rt d [unfolded l Node] ms] l Node by blast
      from e l Node ms have cg: "close_gap sc sr ?fs = Some t'" by simp
      have "distinct (inorder t')" using d io by simp
      then have "distinct (before ?fs @ inorder sr @ after ?fs)" using close_gap_inorder [OF cg] by simp
      from gap_yields [OF cg h1(2,3) refl this rt] show ?thesis
        by (intro fin [OF h1(1,4)]) (use io in auto)
    qed
  qed
qed

theorem rb_erase_refines:
  assumes t: "rb_tree_at h rt (plug (Node l c x r) fs)" and ok: "rb_ok (plug (Node l c x r) fs)"
  shows "\<exists>h' t'. rb_erase x rt h = Some h' \<and> rb_tree_at h' rt t' \<and> rb_ok t' \<and>
     erase_at l c x r fs = Some t' \<and> agree (set (inorder t')) rt h h'"
proof -
  from t have rt: "rt \<noteq> NULL" and d: "distinct (before fs @ inorder (Node l c x r) @ after fs)"
    and ta: "tree_at h (par fs) (Node l c x r)" and fs: "frames_at h rt x fs"
    using tree_at_plug [of h "Node l c x r" fs rt] by (auto simp: rb_tree_at_def)
  obtain t' where t': "erase_at l c x r fs = Some t'" and ok': "rb_ok t'"
    using erase_at_ok [OF ok] by blast
  have "distinct (inorder t')" using erase_at_inorder [OF t'] d by simp
  moreover obtain h' where "rb_erase x rt h = Some h'" "rb_holds h' rt t'" "agree (set (inorder t')) rt h h'"
    using erase_yields [OF t' ta fs rt d] unfolding yields_def by blast
  ultimately show ?thesis using t' ok' rt by (auto simp: rb_tree_at_def)
qed

end
