(* ===== verification/Rbtree_Traverse.thy ===== *)
theory Rbtree_Traverse
  imports Rbtree_Refine
begin

text \<open>
  The traversal functions of \<^verbatim>\<open>rbtree.c\<close>: \<^verbatim>\<open>rb_first\<close>, \<^verbatim>\<open>rb_last\<close>, \<^verbatim>\<open>rb_next\<close>,
  \<^verbatim>\<open>rb_prev\<close> walk the in-order sequence, \<^verbatim>\<open>rb_first_postorder\<close> and \<^verbatim>\<open>rb_next_postorder\<close> the
  post-order sequence, and \<^verbatim>\<open>rb_replace_node\<close> exchanges one node for another in place.
\<close>

section \<open>Sequences of nodes\<close>

lemma split_unique:
  "\<lbrakk>xs @ x # ys = xs' @ x # ys'; x \<notin> set xs; x \<notin> set xs'\<rbrakk> \<Longrightarrow> xs' = xs \<and> ys' = ys"
proof (induction xs arbitrary: xs')
  case Nil
  then show ?case by (cases xs') auto
next
  case (Cons a xs)
  then show ?case by (cases xs') auto
qed

text \<open>The pointer that stands for the front of a sequence, \<open>NULL\<close> when it is empty.\<close>

fun front :: "ptr list \<Rightarrow> ptr" where
  "front [] = NULL"
| "front (a # as) = a"

lemma front_append: "front (xs @ ys) = (if xs = [] then front ys else front xs)"
  by (cases xs) auto

text \<open>\<open>visits nxt p xs\<close>: starting from \<open>p\<close> and following \<open>nxt\<close>, a loop sees exactly
  \<open>xs\<close> and ends at a null pointer.\<close>

fun visits :: "(ptr \<Rightarrow> ptr option) \<Rightarrow> ptr option \<Rightarrow> ptr list \<Rightarrow> bool" where
  "visits nxt p [] \<longleftrightarrow> p = Some NULL"
| "visits nxt p (x # xs) \<longleftrightarrow> p = Some x \<and> visits nxt (nxt x) xs"

lemma visitsI:
  assumes "p = Some (front ys)" "\<And>xs x zs. ys = xs @ x # zs \<Longrightarrow> nxt x = Some (front zs)"
  shows "visits nxt p ys"
  using assms
proof (induction ys arbitrary: p)
  case (Cons y ys)
  have "nxt y = Some (front ys)" using Cons.prems(2) [of "[]" y ys] by simp
  moreover have "nxt x = Some (front zs)" if "ys = xs @ x # zs" for xs x zs
    using Cons.prems(2) [of "y # xs" x zs] that by simp
  ultimately have "visits nxt (nxt y) ys" by (rule Cons.IH)
  with Cons.prems(1) show ?case by simp
qed simp

text \<open>Every element of a tree has a position.\<close>

lemma position:
  "x \<in> set (inorder t) \<Longrightarrow> \<exists>l c r fs. t = plug (Node l c x r) fs"
proof (induction t)
  case (Node tl c a tr)
  then consider "x \<in> set (inorder tl)" | "x = a" | "x \<in> set (inorder tr)" by auto
  then show ?case
  proof cases
    case 1
    then obtain l d r fs where "tl = plug (Node l d x r) fs" using Node.IH by blast
    then have "Node tl c a tr = plug (Node l d x r) (fs @ [FL c a tr])" by simp
    then show ?thesis by blast
  next
    case 2
    then have "Node tl c a tr = plug (Node tl c x tr) []" by simp
    then show ?thesis by blast
  next
    case 3
    then obtain l d r fs where "tr = plug (Node l d x r) fs" using Node.IH by blast
    then have "Node tl c a tr = plug (Node l d x r) (fs @ [FR tl c a])" by simp
    then show ?thesis by blast
  qed
qed simp

lemma position_split:
  assumes "inorder t = xs @ x # ys" "distinct (inorder t)"
  obtains l c r fs where "t = plug (Node l c x r) fs" "xs = before fs @ inorder l" "ys = inorder r @ after fs"
proof -
  obtain l c r fs where t: "t = plug (Node l c x r) fs" using position [of x t] assms by auto
  with assms have "(before fs @ inorder l) @ x # inorder r @ after fs = xs @ x # ys" by simp
  moreover have "x \<notin> set (before fs @ inorder l)" using assms(2) t by simp
  moreover have "x \<notin> set xs" using assms(2) unfolding assms(1) by simp
  ultimately have "xs = before fs @ inorder l" "ys = inorder r @ after fs"
    using split_unique [of "before fs @ inorder l" x "inorder r @ after fs" xs ys] by simp_all
  with t that show thesis by blast
qed

lemma tree_at_plugD:
  assumes "rb_tree_at h rt (plug (Node l c x r) fs)"
  shows "tree_at h (par fs) (Node l c x r)" "frames_at h rt x fs"
    "distinct (before fs @ inorder (Node l c x r) @ after fs)" "rt \<noteq> NULL"
  using assms tree_at_plug [of h "Node l c x r" fs rt] by (auto simp: rb_tree_at_def)

lemma rb_tree_at_plugI:
  "\<lbrakk>tree_at h (par fs) t; frames_at h rt (rootp t) fs; distinct (before fs @ inorder t @ after fs); rt \<noteq> NULL\<rbrakk>
   \<Longrightarrow> rb_tree_at h rt (plug t fs)"
  using tree_at_plug [of h t fs rt] by (simp add: rb_tree_at_def)

lemma col_no_address [simp]: "col c AND - 4 = 0"
  by (cases c) simp_all

section \<open>In order\<close>

lemma leftmost_loop_front:
  "tree_at h p (Node l c a r) \<Longrightarrow> leftmost_loop a h = Some (front (inorder (Node l c a r)))"
proof (induction l arbitrary: p c a r)
  case Leaf
  then show ?case by (subst leftmost_loop.simps) (simp add: load_simps)
next
  case (Node ll lc la lr)
  then have "leftmost_loop la h = Some (front (inorder (Node ll lc la lr)))" by auto
  with Node.prems show ?case by (subst leftmost_loop.simps) (simp add: load_simps front_append)
qed

lemma rightmost_loop_last:
  "tree_at h p (Node l c a r) \<Longrightarrow> rightmost_loop a h = Some (front (rev (inorder (Node l c a r))))"
proof (induction r arbitrary: p c a l)
  case Leaf
  then show ?case by (subst rightmost_loop.simps) (simp add: load_simps)
next
  case (Node rl rc ra rr)
  then have "rightmost_loop ra h = Some (front (rev (inorder (Node rl rc ra rr))))" by auto
  with Node.prems show ?case by (subst rightmost_loop.simps) (simp add: load_simps front_append)
qed

lemma next_up_loop_after:
  "\<lbrakk>x \<noteq> NULL; rb_parent_color h x = par fs OR col c; frames_at h rt x fs;
    distinct (before fs @ x # after fs)\<rbrakk> \<Longrightarrow> next_up_loop x h = Some (front (after fs))"
proof (induction fs arbitrary: x c)
  case Nil
  then show ?case by (subst next_up_loop.simps) (simp add: load_simps)
next
  case (Cons f fs)
  show ?case
  proof (cases f)
    case (FL d a s)
    with Cons.prems have "x \<noteq> rootp s" by (cases s) auto
    with FL Cons.prems show ?thesis by (subst next_up_loop.simps) (simp add: load_simps)
  next
    case (FR s d a)
    with Cons.prems have "next_up_loop a h = Some (front (after fs))" by (intro Cons.IH) auto
    with FR Cons.prems show ?thesis by (subst next_up_loop.simps) (simp add: load_simps)
  qed
qed

lemma prev_up_loop_before:
  "\<lbrakk>x \<noteq> NULL; rb_parent_color h x = par fs OR col c; frames_at h rt x fs;
    distinct (before fs @ x # after fs)\<rbrakk> \<Longrightarrow> prev_up_loop x h = Some (front (rev (before fs)))"
proof (induction fs arbitrary: x c)
  case Nil
  then show ?case by (subst prev_up_loop.simps) (simp add: load_simps)
next
  case (Cons f fs)
  show ?case
  proof (cases f)
    case (FR s d a)
    with Cons.prems have "x \<noteq> rootp s" by (cases s) auto
    with FR Cons.prems show ?thesis by (subst prev_up_loop.simps) (simp add: load_simps)
  next
    case (FL d a s)
    with Cons.prems have "prev_up_loop a h = Some (front (rev (before fs)))" by (intro Cons.IH) auto
    with FL Cons.prems show ?thesis by (subst prev_up_loop.simps) (simp add: load_simps)
  qed
qed

lemma linked_not_empty:
  assumes "tree_at h (par fs) (Node l c x r)" "frames_at h rt x fs" "x \<notin> fnodes fs"
  shows "RB_EMPTY_NODE x h = Some False"
proof -
  have "par fs OR col c \<noteq> x"
  proof
    assume e: "par fs OR col c = x"
    have al: "aligned (par fs)" using assms(2) by (rule frames_at_aligned)
    have "(par fs OR col c) AND - 4 = x AND - 4" using e by simp
    with al assms(1) have "par fs = x" by simp
    with assms(1,3) par_in [of fs] show False by (cases "fs = []") auto
  qed
  with assms show ?thesis by (simp add: RB_EMPTY_NODE_def load_simps)
qed

theorem rb_first_inorder:
  "rb_tree_at h rt t \<Longrightarrow> rb_first rt h = Some (front (inorder t))"
  using leftmost_loop_front [of h NULL]
  by (cases t) (simp_all add: rb_tree_at_def rb_first_def load_simps del: inorder.simps(2))

theorem rb_last_inorder:
  "rb_tree_at h rt t \<Longrightarrow> rb_last rt h = Some (front (rev (inorder t)))"
  using rightmost_loop_last [of h NULL]
  by (cases t) (simp_all add: rb_tree_at_def rb_last_def load_simps del: inorder.simps(2))

theorem rb_next_inorder:
  assumes t: "rb_tree_at h rt t" and s: "inorder t = xs @ x # ys"
  shows "rb_next x h = Some (front ys)"
proof -
  have "distinct (inorder t)" using t by (simp add: rb_tree_at_def)
  with s obtain l c r fs where p: "t = plug (Node l c x r) fs" and ys: "ys = inorder r @ after fs"
    by (rule position_split)
  note pos = tree_at_plugD [OF t [unfolded p]]
  have "RB_EMPTY_NODE x h = Some False" by (rule linked_not_empty [OF pos(1,2)]) (use pos(3) in auto)
  moreover have "next_up_loop x h = Some (front (after fs))"
    by (rule next_up_loop_after [where c = c and rt = rt]) (use pos in auto)
  ultimately show ?thesis using pos
    by (cases r) (auto simp: rb_next_def load_simps ys leftmost_loop_front front_append)
qed

theorem rb_prev_inorder:
  assumes t: "rb_tree_at h rt t" and s: "inorder t = xs @ x # ys"
  shows "rb_prev x h = Some (front (rev xs))"
proof -
  have "distinct (inorder t)" using t by (simp add: rb_tree_at_def)
  with s obtain l c r fs where p: "t = plug (Node l c x r) fs" and xs: "xs = before fs @ inorder l"
    by (rule position_split)
  note pos = tree_at_plugD [OF t [unfolded p]]
  have "RB_EMPTY_NODE x h = Some False" by (rule linked_not_empty [OF pos(1,2)]) (use pos(3) in auto)
  moreover have "prev_up_loop x h = Some (front (rev (before fs)))"
    by (rule prev_up_loop_before [where c = c and rt = rt]) (use pos in auto)
  ultimately show ?thesis using pos
    by (cases l) (auto simp: rb_prev_def load_simps xs rightmost_loop_last front_append)
qed

theorem forward_walk:
  "rb_tree_at h rt t \<Longrightarrow> visits (\<lambda>x. rb_next x h) (rb_first rt h) (inorder t)"
  by (rule visitsI) (simp_all add: rb_first_inorder rb_next_inorder)

theorem backward_walk:
  assumes t: "rb_tree_at h rt t"
  shows "visits (\<lambda>x. rb_prev x h) (rb_last rt h) (rev (inorder t))"
proof (rule visitsI)
  fix xs x zs assume "rev (inorder t) = xs @ x # zs"
  then have "inorder t = rev zs @ x # rev xs" by (metis append.assoc append_Cons append_Nil rev.simps(2) rev_append rev_rev_ident)
  from rb_prev_inorder [OF t this] show "rb_prev x h = Some (front zs)" by simp
qed (simp add: t rb_last_inorder)

section \<open>Post-order\<close>

fun postorder :: "'a rbt \<Rightarrow> 'a list" where
  "postorder Leaf = []"
| "postorder (Node l c a r) = postorder l @ postorder r @ [a]"

fun post_before :: "'a frame list \<Rightarrow> 'a list" where
  "post_before [] = []"
| "post_before (FL c p s # fs) = post_before fs"
| "post_before (FR s c p # fs) = post_before fs @ postorder s"

fun post_after :: "'a frame list \<Rightarrow> 'a list" where
  "post_after [] = []"
| "post_after (FL c p s # fs) = postorder s @ p # post_after fs"
| "post_after (FR s c p # fs) = p # post_after fs"

lemma postorder_plug: "postorder (plug t fs) = post_before fs @ postorder t @ post_after fs"
proof (induction fs arbitrary: t)
  case (Cons f fs)
  then show ?case by (cases f) simp_all
qed simp

lemma set_postorder [simp]: "set (postorder t) = set (inorder t)"
  by (induction t) auto

lemma distinct_postorder [simp]: "distinct (postorder t) = distinct (inorder t)"
  by (induction t) auto

lemma postorder_nonempty [simp]: "postorder t = [] \<longleftrightarrow> t = Leaf"
  by (cases t) auto

lemma left_deepest_front:
  "\<lbrakk>tree_at h p t; t \<noteq> Leaf\<rbrakk> \<Longrightarrow> rb_left_deepest_node (rootp t) h = Some (front (postorder t))"
proof (induction t arbitrary: p)
  case (Node l c a r)
  then have "l \<noteq> Leaf \<Longrightarrow> rb_left_deepest_node (rootp l) h = Some (front (postorder l))"
    "r \<noteq> Leaf \<Longrightarrow> rb_left_deepest_node (rootp r) h = Some (front (postorder r))"
    "rootp l = NULL \<longleftrightarrow> l = Leaf" "rootp r = NULL \<longleftrightarrow> r = Leaf"
    by (auto simp: rootp_NULL_iff)
  with Node.prems show ?case
    by (subst rb_left_deepest_node.simps) (auto simp: load_simps front_append)
qed simp

lemma rb_next_postorder_at:
  assumes "tree_at h (par fs) (Node l c x r)" "frames_at h rt x fs"
    "distinct (before fs @ inorder (Node l c x r) @ after fs)"
  shows "rb_next_postorder x h = Some (front (post_after fs))"
proof (cases fs rule: par.cases)
  case 1
  with assms show ?thesis by (simp add: rb_next_postorder_def load_simps)
next
  case (2 d a s gs)
  show ?thesis
  proof (cases s)
    case Leaf
    with 2 assms show ?thesis by (simp add: rb_next_postorder_def load_simps)
  next
    case (Node sl sc sx sr)
    have "rb_left_deepest_node sx h = Some (front (postorder s))"
      using left_deepest_front [of h a s] 2 assms Node by auto
    with 2 assms Node show ?thesis by (simp add: rb_next_postorder_def load_simps front_append)
  qed
next
  case (3 s d a gs)
  with assms have "x \<noteq> rootp s" by (cases s) auto
  with 3 assms show ?thesis by (simp add: rb_next_postorder_def load_simps)
qed

theorem postorder_walk:
  assumes t: "rb_tree_at h rt t"
  shows "visits (\<lambda>x. rb_next_postorder x h) (rb_first_postorder rt h) (postorder t)"
proof (rule visitsI)
  show "rb_first_postorder rt h = Some (front (postorder t))"
    using t left_deepest_front [of h NULL t]
    by (cases t) (simp_all add: rb_tree_at_def rb_first_postorder_def load_simps del: postorder.simps(2))
next
  fix xs x zs assume s: "postorder t = xs @ x # zs"
  then have "x \<in> set (inorder t)" by (simp flip: set_postorder)
  then obtain l c r fs where p: "t = plug (Node l c x r) fs" using position [of x t] by auto
  note pos = tree_at_plugD [OF t [unfolded p]]
  have dp: "distinct (postorder t)" using t by (simp add: rb_tree_at_def)
  moreover have po: "postorder t = (post_before fs @ postorder l @ postorder r) @ x # post_after fs"
    by (simp add: p postorder_plug)
  moreover have "x \<notin> set xs" using dp unfolding s by simp
  ultimately have "zs = post_after fs"
    using s split_unique [of "post_before fs @ postorder l @ postorder r" x "post_after fs" xs zs] by auto
  then show "rb_next_postorder x h = Some (front zs)"
    using rb_next_postorder_at [OF pos(1-3)] by simp
qed

section \<open>Replacing a node\<close>

theorem rb_replace_node_at:
  assumes t: "rb_tree_at h rt (plug (Node l c x r) fs)"
    and n: "n \<noteq> NULL" "aligned n" "n \<notin> set (inorder (plug (Node l c x r) fs))"
  shows "\<exists>h'. rb_replace_node x n rt h = Some h' \<and> rb_tree_at h' rt (plug (Node l c n r) fs) \<and>
     agree (set (inorder (plug (Node l c n r) fs))) rt h h'"
proof -
  note pos = tree_at_plugD [OF t]
  have al: "aligned (par fs)" using pos(2) by (rule frames_at_aligned)
  let ?g = "set_child fs rt n h"
  define h1 where "h1 = (if l = Leaf then ?g else set_pc (rootp l) (n OR col (color_of l)) ?g)"
  define h2 where "h2 = (if r = Leaf then h1 else set_pc (rootp r) (n OR col (color_of r)) h1)"
  let ?h = "set_left n (rootp l) (set_right n (rootp r) (set_pc n (par fs OR col c) h2))"
  have df: "distinct (before fs @ after fs)" "set (inorder l) \<inter> fnodes fs = {}" "set (inorder r) \<inter> fnodes fs = {}"
    using pos(3) by auto
  have lr: "rootp l = NULL \<longleftrightarrow> l = Leaf" "rootp r = NULL \<longleftrightarrow> r = Leaf"
    "l \<noteq> Leaf \<Longrightarrow> rb_parent_color h (rootp l) AND 1 = col (color_of l)"
    "r \<noteq> Leaf \<Longrightarrow> rb_parent_color h (rootp r) AND 1 = col (color_of r)"
    using pos(1) by (cases l; cases r; auto)+
  have ne: "l \<noteq> Leaf \<Longrightarrow> x \<noteq> rootp l \<and> rootp r \<noteq> rootp l \<and> rootp l \<notin> fnodes fs"
    "r \<noteq> Leaf \<Longrightarrow> x \<noteq> rootp r \<and> rootp r \<notin> fnodes fs" "x \<noteq> n" "n \<notin> fnodes fs"
    using pos(1,3) n by (cases l; cases r; auto)+
  have "rb_replace_node x n rt h = Some ?h"
    using pos al lr ne n
    by (cases "l = Leaf"; cases "r = Leaf")
      (simp_all add: rb_replace_node_def load_simps heap_simps h1_def h2_def change_child [of _ rt x fs] col_or)
  moreover have "frames_at ?h rt n fs"
    using frames_at_set_child [OF pos(2) df(1), of n] ne lr by (simp add: heap_simps h1_def h2_def)
  moreover have "tree_at ?h (par fs) (Node l c n r)"
    unfolding h1_def h2_def using pos n df
    by (cases l; cases r)
      (simp_all add: heap_simps tree_at_set_child Int_Un_distrib2 in_insert_both del: insert_iff)
  moreover have "distinct (before fs @ inorder (Node l c n r) @ after fs)" using pos(3) n by auto
  ultimately have "rb_replace_node x n rt h = Some ?h" "rb_tree_at ?h rt (plug (Node l c n r) fs)"
    using pos(4) by (auto intro!: rb_tree_at_plugI simp del: tree_at.simps)
  moreover have "agree (set (inorder (plug (Node l c n r) fs))) rt h ?h"
    unfolding h1_def h2_def by (auto intro!: agree_set agree_set_child)
  ultimately show ?thesis by blast
qed

end
