(* ===== verification/Rbtree_Search.thy ===== *)
theory Rbtree_Search
  imports Rbtree_Unlink Rbtree_Traverse
begin

text \<open>
  The search loops of the clients of the red-black tree. \<^verbatim>\<open>maps__find\<close>, \<^verbatim>\<open>maps__insert\<close>,
  \<^verbatim>\<open>dso_cache__find\<close>, \<^verbatim>\<open>dso_cache__insert\<close>, \<^verbatim>\<open>__dso__findlink_by_longname\<close> and
  \<^verbatim>\<open>____machine__findnew_thread\<close> all descend from the root with a pair \<^verbatim>\<open>(parent, p)\<close> and decide
  at each node to go left, to go right or to stop; they differ in the decision only. The loop is modelled
  once over the heap and once over trees (\<open>descend\<close>), the two are shown to agree, and a locale
  gives the laws of insertion and lookup for any decision that is monotone in a key.
\<close>

section \<open>Decisions\<close>

text \<open>The order is the one along an in-order walk: nodes to pass on the right side come first.\<close>

datatype dir = Go_right | Stop | Go_left

fun dir_rank :: "dir \<Rightarrow> nat" where
  "dir_rank Go_right = 0"
| "dir_rank Stop = 1"
| "dir_rank Go_left = 2"

instantiation dir :: linorder
begin

definition less_eq_dir :: "dir \<Rightarrow> dir \<Rightarrow> bool" where
  "less_eq_dir a b \<longleftrightarrow> dir_rank a \<le> dir_rank b"

definition less_dir :: "dir \<Rightarrow> dir \<Rightarrow> bool" where
  "less_dir a b \<longleftrightarrow> dir_rank a < dir_rank b"

instance
proof
  fix a b :: dir
  show "a \<le> b \<Longrightarrow> b \<le> a \<Longrightarrow> a = b" by (cases a; cases b) (simp_all add: less_eq_dir_def)
qed (auto simp: less_eq_dir_def less_dir_def)

end

lemma dir_le [simp]: "Go_right \<le> d" "d \<le> Go_left" "d \<le> Go_right \<longleftrightarrow> d = Go_right" "Go_left \<le> d \<longleftrightarrow> d = Go_left"
  by (cases d; simp add: less_eq_dir_def)+

section \<open>The loops\<close>

partial_function (option) rb_search_loop ::
  "(ptr \<Rightarrow> dir) \<Rightarrow> rb_link \<Rightarrow> ptr \<Rightarrow> rb_heap \<Rightarrow> (ptr + ptr \<times> rb_link) option" where
  "rb_search_loop f p parent h = do {
     n \<leftarrow> ld_link p h;
     if n \<noteq> NULL then
       (case f n of
          Go_left \<Rightarrow> rb_search_loop f (LinkLeft n) n h
        | Go_right \<Rightarrow> rb_search_loop f (LinkRight n) n h
        | Stop \<Rightarrow> Some (Inl n))
     else Some (Inr (parent, p)) }"

declare rb_search_loop.simps [code]

definition rb_search_insert ::
  "(ptr \<Rightarrow> dir) \<Rightarrow> ptr \<Rightarrow> ptr \<Rightarrow> rb_heap \<Rightarrow> (ptr option \<times> rb_heap) option" where
  "rb_search_insert f n root h = do {
     r \<leftarrow> rb_search_loop f (LinkRoot root) NULL h;
     (case r of
        Inl a \<Rightarrow> Some (Some a, h)
      | Inr (parent, p) \<Rightarrow> do {
          h \<leftarrow> rb_link_node n parent p h;
          h \<leftarrow> rb_insert_color n root h;
          Some (None, h) }) }"

fun descend :: "('a \<Rightarrow> dir) \<Rightarrow> 'a rbt \<Rightarrow> 'a frame list \<Rightarrow> 'a + 'a frame list" where
  "descend f Leaf fs = Inr fs"
| "descend f (Node l c a r) fs =
     (case f a of
        Go_left \<Rightarrow> descend f l (FL c a r # fs)
      | Go_right \<Rightarrow> descend f r (FR l c a # fs)
      | Stop \<Rightarrow> Inl a)"

text \<open>The same operations on trees: \<open>Inl\<close> the node the search stopped at, \<open>Inr\<close> the new tree;
  \<open>None\<close> is a null-pointer access of the rebalancing, which does not happen on red-black trees.\<close>

definition rbt_insert :: "('a \<Rightarrow> dir) \<Rightarrow> 'a \<Rightarrow> 'a rbt \<Rightarrow> ('a + 'a rbt) option" where
  "rbt_insert f x t =
     (case descend f t [] of Inl a \<Rightarrow> Some (Inl a) | Inr fs \<Rightarrow> map_option Inr (ins_fix Leaf x Leaf fs))"

definition rbt_find :: "('a \<Rightarrow> dir) \<Rightarrow> 'a rbt \<Rightarrow> 'a option" where
  "rbt_find f t = (case descend f t [] of Inl a \<Rightarrow> Some a | Inr fs \<Rightarrow> None)"

fun locate :: "'a \<Rightarrow> 'a rbt \<Rightarrow> 'a frame list \<Rightarrow> ('a rbt \<times> color \<times> 'a rbt \<times> 'a frame list) option" where
  "locate x Leaf fs = None"
| "locate x (Node l c a r) fs =
     (if x = a then Some (l, c, r, fs)
      else case locate x l (FL c a r # fs) of
        Some p \<Rightarrow> Some p
      | None \<Rightarrow> locate x r (FR l c a # fs))"

definition rbt_erase :: "'a \<Rightarrow> 'a rbt \<Rightarrow> 'a rbt option" where
  "rbt_erase x t = (case locate x t [] of Some (l, c, r, fs) \<Rightarrow> erase_at l c x r fs | None \<Rightarrow> None)"

section \<open>The heap loops compute the tree functions\<close>

lemma ld_link_of:
  "\<lbrakk>frames_at h rt x fs; rt \<noteq> NULL\<rbrakk> \<Longrightarrow> ld_link (link_of rt fs) h = Some x"
  by (cases "(rt, fs)" rule: link_of.cases) (auto simp: ld_link_def load_simps)

lemma rb_search_loop_refines:
  assumes "tree_at h (par fs) t" "frames_at h rt (rootp t) fs" "rt \<noteq> NULL"
  shows "rb_search_loop f (link_of rt fs) (par fs) h =
     Some (case descend f t fs of Inl a \<Rightarrow> Inl a | Inr gs \<Rightarrow> Inr (par gs, link_of rt gs))"
  using assms
proof (induction t arbitrary: fs)
  case Leaf
  then show ?case by (subst rb_search_loop.simps) (simp add: ld_link_of)
next
  case (Node l c a r)
  have "rb_search_loop f (LinkLeft a) a h =
      Some (case descend f l (FL c a r # fs) of Inl a \<Rightarrow> Inl a | Inr gs \<Rightarrow> Inr (par gs, link_of rt gs))"
    using Node.IH(1) [of "FL c a r # fs"] Node.prems by simp
  moreover have "rb_search_loop f (LinkRight a) a h =
      Some (case descend f r (FR l c a # fs) of Inl a \<Rightarrow> Inl a | Inr gs \<Rightarrow> Inr (par gs, link_of rt gs))"
    using Node.IH(2) [of "FR l c a # fs"] Node.prems by simp
  ultimately show ?case using Node.prems
    by (subst rb_search_loop.simps) (simp add: ld_link_of split: dir.splits)
qed

lemma descend_plug: "descend f t fs = Inr gs \<Longrightarrow> plug Leaf gs = plug t fs"
  by (induction t arbitrary: fs) (auto split: dir.splits)

theorem rb_search_insert_refines:
  assumes t: "rb_tree_at h rt t" and ok: "rb_ok t"
    and n: "n \<noteq> NULL" "aligned n" "n \<notin> set (inorder t)"
  shows "\<exists>h' r. rb_search_insert f n rt h = Some (r, h') \<and>
     (case r of
        Some a \<Rightarrow> rbt_insert f n t = Some (Inl a) \<and> h' = h
      | None \<Rightarrow> \<exists>t'. rbt_insert f n t = Some (Inr t') \<and> rb_tree_at h' rt t' \<and> rb_ok t' \<and>
          agree (set (inorder t')) rt h h')"
proof -
  from t have s: "rb_search_loop f (LinkRoot rt) NULL h =
      Some (case descend f t [] of Inl a \<Rightarrow> Inl a | Inr gs \<Rightarrow> Inr (par gs, link_of rt gs))"
    using rb_search_loop_refines [of h "[]" t rt f] by (auto simp: rb_tree_at_def)
  show ?thesis
  proof (cases "descend f t []")
    case (Inl a)
    with s show ?thesis by (simp add: rb_search_insert_def rbt_insert_def)
  next
    case (Inr gs)
    then have p: "plug Leaf gs = t" using descend_plug [of f t "[]" gs] by simp
    obtain h1 h' t' where "rb_link_node n (par gs) (link_of rt gs) h = Some h1"
      "rb_insert_color n rt h1 = Some h'" "rb_tree_at h' rt t'" "rb_ok t'" "ins_fix Leaf n Leaf gs = Some t'"
      "agree (set (inorder t')) rt h h'"
      using rb_insert_refines [of h rt gs n] t ok n unfolding p by blast
    with Inr s show ?thesis by (auto simp: rb_search_insert_def rbt_insert_def)
  qed
qed

lemma locate_plug: "locate x t fs = Some (l, c, r, gs) \<Longrightarrow> plug (Node l c x r) gs = plug t fs"
  by (induction t arbitrary: fs) (auto split: if_splits option.splits)

lemma locate_None: "locate x t fs = None \<longleftrightarrow> x \<notin> set (inorder t)"
proof (induction t arbitrary: fs)
  case (Node l c a r)
  show ?case
    using Node.IH(1) [of "FL c a r # fs"] Node.IH(2) [of "FR l c a # fs"] by (cases "locate x l (FL c a r # fs)") auto
qed simp

theorem rb_erase_computes:
  assumes t: "rb_tree_at h rt t" and ok: "rb_ok t" and x: "x \<in> set (inorder t)"
  shows "\<exists>h' t'. rb_erase x rt h = Some h' \<and> rbt_erase x t = Some t' \<and> rb_tree_at h' rt t' \<and> rb_ok t' \<and>
     agree (set (inorder t')) rt h h'"
proof -
  obtain l c r fs where lc: "locate x t [] = Some (l, c, r, fs)" using locate_None [of x t "[]"] x by auto
  then have p: "plug (Node l c x r) fs = t" using locate_plug by fastforce
  from rb_erase_refines [of h rt l c x r fs] t ok lc show ?thesis unfolding p by (auto simp: rbt_erase_def)
qed

section \<open>Searching a sorted tree\<close>

lemma descend_sorted:
  assumes "sorted (map f (inorder t))"
  shows "case descend f t fs of
      Inl a \<Rightarrow> a \<in> set (inorder t) \<and> f a = Stop
    | Inr gs \<Rightarrow> \<exists>xs ys. inorder t = xs @ ys \<and> before gs = before fs @ xs \<and> after gs = ys @ after fs \<and>
        (\<forall>a\<in>set xs. f a = Go_right) \<and> (\<forall>a\<in>set ys. f a = Go_left)"
  using assms
proof (induction t arbitrary: fs)
  case (Node l c a r)
  show ?case
  proof (cases "f a")
    case Go_left
    with Node.prems have "\<forall>b\<in>set (inorder r). f b = Go_left" by (auto simp: sorted_append)
    moreover have "sorted (map f (inorder l))" using Node.prems by (simp add: sorted_append)
    note Node.IH(1) [OF this, of "FL c a r # fs"]
    ultimately show ?thesis using Go_left by (auto split: sum.splits)
  next
    case Go_right
    with Node.prems have lr: "\<forall>b\<in>set (inorder l). f b = Go_right" by (auto simp: sorted_append)
    have "sorted (map f (inorder r))" using Node.prems by (simp add: sorted_append)
    note IH = Node.IH(2) [OF this, of "FR l c a # fs"]
    show ?thesis
    proof (cases "descend f r (FR l c a # fs)")
      case (Inr gs)
      with IH obtain xs ys where "inorder r = xs @ ys" "before gs = before fs @ (inorder l @ a # xs)"
        "after gs = ys @ after fs" "\<forall>a\<in>set xs. f a = Go_right" "\<forall>a\<in>set ys. f a = Go_left" by auto
      with Inr Go_right lr show ?thesis
        by (auto intro!: exI [of _ "inorder l @ a # xs"] exI [of _ ys])
    qed (use IH Go_right in simp)
  next
    case Stop
    then show ?thesis by simp
  qed
qed simp

lemma rbt_erase_ok:
  assumes "rb_ok t" "x \<in> set (inorder t)" "distinct (inorder t)"
  shows "\<exists>t'. rbt_erase x t = Some t' \<and> rb_ok t' \<and> inorder t' = remove1 x (inorder t)"
proof -
  obtain l c r fs where lc: "locate x t [] = Some (l, c, r, fs)" using locate_None [of x t "[]"] assms(2) by auto
  then have p: "plug (Node l c x r) fs = t" using locate_plug by fastforce
  obtain t' where t': "erase_at l c x r fs = Some t'" "rb_ok t'"
    using erase_at_ok [of l c x r fs] assms(1) unfolding p by blast
  have "x \<notin> set (before fs @ inorder l)" using assms(3) by (simp flip: p)
  then have "inorder t' = remove1 x (inorder t)"
    using erase_at_inorder [OF t'(1)] by (simp add: remove1_append flip: p)
  with t' lc show ?thesis by (simp add: rbt_erase_def)
qed

lemma rbt_insert_ok:
  assumes "rb_ok t" "sorted (map f (inorder t))"
  shows "(\<exists>a. rbt_insert f x t = Some (Inl a) \<and> a \<in> set (inorder t) \<and> f a = Stop) \<or>
    (\<exists>t' xs ys. rbt_insert f x t = Some (Inr t') \<and> rb_ok t' \<and> inorder t = xs @ ys \<and> inorder t' = xs @ x # ys \<and>
       (\<forall>a\<in>set xs. f a = Go_right) \<and> (\<forall>a\<in>set ys. f a = Go_left))"
proof (cases "descend f t []")
  case (Inl a)
  with descend_sorted [OF assms(2), of "[]"] show ?thesis by (simp add: rbt_insert_def)
next
  case (Inr gs)
  then have p: "plug Leaf gs = t" using descend_plug [of f t "[]" gs] by simp
  obtain t' where t': "ins_fix Leaf x Leaf gs = Some t'" "rb_ok t'"
    using ins_fix_ok [of Leaf Leaf gs x] assms(1) rb_ok_plug [of Leaf gs] by (auto simp: p)
  with Inr descend_sorted [OF assms(2), of "[]"] ins_fix_inorder [OF t'(1)] show ?thesis
    by (auto simp: rbt_insert_def)
qed

lemma rbt_find_Some: "\<lbrakk>sorted (map f (inorder t)); rbt_find f t = Some a\<rbrakk> \<Longrightarrow> a \<in> set (inorder t) \<and> f a = Stop"
  using descend_sorted [of f t "[]"] by (auto simp: rbt_find_def split: sum.splits)

lemma rbt_find_None: "\<lbrakk>sorted (map f (inorder t)); rbt_find f t = None; a \<in> set (inorder t)\<rbrakk> \<Longrightarrow> f a \<noteq> Stop"
  using descend_sorted [of f t "[]"] by (auto simp: rbt_find_def split: sum.splits)

section \<open>Trees ordered by a key\<close>

text \<open>What a client promises about its decision function on the nodes it considers valid: looking for
  key \<open>k\<close>, the decision is monotone along the keys, it goes right only at keys not above \<open>k\<close>
  and left only at keys not below.\<close>

locale keyed_search =
  fixes valid :: "'a \<Rightarrow> bool" and key :: "'a \<Rightarrow> 'k::linorder" and decide :: "'k \<Rightarrow> 'a \<Rightarrow> dir"
  assumes decide_mono: "\<lbrakk>valid a; valid b; key a \<le> key b\<rbrakk> \<Longrightarrow> decide k a \<le> decide k b"
    and decide_right: "\<lbrakk>valid a; decide k a = Go_right\<rbrakk> \<Longrightarrow> key a \<le> k"
    and decide_left: "\<lbrakk>valid a; decide k a = Go_left\<rbrakk> \<Longrightarrow> k \<le> key a"
begin

lemma sorted_decide: "\<lbrakk>sorted (map key xs); \<forall>a\<in>set xs. valid a\<rbrakk> \<Longrightarrow> sorted (map (decide k) xs)"
  by (induction xs) (auto intro: decide_mono)

lemma insert_sorted:
  assumes "rb_ok t" "sorted (map key (inorder t))" "\<forall>a\<in>set (inorder t). valid a"
  shows "(\<exists>a. rbt_insert (decide (key x)) x t = Some (Inl a) \<and> a \<in> set (inorder t) \<and> decide (key x) a = Stop) \<or>
    (\<exists>t'. rbt_insert (decide (key x)) x t = Some (Inr t') \<and> rb_ok t' \<and> sorted (map key (inorder t')) \<and>
       (\<exists>xs ys. inorder t = xs @ ys \<and> inorder t' = xs @ x # ys) \<and>
       (\<forall>a\<in>set (inorder t). decide (key x) a \<noteq> Stop))"
  using rbt_insert_ok [OF assms(1) sorted_decide [OF assms(2,3)], of "key x" x]
proof (elim disjE exE conjE)
  fix t' xs ys
  assume i: "rbt_insert (decide (key x)) x t = Some (Inr t')" "rb_ok t'" "inorder t = xs @ ys" "inorder t' = xs @ x # ys"
    and xs: "\<forall>a\<in>set xs. decide (key x) a = Go_right" and ys: "\<forall>a\<in>set ys. decide (key x) a = Go_left"
  have "sorted (map key (inorder t'))"
    using assms(2,3) xs ys i decide_right decide_left by (auto simp: sorted_append)
  with i xs ys show ?thesis by auto
qed blast

lemma find_found:
  "\<lbrakk>sorted (map key (inorder t)); \<forall>a\<in>set (inorder t). valid a; rbt_find (decide k) t = Some a\<rbrakk> \<Longrightarrow>
   a \<in> set (inorder t) \<and> decide k a = Stop"
  by (rule rbt_find_Some [OF sorted_decide])

lemma find_missing:
  "\<lbrakk>sorted (map key (inorder t)); \<forall>a\<in>set (inorder t). valid a; rbt_find (decide k) t = None; a \<in> set (inorder t)\<rbrakk> \<Longrightarrow>
   decide k a \<noteq> Stop"
  by (rule rbt_find_None [OF sorted_decide])

lemma erase_sorted:
  assumes "rb_ok t" "x \<in> set (inorder t)" "distinct (inorder t)" "sorted (map key (inorder t))"
  shows "\<exists>t'. rbt_erase x t = Some t' \<and> rb_ok t' \<and> inorder t' = remove1 x (inorder t) \<and> sorted (map key (inorder t'))"
  using rbt_erase_ok [OF assms(1-3)] assms(4) by (auto simp: sorted_map_remove1)

end

end
