(* ===== verification/Atomics.thy ===== *)
theory Atomics
  imports Prelude
begin

text \<open>
  The atomic operations of \<^verbatim>\<open>src/stdatomic.h\<close>. An atomic object is its value; an operation takes the value and gives its
  result with the new value, and is one step of the thread that runs it. The header chooses among three sets of macros by the compiler:
  the definitions without a prefix are those for gcc 4.7 and later (the ones for clang call built-ins of the same
  meaning), those with the prefix \<open>sync\<close> the fallback on the older \<^verbatim>\<open>__sync\<close> built-ins. All steps take effect in one order, as
  \<^verbatim>\<open>memory_order_seq_cst\<close> promises, which is the order every convenience macro passes; the weaker orders are accepted and have no
  effect of their own in the model.
\<close>

datatype memory_order =
  memory_order_relaxed | memory_order_consume | memory_order_acquire | memory_order_release | memory_order_acq_rel | memory_order_seq_cst

type_synonym atomic_bool = "1 word"
type_synonym atomic_uint = "32 word"

section \<open>The built-ins of the compilers\<close>

text \<open>\<^verbatim>\<open>__atomic_compare_exchange_n\<close>: the object is replaced when it equals \<^verbatim>\<open>*expected\<close>, otherwise \<^verbatim>\<open>*expected\<close> receives its
  value; the weak form may fail although the two are equal (\<open>spurious\<close>). \<^verbatim>\<open>__sync_val_compare_and_swap\<close> returns the old value.\<close>

definition builtin_compare_exchange_n ::
  "bool \<Rightarrow> 'a::len word \<Rightarrow> 'a word \<Rightarrow> 'a word \<Rightarrow> bool \<Rightarrow> bool \<times> 'a word \<times> 'a word" where
  "builtin_compare_exchange_n spurious val e desired weak =
     (if val = e \<and> \<not> (weak \<and> spurious) then (True, desired, e) else (False, val, val))"

definition builtin_fetch :: "('a::len word \<Rightarrow> 'a word \<Rightarrow> 'a word) \<Rightarrow> 'a word \<Rightarrow> 'a word \<Rightarrow> 'a word \<times> 'a word" where
  "builtin_fetch f val operand = (val, f val operand)"

definition sync_val_compare_and_swap :: "'a::len word \<Rightarrow> 'a word \<Rightarrow> 'a word \<Rightarrow> 'a word \<times> 'a word" where
  "sync_val_compare_and_swap val old new = (val, if val = old then new else val)"

definition sync_lock_test_and_set :: "'a::len word \<Rightarrow> 'a word \<Rightarrow> 'a word \<times> 'a word" where
  "sync_lock_test_and_set val new = (val, new)"

section \<open>The operations\<close>

text \<open>The pointer \<^verbatim>\<open>expected\<close> is the value it points to, or \<open>None\<close> for the null pointer, whose access is the result \<open>None\<close>.
  A compare-and-exchange gives its result, the object and \<^verbatim>\<open>*expected\<close>.\<close>

definition atomic_init :: "'a::len word \<Rightarrow> 'a word \<Rightarrow> 'a word" where
  "atomic_init object value = value"

definition atomic_compare_exchange_strong_explicit ::
  "'a::len word \<Rightarrow> 'a word option \<Rightarrow> 'a word \<Rightarrow> memory_order \<Rightarrow> memory_order \<Rightarrow> (bool \<times> 'a word \<times> 'a word) option" where
  "atomic_compare_exchange_strong_explicit object expected desired success failure =
     do { e \<leftarrow> expected; Some (builtin_compare_exchange_n False object e desired False) }"

definition atomic_compare_exchange_weak_explicit ::
  "bool \<Rightarrow> 'a::len word \<Rightarrow> 'a word option \<Rightarrow> 'a word \<Rightarrow> memory_order \<Rightarrow> memory_order \<Rightarrow> (bool \<times> 'a word \<times> 'a word) option" where
  "atomic_compare_exchange_weak_explicit spurious object expected desired success failure =
     do { e \<leftarrow> expected; Some (builtin_compare_exchange_n spurious object e desired True) }"

definition atomic_exchange_explicit :: "'a::len word \<Rightarrow> 'a word \<Rightarrow> memory_order \<Rightarrow> 'a word \<times> 'a word" where
  "atomic_exchange_explicit object desired order = builtin_fetch (\<lambda>_ new. new) object desired"

definition atomic_fetch_add_explicit :: "'a::len word \<Rightarrow> 'a word \<Rightarrow> memory_order \<Rightarrow> 'a word \<times> 'a word" where
  "atomic_fetch_add_explicit object operand order = builtin_fetch (+) object operand"

definition atomic_fetch_and_explicit :: "'a::len word \<Rightarrow> 'a word \<Rightarrow> memory_order \<Rightarrow> 'a word \<times> 'a word" where
  "atomic_fetch_and_explicit object operand order = builtin_fetch (AND) object operand"

definition atomic_fetch_or_explicit :: "'a::len word \<Rightarrow> 'a word \<Rightarrow> memory_order \<Rightarrow> 'a word \<times> 'a word" where
  "atomic_fetch_or_explicit object operand order = builtin_fetch (OR) object operand"

definition atomic_fetch_sub_explicit :: "'a::len word \<Rightarrow> 'a word \<Rightarrow> memory_order \<Rightarrow> 'a word \<times> 'a word" where
  "atomic_fetch_sub_explicit object operand order = builtin_fetch (-) object operand"

definition atomic_fetch_xor_explicit :: "'a::len word \<Rightarrow> 'a word \<Rightarrow> memory_order \<Rightarrow> 'a word \<times> 'a word" where
  "atomic_fetch_xor_explicit object operand order = builtin_fetch (XOR) object operand"

definition atomic_load_explicit :: "'a::len word \<Rightarrow> memory_order \<Rightarrow> 'a word \<times> 'a word" where
  "atomic_load_explicit object order = (object, object)"

definition atomic_store_explicit :: "'a::len word \<Rightarrow> 'a word \<Rightarrow> memory_order \<Rightarrow> 'a word" where
  "atomic_store_explicit object desired order = desired"

subsection \<open>The fallback\<close>

definition sync_compare_exchange_strong_explicit ::
  "'a::len word \<Rightarrow> 'a word option \<Rightarrow> 'a word \<Rightarrow> memory_order \<Rightarrow> memory_order \<Rightarrow> (bool \<times> 'a word \<times> 'a word) option" where
  "sync_compare_exchange_strong_explicit object expected desired success failure = do {
     e \<leftarrow> expected;
     let (v, object) = sync_val_compare_and_swap object e desired;
     let r = (e = v);
     Some (r, object, v) }"

definition sync_compare_exchange_weak_explicit ::
  "'a::len word \<Rightarrow> 'a word option \<Rightarrow> 'a word \<Rightarrow> memory_order \<Rightarrow> memory_order \<Rightarrow> (bool \<times> 'a word \<times> 'a word) option" where
  "sync_compare_exchange_weak_explicit object expected desired success failure =
     sync_compare_exchange_strong_explicit object expected desired success failure"

definition sync_exchange_explicit :: "'a::len word \<Rightarrow> 'a word \<Rightarrow> memory_order \<Rightarrow> 'a word \<times> 'a word" where
  "sync_exchange_explicit object desired order =
     (let (v, object) = sync_lock_test_and_set object desired in (v, object))"

definition sync_fetch_add_explicit :: "'a::len word \<Rightarrow> 'a word \<Rightarrow> memory_order \<Rightarrow> 'a word \<times> 'a word" where
  "sync_fetch_add_explicit object operand order = builtin_fetch (+) object operand"

definition sync_fetch_and_explicit :: "'a::len word \<Rightarrow> 'a word \<Rightarrow> memory_order \<Rightarrow> 'a word \<times> 'a word" where
  "sync_fetch_and_explicit object operand order = builtin_fetch (AND) object operand"

definition sync_fetch_or_explicit :: "'a::len word \<Rightarrow> 'a word \<Rightarrow> memory_order \<Rightarrow> 'a word \<times> 'a word" where
  "sync_fetch_or_explicit object operand order = builtin_fetch (OR) object operand"

definition sync_fetch_sub_explicit :: "'a::len word \<Rightarrow> 'a word \<Rightarrow> memory_order \<Rightarrow> 'a word \<times> 'a word" where
  "sync_fetch_sub_explicit object operand order = builtin_fetch (-) object operand"

definition sync_fetch_xor_explicit :: "'a::len word \<Rightarrow> 'a word \<Rightarrow> memory_order \<Rightarrow> 'a word \<times> 'a word" where
  "sync_fetch_xor_explicit object operand order = builtin_fetch (XOR) object operand"

definition sync_load_explicit :: "'a::len word \<Rightarrow> memory_order \<Rightarrow> 'a word \<times> 'a word" where
  "sync_load_explicit object order = builtin_fetch (+) object 0"

definition sync_store_explicit :: "'a::len word \<Rightarrow> 'a word \<Rightarrow> memory_order \<Rightarrow> 'a word" where
  "sync_store_explicit object desired order = desired"

subsection \<open>Convenience functions\<close>

definition atomic_compare_exchange_strong ::
  "'a::len word \<Rightarrow> 'a word option \<Rightarrow> 'a word \<Rightarrow> (bool \<times> 'a word \<times> 'a word) option" where
  "atomic_compare_exchange_strong object expected desired =
     atomic_compare_exchange_strong_explicit object expected desired memory_order_seq_cst memory_order_seq_cst"

definition atomic_compare_exchange_weak ::
  "bool \<Rightarrow> 'a::len word \<Rightarrow> 'a word option \<Rightarrow> 'a word \<Rightarrow> (bool \<times> 'a word \<times> 'a word) option" where
  "atomic_compare_exchange_weak spurious object expected desired =
     atomic_compare_exchange_weak_explicit spurious object expected desired memory_order_seq_cst memory_order_seq_cst"

definition atomic_exchange :: "'a::len word \<Rightarrow> 'a word \<Rightarrow> 'a word \<times> 'a word" where
  "atomic_exchange object desired = atomic_exchange_explicit object desired memory_order_seq_cst"

definition atomic_fetch_add :: "'a::len word \<Rightarrow> 'a word \<Rightarrow> 'a word \<times> 'a word" where
  "atomic_fetch_add object operand = atomic_fetch_add_explicit object operand memory_order_seq_cst"

definition atomic_fetch_and :: "'a::len word \<Rightarrow> 'a word \<Rightarrow> 'a word \<times> 'a word" where
  "atomic_fetch_and object operand = atomic_fetch_and_explicit object operand memory_order_seq_cst"

definition atomic_fetch_or :: "'a::len word \<Rightarrow> 'a word \<Rightarrow> 'a word \<times> 'a word" where
  "atomic_fetch_or object operand = atomic_fetch_or_explicit object operand memory_order_seq_cst"

definition atomic_fetch_sub :: "'a::len word \<Rightarrow> 'a word \<Rightarrow> 'a word \<times> 'a word" where
  "atomic_fetch_sub object operand = atomic_fetch_sub_explicit object operand memory_order_seq_cst"

definition atomic_fetch_xor :: "'a::len word \<Rightarrow> 'a word \<Rightarrow> 'a word \<times> 'a word" where
  "atomic_fetch_xor object operand = atomic_fetch_xor_explicit object operand memory_order_seq_cst"

definition atomic_load :: "'a::len word \<Rightarrow> 'a word \<times> 'a word" where
  "atomic_load object = atomic_load_explicit object memory_order_seq_cst"

definition atomic_store :: "'a::len word \<Rightarrow> 'a word \<Rightarrow> 'a word" where
  "atomic_store object desired = atomic_store_explicit object desired memory_order_seq_cst"

subsection \<open>Flags\<close>

text \<open>\<^verbatim>\<open>atomic_flag_test_and_set_explicit\<close> passes the integer constant 0 for the pointer \<^verbatim>\<open>expected\<close>: the null pointer.\<close>

definition ATOMIC_FLAG_INIT :: atomic_bool where
  "ATOMIC_FLAG_INIT = 0"

definition atomic_flag_clear_explicit :: "atomic_bool \<Rightarrow> memory_order \<Rightarrow> atomic_bool" where
  "atomic_flag_clear_explicit object order = atomic_store_explicit object 0 order"

definition atomic_flag_test_and_set_explicit :: "atomic_bool \<Rightarrow> memory_order \<Rightarrow> (bool \<times> atomic_bool \<times> atomic_bool) option" where
  "atomic_flag_test_and_set_explicit object order = atomic_compare_exchange_strong_explicit object None 1 order order"

definition atomic_flag_clear :: "atomic_bool \<Rightarrow> atomic_bool" where
  "atomic_flag_clear object = atomic_flag_clear_explicit object memory_order_seq_cst"

definition atomic_flag_test_and_set :: "atomic_bool \<Rightarrow> (bool \<times> atomic_bool \<times> atomic_bool) option" where
  "atomic_flag_test_and_set object = atomic_flag_test_and_set_explicit object memory_order_seq_cst"

section \<open>Lemmas\<close>

lemmas fetch_defs = atomic_fetch_add_def atomic_fetch_and_def atomic_fetch_or_def atomic_fetch_sub_def atomic_fetch_xor_def
  atomic_fetch_add_explicit_def atomic_fetch_and_explicit_def atomic_fetch_or_explicit_def atomic_fetch_sub_explicit_def
  atomic_fetch_xor_explicit_def atomic_load_def atomic_load_explicit_def atomic_store_def atomic_store_explicit_def
  atomic_exchange_def atomic_exchange_explicit_def builtin_fetch_def

lemmas sync_defs = sync_exchange_explicit_def sync_lock_test_and_set_def sync_fetch_add_explicit_def sync_fetch_and_explicit_def
  sync_fetch_or_explicit_def sync_fetch_sub_explicit_def sync_fetch_xor_explicit_def sync_load_explicit_def sync_store_explicit_def
  builtin_fetch_def

text \<open>What a reader of the object sees of an operation.\<close>

lemma atomic_simps [simp]:
  "atomic_fetch_add v x = (v, v + x)" "atomic_fetch_sub v x = (v, v - x)" "atomic_fetch_and v x = (v, v AND x)"
  "atomic_fetch_or v x = (v, v OR x)" "atomic_fetch_xor v x = (v, v XOR x)" "atomic_exchange v x = (v, x)"
  "atomic_load v = (v, v)" "atomic_store v x = x"
  by (simp_all add: fetch_defs)

lemma compare_exchange_strong:
  "atomic_compare_exchange_strong_explicit v e d su fa = map_option (\<lambda>e. (v = e, if v = e then d else v, v)) e"
  by (cases e) (simp_all add: atomic_compare_exchange_strong_explicit_def builtin_compare_exchange_n_def)

text \<open>The fallback computes the same results; a weak compare-and-exchange, which the fallback makes strong, is one that does not
  fail spuriously.\<close>

lemma sync_compare_exchange:
  "sync_compare_exchange_strong_explicit v e d su fa = atomic_compare_exchange_strong_explicit v e d su fa"
  "sync_compare_exchange_weak_explicit v e d su fa = atomic_compare_exchange_weak_explicit False v e d su fa"
  by (cases e; auto simp: sync_compare_exchange_weak_explicit_def sync_compare_exchange_strong_explicit_def sync_val_compare_and_swap_def
      atomic_compare_exchange_weak_explicit_def atomic_compare_exchange_strong_explicit_def builtin_compare_exchange_n_def)+

lemma sync_operations:
  "sync_exchange_explicit v x ord = atomic_exchange_explicit v x ord" "sync_fetch_add_explicit v x ord = atomic_fetch_add_explicit v x ord"
  "sync_fetch_and_explicit v x ord = atomic_fetch_and_explicit v x ord" "sync_fetch_or_explicit v x ord = atomic_fetch_or_explicit v x ord"
  "sync_fetch_sub_explicit v x ord = atomic_fetch_sub_explicit v x ord" "sync_fetch_xor_explicit v x ord = atomic_fetch_xor_explicit v x ord"
  "sync_load_explicit v ord = atomic_load_explicit v ord" "sync_store_explicit v x ord = atomic_store_explicit v x ord"
  by (simp_all add: fetch_defs sync_defs)

text \<open>A compare-and-exchange whose \<^verbatim>\<open>expected\<close> was loaded before: it succeeds exactly when no other step changed the object, and it
  reports the value it found otherwise, so that the loop that retries with that value succeeds in the next round.\<close>

lemma compare_exchange_retry:
  assumes "atomic_compare_exchange_strong v (Some e) d = Some (r, v', e')"
  shows "r \<longleftrightarrow> v = e" "e' = v" "v' = (if r then d else v)"
    "\<not> r \<Longrightarrow> atomic_compare_exchange_strong v' (Some e') d = Some (True, d, v)"
  using assms by (auto simp: atomic_compare_exchange_strong_def compare_exchange_strong)

text \<open>The macro for a flag always reads through the null pointer.\<close>

lemma flag_test_and_set_null: "atomic_flag_test_and_set object = None"
  by (simp add: atomic_flag_test_and_set_def atomic_flag_test_and_set_explicit_def atomic_compare_exchange_strong_explicit_def)

end
