(* ===== verification/Utility.thy ===== *)
theory Utility
  imports Atomics
begin

text \<open>
  The helpers of \<^verbatim>\<open>src/utility.c\<close> and \<^verbatim>\<open>src/utility.h\<close> that the other components
  call, \<^verbatim>\<open>__symbol__join_symfs\<close> of \<^verbatim>\<open>src/symbol.h\<close>, the reference counts of
  \<^verbatim>\<open>src/refcount.h\<close> and the lock wrappers of \<^verbatim>\<open>src/rwsem.c\<close>. The operating system is the
  record \<open>os\<close>: the results of the calls the library makes, which the theorems constrain only by
  hypotheses that name them.
\<close>

section \<open>The operating system as the library sees it\<close>

record os =
  os_stat :: "string \<Rightarrow> int \<times> u32"
  os_open :: "string \<Rightarrow> int"
  os_errno :: int
  os_pread :: "int \<Rightarrow> nat \<Rightarrow> u64 \<Rightarrow> int \<times> u8 list"
  os_fstat :: "int \<Rightarrow> int \<times> u64"

definition PATH_MAX :: nat where "PATH_MAX = 4096"

section \<open>utility.c\<close>

text \<open>The allocators \<open>malloc\<close> and \<open>calloc\<close> give an address or \<open>NULL\<close>; \<open>None\<close> is the failed assertion, which
  ends the program.\<close>

definition xmalloc :: "(u64 \<Rightarrow> ptr) \<Rightarrow> u64 \<Rightarrow> ptr option" where
  "xmalloc malloc sz = (let ret = malloc sz in if ret \<noteq> NULL then Some ret else None)"

definition xcalloc :: "(u64 \<Rightarrow> u64 \<Rightarrow> ptr) \<Rightarrow> u64 \<Rightarrow> u64 \<Rightarrow> ptr option" where
  "xcalloc calloc nmemb sz = (let ret = calloc nmemb sz in if ret \<noteq> NULL then Some ret else None)"

text \<open>\<^verbatim>\<open>vsnprintf\<close> of a text \<open>s\<close> into a buffer of \<open>sz\<close> bytes: the string the buffer
  holds afterwards (without the terminator) and the length the text would have needed.\<close>

definition vsnprintf :: "nat \<Rightarrow> string \<Rightarrow> string \<times> int" where
  "vsnprintf sz s = (take (sz - 1) s, int (length s))"

definition vscnprintf :: "nat \<Rightarrow> string \<Rightarrow> string \<times> int" where
  "vscnprintf sz s = (case vsnprintf sz s of (buf, i) \<Rightarrow>
     if i < int sz then (buf, i) else if sz \<noteq> 0 then (buf, int sz - 1) else (buf, 0))"

definition scnprintf :: "nat \<Rightarrow> string \<Rightarrow> string \<times> int" where
  "scnprintf sz s = vscnprintf sz s"

definition path__join :: "nat \<Rightarrow> string \<Rightarrow> string \<Rightarrow> string \<times> int" where
  "path__join sz path1 path2 =
     scnprintf sz (path1 @ (if path1 \<noteq> [] then ''/'' else '''') @ path2)"

definition uu_symbol__join_symfs :: "nat \<Rightarrow> string \<Rightarrow> string \<times> int" where
  "uu_symbol__join_symfs sz path = path__join sz '''' path"

text \<open>\<^verbatim>\<open>S_ISREG\<close> of the mode word: type field \<^verbatim>\<open>S_IFREG\<close>.\<close>

definition S_ISREG :: "u32 \<Rightarrow> bool" where
  "S_ISREG mode \<longleftrightarrow> mode AND 0xF000 = 0x8000"

definition is_regular_file :: "os \<Rightarrow> string \<Rightarrow> bool" where
  "is_regular_file E file = (case os_stat E file of (rc, mode) \<Rightarrow> if rc \<noteq> 0 then False else S_ISREG mode)"

section \<open>utility.h\<close>

definition uu_ALIGN_MASK :: "u64 \<Rightarrow> u64 \<Rightarrow> u64" where
  "uu_ALIGN_MASK x m = (x + m) AND NOT m"

definition ALIGN :: "u64 \<Rightarrow> u64 \<Rightarrow> u64" where
  "ALIGN x a = uu_ALIGN_MASK x (a - 1)"

text \<open>The macros \<^verbatim>\<open>swap\<close> and \<^verbatim>\<open>min\<close>, on two variables of one type.\<close>

definition swap_vars :: "'a \<Rightarrow> 'a \<Rightarrow> 'a \<times> 'a" where
  "swap_vars x y = (let tmp = x; x = y; y = tmp in (x, y))"

definition min_of :: "u64 \<Rightarrow> u64 \<Rightarrow> u64" where
  "min_of x y = (let min1 = x; min2 = y in if min1 < min2 then min1 else min2)"

text \<open>\<^verbatim>\<open>rdclock\<close> on the time that \<^verbatim>\<open>clock_gettime\<close> stored: the seconds and the nanoseconds, in
  \<^verbatim>\<open>unsigned long long\<close> arithmetic.\<close>

record timespec =
  tv_sec :: u64
  tv_nsec :: u64

definition rdclock :: "timespec \<Rightarrow> u64" where
  "rdclock ts = tv_sec ts * 1000000000 + tv_nsec ts"

section \<open>refcount.h\<close>

text \<open>\<^verbatim>\<open>refcount_t\<close> is an atomic 32-bit counter. These are the operations of a thread that runs alone;
  \<^verbatim>\<open>refcount_dec_and_test\<close> is two atomic steps, between which other threads may run (theory
  \<^verbatim>\<open>Refcount_Threads\<close>).\<close>

definition refcount_set :: "u32 \<Rightarrow> u32" where
  "refcount_set n = atomic_store 0 n"

definition refcount_read :: "u32 \<Rightarrow> u32" where
  "refcount_read r = fst (atomic_load r)"

definition refcount_inc :: "u32 \<Rightarrow> u32" where
  "refcount_inc r = snd (atomic_fetch_add r 1)"

definition refcount_dec_and_test :: "u32 \<Rightarrow> bool \<times> u32" where
  "refcount_dec_and_test r = (let (_, r) = atomic_fetch_sub r 1; (v, r) = atomic_load r in (v = 0, r))"

section \<open>rwsem.c\<close>

text \<open>A \<^verbatim>\<open>pthread_rwlock_t\<close>: \<open>Readers n\<close> is held by \<open>n + 1\<close> readers. An operation that would block
  is \<open>None\<close>; unlocking a lock that is not held is undefined and \<open>None\<close> as well.\<close>

datatype rwlock = Free | Readers nat | Writer

definition pthread_rwlock_rdlock :: "rwlock \<Rightarrow> (int \<times> rwlock) option" where
  "pthread_rwlock_rdlock l = (case l of Free \<Rightarrow> Some (0, Readers 0) | Readers n \<Rightarrow> Some (0, Readers (Suc n)) | Writer \<Rightarrow> None)"

definition pthread_rwlock_wrlock :: "rwlock \<Rightarrow> (int \<times> rwlock) option" where
  "pthread_rwlock_wrlock l = (case l of Free \<Rightarrow> Some (0, Writer) | _ \<Rightarrow> None)"

definition pthread_rwlock_unlock :: "rwlock \<Rightarrow> (int \<times> rwlock) option" where
  "pthread_rwlock_unlock l = (case l of
     Free \<Rightarrow> None
   | Readers 0 \<Rightarrow> Some (0, Free)
   | Readers (Suc n) \<Rightarrow> Some (0, Readers n)
   | Writer \<Rightarrow> Some (0, Free))"

definition init_rwsem :: "rwlock \<Rightarrow> int \<times> rwlock" where
  "init_rwsem sem = (0, Free)"

definition exit_rwsem :: "rwlock \<Rightarrow> int" where
  "exit_rwsem sem = (if sem = Free then 0 else 16)"

definition down_read :: "bool \<Rightarrow> rwlock \<Rightarrow> (int \<times> rwlock) option" where
  "down_read singlethreaded sem = (if singlethreaded then Some (0, sem) else pthread_rwlock_rdlock sem)"

definition up_read :: "bool \<Rightarrow> rwlock \<Rightarrow> (int \<times> rwlock) option" where
  "up_read singlethreaded sem = (if singlethreaded then Some (0, sem) else pthread_rwlock_unlock sem)"

definition down_write :: "bool \<Rightarrow> rwlock \<Rightarrow> (int \<times> rwlock) option" where
  "down_write singlethreaded sem = (if singlethreaded then Some (0, sem) else pthread_rwlock_wrlock sem)"

definition up_write :: "bool \<Rightarrow> rwlock \<Rightarrow> (int \<times> rwlock) option" where
  "up_write singlethreaded sem = (if singlethreaded then Some (0, sem) else pthread_rwlock_unlock sem)"

text \<open>A critical section: what a client runs between taking and releasing a lock.\<close>

definition with_lock ::
  "(bool \<Rightarrow> rwlock \<Rightarrow> (int \<times> rwlock) option) \<Rightarrow> (bool \<Rightarrow> rwlock \<Rightarrow> (int \<times> rwlock) option) \<Rightarrow>
   bool \<Rightarrow> rwlock \<Rightarrow> 'a option \<Rightarrow> ('a \<times> rwlock) option" where
  "with_lock down up st l body = do {
     (_, l) \<leftarrow> down st l;
     x \<leftarrow> body;
     (_, l) \<leftarrow> up st l;
     Some (x, l) }"

locale lock_pair =
  fixes down up :: "bool \<Rightarrow> rwlock \<Rightarrow> (int \<times> rwlock) option"
  assumes paired: "down st l = Some (r, l') \<Longrightarrow> up st l' = Some (0, l)"
    and single: "down True l = Some (0, l)" "up True l = Some (0, l)"
    and free: "\<exists>l'. down st Free = Some (0, l')"
begin

lemma section_releases: "with_lock down up st l body = Some (x, l') \<Longrightarrow> l' = l \<and> body = Some x"
  using paired by (fastforce simp: with_lock_def bind_eq_Some)

lemma section_runs: "body = Some x \<Longrightarrow> with_lock down up st Free body = Some (x, Free)"
  using free [of st] paired by (fastforce simp: with_lock_def)

lemma section_single: "with_lock down up True l body = map_option (\<lambda>x. (x, l)) body"
  using single by (cases body) (simp_all add: with_lock_def)

end

interpretation read_lock: lock_pair down_read up_read
  by unfold_locales (auto simp: down_read_def up_read_def pthread_rwlock_rdlock_def pthread_rwlock_unlock_def
      split: rwlock.splits nat.splits if_splits)

interpretation write_lock: lock_pair down_write up_write
  by unfold_locales (auto simp: down_write_def up_write_def pthread_rwlock_wrlock_def pthread_rwlock_unlock_def
      split: rwlock.splits nat.splits if_splits)

section \<open>Lemmas\<close>

text \<open>The value \<^verbatim>\<open>scnprintf\<close> returns is the number of characters it stored.\<close>

lemma scnprintf_stored: "snd (scnprintf sz s) = int (length (fst (scnprintf sz s)))"
  by (auto simp: scnprintf_def vscnprintf_def vsnprintf_def)

lemma scnprintf_fits: "length (fst (scnprintf sz s)) < sz \<or> sz = 0"
  by (auto simp: scnprintf_def vscnprintf_def vsnprintf_def)

lemma join_symfs_short: "length path < sz \<Longrightarrow> uu_symbol__join_symfs sz path = (path, int (length path))"
  by (simp add: uu_symbol__join_symfs_def path__join_def scnprintf_def vscnprintf_def vsnprintf_def)

text \<open>The memory a caller of the allocators gets is never the null pointer, so no caller tests it.\<close>

lemma xmalloc_nonnull: "xmalloc malloc sz = Some p \<longleftrightarrow> malloc sz = p \<and> p \<noteq> NULL"
  by (auto simp: xmalloc_def Let_def)

lemma xcalloc_nonnull: "xcalloc calloc n sz = Some p \<longleftrightarrow> calloc n sz = p \<and> p \<noteq> NULL"
  by (auto simp: xcalloc_def Let_def)

lemma min_of_min: "min_of x y = min x y"
  by (auto simp: min_of_def min_def Let_def)

text \<open>The difference of two readings is the elapsed time in nanoseconds, as the clock counts it, even when the 64-bit product
  has wrapped in between, as long as the elapsed time fits a word.\<close>

lemma rdclock_elapsed:
  assumes "unat (tv_sec t2) * 1000000000 + unat (tv_nsec t2) = unat (tv_sec t1) * 1000000000 + unat (tv_nsec t1) + d"
  shows "rdclock t2 - rdclock t1 = of_nat d"
proof -
  have r: "rdclock t = of_nat (unat (tv_sec t) * 1000000000 + unat (tv_nsec t))" for t
    by (simp add: rdclock_def)
  show ?thesis unfolding r assms by simp
qed

end
