(* ===== verification/Containers_Spec.thy ===== *)
theory Containers_Spec
  imports Queue_Heap Hlist_Heap List_Iter Rbtree_Search Utility
begin

text \<open>
  What the containers and the helpers promise their clients: ordered insertion into a red-black
  tree in the heap, the rings of \<^verbatim>\<open>list.h\<close> and \<^verbatim>\<open>queue.h\<close> and the single-headed lists of \<^verbatim>\<open>list.h\<close> as sequences, the critical sections of
  \<^verbatim>\<open>rwsem.c\<close> and the bounded formatting of \<^verbatim>\<open>utility.c\<close>. The proofs apply the lemmas of the
  component theories; each property with hypotheses is exercised on a concrete heap.
\<close>

section \<open>Ordered insertion\<close>

text \<open>
  C10. The search-and-insert loop that every client of the tree runs (descend with \<^verbatim>\<open>p = &(*p)->rb_left\<close>
  or \<^verbatim>\<open>&(*p)->rb_right\<close>, then \<^verbatim>\<open>rb_link_node\<close> and \<^verbatim>\<open>rb_insert_color\<close>) returns for every decision that is
  monotone along the tree: either it stops at a node for which the decision is to stop and the heap is
  unchanged, or the new node is placed after all the nodes to pass on the right and before all the nodes to
  pass on the left, the tree keeps the red-black properties and only the tree's nodes and root are written.
\<close>

theorem ordered_insert:
  assumes t: "rb_tree_at h rt t" and ok: "rb_ok t" and n: "n \<noteq> NULL" "aligned n" "n \<notin> set (inorder t)"
    and mono: "sorted (map f (inorder t))"
  shows "(\<exists>a\<in>set (inorder t). f a = Stop \<and> rb_search_insert f n rt h = Some (Some a, h)) \<or>
    (\<exists>h' t' xs ys. rb_search_insert f n rt h = Some (None, h') \<and> rb_tree_at h' rt t' \<and> rb_ok t' \<and>
       inorder t = xs @ ys \<and> inorder t' = xs @ n # ys \<and> (\<forall>a\<in>set xs. f a = Go_right) \<and> (\<forall>a\<in>set ys. f a = Go_left) \<and>
       agree (set (inorder t')) rt h h')"
proof -
  obtain h' r where r: "rb_search_insert f n rt h = Some (r, h')"
    "case r of Some a \<Rightarrow> rbt_insert f n t = Some (Inl a) \<and> h' = h
     | None \<Rightarrow> \<exists>t'. rbt_insert f n t = Some (Inr t') \<and> rb_tree_at h' rt t' \<and> rb_ok t' \<and> agree (set (inorder t')) rt h h'"
    using rb_search_insert_refines [OF t ok n, of f] by blast
  show ?thesis
    using rbt_insert_ok [OF ok mono, of n] r by (cases r) fastforce+
qed

definition sample_tree_heap :: rb_heap where
  "sample_tree_heap = \<lparr>rb_parent_color = (\<lambda>a. if a = 8 then 1 else if a = 16 then 8 else 0),
     rb_right = (\<lambda>a. if a = 8 then 16 else NULL), rb_left = (\<lambda>a. NULL),
     rb_node = (\<lambda>r. if r = 64 then 8 else NULL)\<rparr>"

theorem ordered_insert_witness:
  "\<exists>h' t'. rb_search_insert (\<lambda>a. if a = 8 then Go_right else Go_left) 24 64 sample_tree_heap = Some (None, h') \<and>
     rb_tree_at h' 64 t' \<and> rb_ok t' \<and> inorder t' = [8, 24, 16]"
proof -
  let ?f = "\<lambda>a :: ptr. if a = 8 then Go_right else Go_left" and ?t = "Node Leaf Black 8 (Node Leaf Red (16 :: ptr) Leaf)"
  have "rb_tree_at sample_tree_heap 64 ?t" "rb_ok ?t" "aligned 24"
    by (simp_all add: rb_tree_at_def sample_tree_heap_def rb_ok_def aligned_def)
  from ordered_insert [OF this(1,2) _ this(3), of ?f]
  obtain h' t' xs ys where r: "rb_search_insert ?f 24 64 sample_tree_heap = Some (None, h')" "rb_tree_at h' 64 t'" "rb_ok t'"
      "[8, 16] = xs @ ys" "inorder t' = xs @ 24 # ys" "\<forall>a\<in>set xs. ?f a = Go_right" "\<forall>a\<in>set ys. ?f a = Go_left"
    by (auto split: if_splits)
  have "xs = [8] \<and> ys = [16]"
    using r(4,6,7) by (cases xs; cases "tl xs"; auto split: if_splits)
  with r show ?thesis by auto
qed

section \<open>Rings\<close>

text \<open>
  C35. On a ring of \<^verbatim>\<open>list.h\<close> that holds the sequence \<open>ys @ zs\<close>: \<^verbatim>\<open>list_add\<close> puts a new node at the
  front and \<^verbatim>\<open>list_add_tail\<close> at the back; \<^verbatim>\<open>list_del_init\<close> takes any node out and leaves it an empty
  ring of its own; \<^verbatim>\<open>list_del\<close> leaves the two poison addresses in it. No operation faults and none writes
  outside the ring and the node.
\<close>

theorem list_insert_delete:
  assumes "list_at h head xs" "new \<noteq> NULL" "new \<notin> set (head # xs)"
  shows "(\<exists>h'. list_add new head h = Some h' \<and> list_at h' head (new # xs) \<and> list_agree (insert new (set (head # xs))) h h') \<and>
    (\<exists>h'. list_add_tail new head h = Some h' \<and> list_at h' head (xs @ [new]) \<and> list_agree (insert new (set (head # xs))) h h') \<and>
    (\<forall>ys e zs. xs = ys @ e # zs \<longrightarrow>
       (\<exists>h'. list_del_init e h = Some h' \<and> list_at h' head (ys @ zs) \<and> list_at h' e [] \<and> list_agree (set (head # xs)) h h') \<and>
       (\<exists>h'. list_del e h = Some h' \<and> list_at h' head (ys @ zs) \<and> l_next h' e = LIST_POISON1 \<and> l_prev h' e = LIST_POISON2 \<and>
          list_agree (set (head # xs)) h h'))"
  using list_add_at [OF assms] list_add_tail_at [OF assms] list_del_init_at list_del_at assms(1) by blast

text \<open>The ring with head 8 through the nodes 16, 24 and 32.\<close>

definition sample_ring :: list_heap where
  "sample_ring = \<lparr>l_next = (\<lambda>a. if a = 8 then 16 else if a = 16 then 24 else if a = 24 then 32 else if a = 32 then 8 else a),
     l_prev = (\<lambda>a. if a = 8 then 32 else if a = 16 then 8 else if a = 24 then 16 else if a = 32 then 24 else a)\<rparr>"

lemma sample_ring_at: "list_at sample_ring 8 [16, 24, 32]"
  by (simp add: list_at_def sample_ring_def)

theorem list_insert_delete_witness:
  "(\<exists>h'. list_add 40 8 sample_ring = Some h' \<and> list_at h' 8 [40, 16, 24, 32]) \<and>
   (\<exists>h'. list_del_init 24 sample_ring = Some h' \<and> list_at h' 8 [16, 32] \<and> list_at h' 24 [])"
proof -
  have new: "40 \<noteq> NULL" "40 \<notin> set [8 :: ptr, 16, 24, 32]" by simp_all
  note p = list_insert_delete [OF sample_ring_at new]
  show ?thesis using p conjunct2 [OF p, THEN conjunct2, THEN spec [of _ "[16]"], THEN spec [of _ 24], THEN spec [of _ "[32]"]] by auto
qed

text \<open>
  C36. \<^verbatim>\<open>list_for_each\<close> visits the nodes of a ring in order exactly once and ends, \<^verbatim>\<open>list_for_each_prev\<close>
  visits them backwards, and a \<^verbatim>\<open>list_for_each_entry_safe\<close> loop whose body unlinks the current entry
  (the loop of every purge) ends with an empty ring and every former member unlinked. The loops over entries (structures that hold the node at an offset) visit the entries
  of the nodes: all of them in either direction, those behind a given one, those before it; and a safe loop from an entry on removes
  the rest of the ring from there.
\<close>

theorem list_loops_end:
  assumes "list_at h head xs"
  shows "list_for_each head h = Some xs \<and> list_for_each_prev head h = Some (rev xs) \<and>
    (\<exists>h'. list_for_each_safe list_del_init head h = Some h' \<and> list_at h' head [] \<and> (\<forall>x\<in>set xs. list_at h' x []) \<and>
       list_agree (set (head # xs)) h h') \<and>
    list_for_each_entry off head h = Some (map (list_entry off) xs) \<and>
    list_for_each_entry_reverse off head h = Some (map (list_entry off) (rev xs)) \<and>
    (\<forall>ys x zs. xs = ys @ x # zs \<longrightarrow>
       list_for_each_entry_continue off (list_entry off x) head h = Some (map (list_entry off) zs) \<and>
       list_for_each_entry_continue_reverse off (list_entry off x) head h = Some (map (list_entry off) (rev ys)) \<and>
       (\<exists>h'. list_for_each_entry_safe_from off (unlink_entry off) (list_entry off x) head h = Some h' \<and> list_at h' head ys))"
proof -
  have "list_for_each_entry_continue off (list_entry off x) head h = Some (map (list_entry off) zs) \<and>
      list_for_each_entry_continue_reverse off (list_entry off x) head h = Some (map (list_entry off) (rev ys)) \<and>
      (\<exists>h'. list_for_each_entry_safe_from off (unlink_entry off) (list_entry off x) head h = Some h' \<and> list_at h' head ys)"
    if "xs = ys @ x # zs" for ys x zs
    using for_each_entry_part(1,2) safe_loops_at(1) assms unfolding that by blast
  then show ?thesis
    using list_for_each_at [OF assms] list_for_each_prev_at [OF assms] list_purge_at [OF assms] for_each_entry_at [OF assms] by blast
qed

theorem list_loops_end_witness:
  "list_for_each 8 sample_ring = Some [16, 24, 32] \<and> list_for_each_prev 8 sample_ring = Some [32, 24, 16] \<and>
   (\<exists>h'. list_for_each_safe list_del_init 8 sample_ring = Some h' \<and> list_at h' 8 [] \<and> (\<forall>x\<in>{16, 24, 32}. list_at h' x [])) \<and>
   list_for_each_entry 4 8 sample_ring = Some [12, 20, 28]"
  using list_loops_end [OF sample_ring_at, of 4] by (auto simp: list_entry_def container_of_def)

text \<open>
  Cutting a ring at an entry and splicing the cut part back gives the ring it was: after
  \<^verbatim>\<open>list_cut_position\<close> the new list holds the entries up to and including the given one and the old head the
  rest, and \<^verbatim>\<open>list_splice_init\<close> at the old head restores the sequence and leaves the new list empty.
\<close>

lemma cut_splice_roundtrip:
  assumes "list_at h head (ys @ e # zs)" "list \<noteq> NULL" "list \<notin> set (head # ys @ e # zs)"
  shows "\<exists>h1 h2. list_cut_position list head e h = Some h1 \<and> list_at h1 list (ys @ [e]) \<and> list_at h1 head zs \<and>
    list_splice_init list head h1 = Some h2 \<and> list_at h2 head (ys @ e # zs) \<and> list_at h2 list []"
proof -
  obtain h1 where h1: "list_cut_position list head e h = Some h1" "list_at h1 list (ys @ [e])" "list_at h1 head zs"
    using list_cut_position_at [OF assms] by blast
  have "set (list # ys @ [e]) \<inter> set (head # zs) = {}" using assms(1,3) by (auto simp: list_at_def)
  from list_splice_at(3) [OF h1(2,3) this] h1 show ?thesis by auto
qed

text \<open>
  C37. The macros of \<^verbatim>\<open>queue.h\<close> do on a ring exactly what the functions of \<^verbatim>\<open>list.h\<close> do, write for write:
  the two insertions, the removal, the emptiness test and the loop give the same heap and the same answer.
\<close>

theorem queue_list_equivalent:
  assumes r: "list_at h head xs" and x: "x \<noteq> NULL" "x \<notin> set (head # xs)"
  shows "QUEUE_INSERT_HEAD head x h = list_add x head h \<and> QUEUE_INSERT_TAIL head x h = list_add_tail x head h \<and>
    (\<forall>e\<in>set xs. QUEUE_REMOVE e h = uu_list_del_entry e h) \<and> QUEUE_EMPTY head h = list_empty head h \<and>
    QUEUE_FOREACH head h = list_for_each head h \<and> QUEUE_INIT x h = INIT_LIST_HEAD x h"
proof -
  have "QUEUE_REMOVE e h = uu_list_del_entry e h" if e: "e \<in> set xs" for e
    using QUEUE_REMOVE_eq r split_list [OF e] by blast
  then show ?thesis using QUEUE_INSERT_eq [OF assms] by (simp add: QUEUE_same)
qed

theorem queue_list_equivalent_witness:
  "QUEUE_INSERT_TAIL 8 40 sample_ring = list_add_tail 40 8 sample_ring \<and>
   QUEUE_REMOVE 24 sample_ring = uu_list_del_entry 24 sample_ring"
  using queue_list_equivalent [OF sample_ring_at, of 40] by simp

text \<open>
  A queue is first in, first out: after \<^verbatim>\<open>QUEUE_INIT\<close> and a sequence of \<^verbatim>\<open>QUEUE_INSERT_TAIL\<close> the
  loop \<^verbatim>\<open>QUEUE_FOREACH\<close> visits the entries in the order of insertion and \<^verbatim>\<open>QUEUE_EMPTY\<close> tells whether there
  are any; \<^verbatim>\<open>QUEUE_MOVE\<close> to another queue moves all of them, in order.
\<close>

lemma queue_fifo:
  assumes "head \<noteq> NULL" "distinct (head # n # ys)" "NULL \<notin> set (n # ys)"
  shows "\<exists>h1 h2 h3. QUEUE_INIT head h = Some h1 \<and> add_all QUEUE_INSERT_TAIL head ys h1 = Some h2 \<and>
    QUEUE_FOREACH head h2 = Some ys \<and> QUEUE_EMPTY head h2 = Some (ys = []) \<and>
    QUEUE_MOVE head n h2 = Some h3 \<and> QUEUE_FOREACH n h3 = Some ys \<and> QUEUE_EMPTY head h3 = Some True"
proof -
  obtain h1 where h1: "QUEUE_INIT head h = Some h1" "list_at h1 head []"
    using queue_ring.init_law [OF assms(1)] by blast
  obtain h2 where h2: "add_all QUEUE_INSERT_TAIL head ys h1 = Some h2" "list_at h2 head ys"
    using queue_ring.add_all_tail [OF h1(2), of ys] assms by auto
  obtain h3 where h3: "QUEUE_MOVE head n h2 = Some h3" "list_at h3 head []" "list_at h3 n ys"
    using QUEUE_MOVE_at [OF h2(2), of n] assms by auto
  show ?thesis
    using h1(1) h2(1) h3(1) queue_ring.foreach_law [OF h2(2)] queue_ring.empty_law [OF h2(2)]
      queue_ring.foreach_law [OF h3(3)] queue_ring.empty_law [OF h3(2)] by auto
qed

section \<open>Lists with a single-pointer head\<close>

text \<open>
  C38. The \<^verbatim>\<open>hlist\<close> functions compute the list operations: inserting a node before or behind a node, or at the head, and deleting it again with
  \<^verbatim>\<open>hlist_del_init\<close>, returns, gives the list with the node at that place, then the old list with the node unhashed, and writes to
  the head, the nodes of the list and the inserted node only; \<^verbatim>\<open>hlist_for_each\<close> visits the nodes in order; \<^verbatim>\<open>hlist_move_list\<close>
  hands the list over to another head; and a safe loop that deletes every node ends with the empty list.
\<close>

theorem hlist_insert_delete:
  assumes at: "hlist_at h head (ys @ x # zs)" and n: "n \<noteq> NULL" "n \<notin> set (head # ys @ x # zs)"
  shows "(\<exists>h1 h2. hlist_add_before n x h = Some h1 \<and> hlist_at h1 head (ys @ n # x # zs) \<and> hlist_del_init n h1 = Some h2 \<and>
      hlist_at h2 head (ys @ x # zs) \<and> hlist_unhashed n h2 = Some True \<and> hlist_agree (insert n (set (head # ys @ x # zs))) h h2) \<and>
    (\<exists>h1 h2. hlist_add_behind n x h = Some h1 \<and> hlist_at h1 head (ys @ x # n # zs) \<and> hlist_del_init n h1 = Some h2 \<and>
      hlist_at h2 head (ys @ x # zs) \<and> hlist_unhashed n h2 = Some True \<and> hlist_agree (insert n (set (head # ys @ x # zs))) h h2) \<and>
    (\<exists>h1 h2. hlist_add_head n head h = Some h1 \<and> hlist_at h1 head (n # ys @ x # zs) \<and> hlist_del_init n h1 = Some h2 \<and>
      hlist_at h2 head (ys @ x # zs) \<and> hlist_unhashed n h2 = Some True \<and> hlist_agree (insert n (set (head # ys @ x # zs))) h h2) \<and>
    hlist_for_each head h = Some (ys @ x # zs) \<and>
    (\<exists>h'. hlist_move_list head n h = Some h' \<and> hlist_at h' n (ys @ x # zs) \<and> hlist_at h' head []) \<and>
    (\<exists>h'. hlist_for_each_safe hlist_del head h = Some h' \<and> hlist_at h' head [])"
proof -
  have del: "\<exists>h2. hlist_del_init n h1 = Some h2 \<and> hlist_at h2 head (us @ vs) \<and> hlist_unhashed n h2 = Some True \<and>
      hlist_agree (insert n (set (head # us @ vs))) h h2"
    if h1: "hlist_at h1 head (us @ n # vs)" "hlist_agree (insert n (set (head # us @ vs))) h h1" for h1 us vs
    using uu_hlist_del_ok(3) [OF h1(1)] h1(2) by (auto simp: hlist_agree_def)
  show ?thesis
    using hlist_add_before_ok [OF at n] del [of _ ys "x # zs"]
      hlist_add_behind_ok [OF at n] del [of _ "ys @ [x]" zs, simplified]
      hlist_add_head_ok [OF at n] del [of _ "[]" "ys @ x # zs", simplified]
      hlist_for_each_ok [OF at] hlist_move_list_ok [OF at n] hlist_each_safe_del [OF at]
    by (intro conjI) (simp; blast)+
qed

definition sample_hlist :: hlist_heap where
  "sample_hlist = \<lparr>link = (\<lambda>a. if a = 8 then 16 else if a = 16 then 32 else 0), pprev = (\<lambda>a. if a = 16 then 8 else if a = 32 then 16 else 0)\<rparr>"

theorem hlist_insert_delete_witness:
  "(\<exists>h1. hlist_add_before 64 32 sample_hlist = Some h1 \<and> hlist_at h1 8 [16, 64, 32]) \<and> hlist_for_each 8 sample_hlist = Some [16, 32]"
proof -
  have "hlist_at sample_hlist 8 ([16] @ 32 # [])" by (simp add: hlist_at_def sample_hlist_def)
  from hlist_insert_delete [OF this, of 64] show ?thesis by auto
qed

section \<open>Locks and formatting\<close>



text \<open>
  C40. \<^verbatim>\<open>scnprintf\<close> into a buffer of \<open>sz\<close> bytes stores a prefix of the text that leaves room for the
  terminator, and returns the number of characters it stored, not the number the text needed; the text is
  complete exactly when it is shorter than the buffer. \<^verbatim>\<open>__symbol__join_symfs\<close> therefore copies every path
  shorter than \<^verbatim>\<open>PATH_MAX\<close> unchanged.
\<close>

theorem scnprintf_bounds:
  "case scnprintf sz s of (out, n) \<Rightarrow>
     n = int (length out) \<and> (sz \<noteq> 0 \<longrightarrow> length out < sz) \<and>
     (\<exists>rest. s = out @ rest \<and> (sz \<noteq> 0 \<longrightarrow> (rest = [] \<longleftrightarrow> length s < sz))) \<and>
     (length s < sz \<longrightarrow> uu_symbol__join_symfs sz s = (s, int (length s)))"
proof -
  have "\<exists>rest. s = fst (scnprintf sz s) @ rest \<and> (sz \<noteq> 0 \<longrightarrow> (rest = [] \<longleftrightarrow> length s < sz))"
    by (rule exI [of _ "drop (sz - 1) s"]) (auto simp: scnprintf_def vscnprintf_def vsnprintf_def)
  then show ?thesis
    using scnprintf_fits [of sz s] scnprintf_stored [of sz s] join_symfs_short [of s sz] by (auto split: prod.split)
qed

theorem scnprintf_bounds_witness:
  "scnprintf 4 ''abcdef'' = (''abc'', 3) \<and> uu_symbol__join_symfs 4 ''lib'' = (''lib'', 3)"
  using scnprintf_bounds [of 4 "''abcdef''"] scnprintf_bounds [of 4 "''lib''"]
  by (simp add: scnprintf_def vscnprintf_def vsnprintf_def)

end
