(* ===== verification/Refcount_Threads.thy ===== *)
theory Refcount_Threads
  imports Utility
begin

text \<open>
  Several threads on one reference count. A get (\<^verbatim>\<open>refcount_inc\<close>) is one atomic step; a put is
  \<^verbatim>\<open>if (refcount_dec_and_test(&x->refcnt)) x__delete(x)\<close>, whose test (\<^verbatim>\<open>src/refcount.h\<close>) is an \<^verbatim>\<open>atomic_fetch_sub\<close> followed by
  a separate \<^verbatim>\<open>atomic_load\<close>: two steps, between which the other threads may run. The state counts how often the object
  was deleted and how often the counter was accessed after that.
\<close>

section \<open>Threads and their steps\<close>

text \<open>A worker is a thread or a table that owns references: \<open>Running n\<close> owns \<open>n\<close>; \<open>Testing n\<close> owns \<open>n\<close> and is between the two
  steps of a put.\<close>

datatype worker = Running nat | Testing nat

fun owned :: "worker \<Rightarrow> nat" where
  "owned (Running n) = n"
| "owned (Testing n) = n"

fun testing :: "worker \<Rightarrow> bool" where
  "testing (Running n) = False"
| "testing (Testing n) = True"

record rc_state =
  rc_refs :: atomic_uint
  rc_workers :: "worker list"
  rc_frees :: nat
  rc_late :: nat

text \<open>\<open>Get i j\<close>: worker \<open>j\<close> takes a reference from one that \<open>i\<close> owns; \<open>Sub j\<close> and \<open>Test j\<close>: the two steps of a put.\<close>

datatype rc_event = Get nat nat | Sub nat | Test nat

definition access_refs :: "rc_state \<Rightarrow> rc_state" where
  "access_refs s = s\<lparr>rc_late := rc_late s + (if rc_frees s = 0 then 0 else 1)\<rparr>"

definition get_step :: "nat \<Rightarrow> nat \<Rightarrow> rc_state \<Rightarrow> rc_state option" where
  "get_step i j s = (case rc_workers s ! j of
     Running n \<Rightarrow> if 0 < owned (rc_workers s ! i)
       then Some ((access_refs s)\<lparr>rc_refs := refcount_inc (rc_refs s), rc_workers := (rc_workers s)[j := Running (Suc n)]\<rparr>)
       else None
   | Testing n \<Rightarrow> None)"

definition sub_step :: "nat \<Rightarrow> rc_state \<Rightarrow> rc_state option" where
  "sub_step j s = (case rc_workers s ! j of
     Running (Suc n) \<Rightarrow>
       Some ((access_refs s)\<lparr>rc_refs := snd (atomic_fetch_sub (rc_refs s) 1), rc_workers := (rc_workers s)[j := Testing n]\<rparr>)
   | _ \<Rightarrow> None)"

definition test_step :: "nat \<Rightarrow> rc_state \<Rightarrow> rc_state option" where
  "test_step j s = (case rc_workers s ! j of
     Testing n \<Rightarrow>
       (let v = fst (atomic_load (rc_refs s));
            s' = (access_refs s)\<lparr>rc_workers := (rc_workers s)[j := Running n]\<rparr>
        in Some (if v = 0 then s'\<lparr>rc_frees := Suc (rc_frees s)\<rparr> else s'))
   | Running n \<Rightarrow> None)"

fun rc_step :: "rc_event \<Rightarrow> rc_state \<Rightarrow> rc_state option" where
  "rc_step (Get i j) s = (if i < length (rc_workers s) \<and> j < length (rc_workers s) then get_step i j s else None)"
| "rc_step (Sub j) s = (if j < length (rc_workers s) then sub_step j s else None)"
| "rc_step (Test j) s = (if j < length (rc_workers s) then test_step j s else None)"

fun rc_run :: "rc_event list \<Rightarrow> rc_state \<Rightarrow> rc_state option" where
  "rc_run [] s = Some s"
| "rc_run (e # es) s = do { s \<leftarrow> rc_step e s; rc_run es s }"

text \<open>All references, and the gets of a run.\<close>

definition total_owned :: "rc_state \<Rightarrow> nat" where
  "total_owned s = sum_list (map owned (rc_workers s))"

fun gets :: "rc_event list \<Rightarrow> nat" where
  "gets [] = 0"
| "gets (Get i j # es) = Suc (gets es)"
| "gets (_ # es) = gets es"

text \<open>An object with references, none of them being put, as its constructor and the gets leave it.\<close>

definition rc_start :: "rc_state \<Rightarrow> bool" where
  "rc_start s \<longleftrightarrow> rc_refs s = of_nat (total_owned s) \<and> 0 < total_owned s \<and> (\<forall>w\<in>set (rc_workers s). \<not> testing w) \<and> rc_frees s = 0 \<and> rc_late s = 0"

text \<open>A put runs alone: its two steps follow each other.\<close>

fun serial :: "rc_event list \<Rightarrow> bool" where
  "serial [] = True"
| "serial (Get i j # es) = serial es"
| "serial (Sub i # Test j # es) = (i = j \<and> serial es)"
| "serial _ = False"

section \<open>The invariant\<close>

definition rc_ok :: "rc_state \<Rightarrow> bool" where
  "rc_ok s \<longleftrightarrow> rc_refs s = of_nat (total_owned s) \<and> (0 < rc_frees s \<longrightarrow> total_owned s = 0) \<and>
     (total_owned s = 0 \<longrightarrow> 0 < rc_frees s \<or> (\<exists>w\<in>set (rc_workers s). testing w)) \<and>
     rc_frees s + length (filter testing (rc_workers s)) \<le> length (rc_workers s)"

lemma total_access [simp]: "total_owned (access_refs s) = total_owned s" "rc_workers (access_refs s) = rc_workers s"
  "rc_refs (access_refs s) = rc_refs s" "rc_frees (access_refs s) = rc_frees s"
  by (simp_all add: access_refs_def total_owned_def)

lemma owned_le_total: "j < length (rc_workers s) \<Longrightarrow> owned (rc_workers s ! j) \<le> total_owned s"
  unfolding total_owned_def by (metis elem_le_sum_list length_map nth_map)

lemma total_update:
  assumes "j < length (rc_workers s)"
  shows "sum_list (map owned ((rc_workers s)[j := w])) + owned (rc_workers s ! j) = total_owned s + owned w"
  using assms owned_le_total [OF assms] by (simp add: total_owned_def map_update sum_list_update)

lemma of_nat_u32_0: "n < 2 ^ 32 \<Longrightarrow> (of_nat n :: 32 word) = 0 \<longleftrightarrow> n = 0"
  by (auto simp: word_of_nat_eq_0_iff dest: nat_dvd_not_less)

lemma get_step_cases:
  assumes "get_step i j s = Some s'"
  obtains n where "rc_workers s ! j = Running n" "0 < owned (rc_workers s ! i)"
    "s' = (access_refs s)\<lparr>rc_refs := rc_refs s + 1, rc_workers := (rc_workers s)[j := Running (Suc n)]\<rparr>"
  using assms by (auto simp: get_step_def refcount_inc_def split: worker.splits if_splits)

lemma sub_step_cases:
  assumes "sub_step j s = Some s'"
  obtains n where "rc_workers s ! j = Running (Suc n)"
    "s' = (access_refs s)\<lparr>rc_refs := rc_refs s - 1, rc_workers := (rc_workers s)[j := Testing n]\<rparr>"
  using assms by (auto simp: sub_step_def split: worker.splits nat.splits)

lemma test_stepI:
  assumes "rc_workers s ! j = Testing n"
  shows "test_step j s = Some ((access_refs s)\<lparr>rc_workers := (rc_workers s)[j := Running n],
    rc_frees := rc_frees s + (if rc_refs s = 0 then 1 else 0)\<rparr>)"
  using assms by (simp add: test_step_def Let_def)

lemma test_step_cases:
  assumes "test_step j s = Some s'"
  obtains n where "rc_workers s ! j = Testing n"
    "s' = (access_refs s)\<lparr>rc_workers := (rc_workers s)[j := Running n], rc_frees := rc_frees s + (if rc_refs s = 0 then 1 else 0)\<rparr>"
  using assms by (cases "rc_workers s ! j") (simp add: test_step_def, simp add: test_stepI)

lemma get_step_ok:
  assumes "rc_ok s" "i < length (rc_workers s)" "j < length (rc_workers s)" "get_step i j s = Some s'"
  shows "rc_ok s' \<and> total_owned s' = Suc (total_owned s) \<and> rc_late s' = rc_late s"
proof -
  from assms(4) obtain n where n: "rc_workers s ! j = Running n" "0 < owned (rc_workers s ! i)"
    and s': "s' = (access_refs s)\<lparr>rc_refs := rc_refs s + 1, rc_workers := (rc_workers s)[j := Running (Suc n)]\<rparr>"
    by (rule get_step_cases)
  have t: "total_owned s' = Suc (total_owned s)" using total_update [OF assms(3), of "Running (Suc n)"] n by (simp add: s' total_owned_def)
  have f: "rc_frees s = 0" using assms(1) owned_le_total [OF assms(2)] n(2) by (auto simp: rc_ok_def)
  show ?thesis using assms(1,3) t f n(1) filter_update [OF assms(3), of testing "Running (Suc n)"]
    by (simp add: rc_ok_def s' access_refs_def)
qed

lemma sub_step_ok:
  assumes "rc_ok s" "j < length (rc_workers s)" "sub_step j s = Some s'"
  shows "rc_ok s' \<and> Suc (total_owned s') = total_owned s \<and> rc_late s' = rc_late s \<and> rc_frees s' = 0"
proof -
  from assms(3) obtain n where n: "rc_workers s ! j = Running (Suc n)"
    and s': "s' = (access_refs s)\<lparr>rc_refs := rc_refs s - 1, rc_workers := (rc_workers s)[j := Testing n]\<rparr>"
    by (rule sub_step_cases)
  have t: "Suc (total_owned s') = total_owned s" using total_update [OF assms(2), of "Testing n"] n by (simp add: s' total_owned_def)
  have f: "rc_frees s = 0" using assms(1) t by (auto simp: rc_ok_def)
  have r: "rc_refs s' = of_nat (total_owned s')" 
  proof -
    have "rc_refs s = of_nat (Suc (total_owned s'))" using assms(1) unfolding rc_ok_def t by simp
    moreover have "rc_refs s' = rc_refs s - 1" by (simp add: s')
    ultimately show ?thesis by simp
  qed
  have l: "length (filter testing (rc_workers s')) \<le> length (rc_workers s')" by (rule length_filter_le)
  have "Testing n \<in> set (rc_workers s')" using assms(2) by (simp add: s' set_update_memI)
  then have e: "\<exists>w\<in>set (rc_workers s'). testing w" by (rule bexI [rotated]) simp
  have q: "rc_late s' = rc_late s" "rc_frees s' = 0" using f by (simp_all add: s' access_refs_def)
  show ?thesis using t r l e q by (simp add: rc_ok_def)
qed

lemma test_step_ok:
  assumes "rc_ok s" "j < length (rc_workers s)" "test_step j s = Some s'" "total_owned s < 2 ^ 32"
  shows "rc_ok s' \<and> total_owned s' = total_owned s"
proof -
  from assms(3) obtain n where n: "rc_workers s ! j = Testing n"
    and s': "s' = (access_refs s)\<lparr>rc_workers := (rc_workers s)[j := Running n],
      rc_frees := rc_frees s + (if rc_refs s = 0 then 1 else 0)\<rparr>"
    by (rule test_step_cases)
  have t: "total_owned s' = total_owned s" using total_update [OF assms(2), of "Running n"] n by (simp add: s' total_owned_def)
  have r: "rc_refs s = 0 \<longleftrightarrow> total_owned s = 0" using assms(1) of_nat_u32_0 [OF assms(4)] by (simp add: rc_ok_def)
  show ?thesis using assms(1,2) t r n filter_update [OF assms(2), of testing "Running n"]
    by (auto simp: rc_ok_def s')
qed

lemma rc_run_ok:
  assumes "rc_ok s" "rc_run es s = Some s'" "total_owned s + gets es < 2 ^ 32"
  shows "rc_ok s' \<and> length (rc_workers s') = length (rc_workers s)"
  using assms
proof (induction es arbitrary: s)
  case Nil
  then show ?case by simp
next
  case (Cons e es)
  obtain s1 where s1: "rc_step e s = Some s1" "rc_run es s1 = Some s'" using Cons.prems(2) by (auto simp: bind_eq_Some_conv)
  have "rc_ok s1 \<and> total_owned s1 + gets es < 2 ^ 32 \<and> length (rc_workers s1) = length (rc_workers s)"
  proof (cases e)
    case (Get i j)
    then have g: "i < length (rc_workers s)" "j < length (rc_workers s)" "get_step i j s = Some s1" using s1(1) by (auto split: if_splits)
    from g(3) have "length (rc_workers s1) = length (rc_workers s)" by (rule get_step_cases) simp
    then show ?thesis using get_step_ok [OF Cons.prems(1) g] Cons.prems(3) Get by simp
  next
    case (Sub j)
    then have g: "j < length (rc_workers s)" "sub_step j s = Some s1" using s1(1) by (auto split: if_splits)
    from g(2) have "length (rc_workers s1) = length (rc_workers s)" by (rule sub_step_cases) simp
    then show ?thesis using sub_step_ok [OF Cons.prems(1) g] Cons.prems(3) Sub by simp
  next
    case (Test j)
    then have g: "j < length (rc_workers s)" "test_step j s = Some s1" using s1(1) by (auto split: if_splits)
    from g(2) have "length (rc_workers s1) = length (rc_workers s)" by (rule test_step_cases) simp
    then show ?thesis using test_step_ok [OF Cons.prems(1) g] Cons.prems(3) Test by simp
  qed
  then show ?case using Cons.IH [OF _ s1(2)] by simp
qed

lemma rc_start_ok: "rc_start s \<Longrightarrow> rc_ok s"
  by (auto simp: rc_start_def rc_ok_def)


section \<open>Puts that run alone\<close>

text \<open>Without a test pending, the two steps of a put are the sequential \<^verbatim>\<open>refcount_dec_and_test\<close>.\<close>

lemma put_is_dec_and_test:
  assumes "j < length (rc_workers s)" "rc_workers s ! j = Running (Suc n)" "rc_frees s = 0"
  shows "rc_run [Sub j, Test j] s = Some (s\<lparr>rc_refs := snd (refcount_dec_and_test (rc_refs s)),
    rc_workers := (rc_workers s)[j := Running n], rc_frees := if fst (refcount_dec_and_test (rc_refs s)) then 1 else 0\<rparr>)"
  using assms by (simp add: sub_step_def test_step_def access_refs_def refcount_dec_and_test_def Let_def)

definition rc_quiet :: "rc_state \<Rightarrow> bool" where
  "rc_quiet s \<longleftrightarrow> rc_ok s \<and> (\<forall>w\<in>set (rc_workers s). \<not> testing w) \<and> rc_late s = 0 \<and> rc_frees s = (if total_owned s = 0 then 1 else 0)"

lemma put_quiet:
  assumes q: "rc_quiet s" and run: "rc_run [Sub j, Test j] s = Some s'" and t: "total_owned s < 2 ^ 32"
  shows "rc_quiet s' \<and> total_owned s' < total_owned s"
proof -
  obtain s1 where s1: "j < length (rc_workers s)" "sub_step j s = Some s1" "j < length (rc_workers s1)" "test_step j s1 = Some s'"
    using run by (auto split: if_splits simp: bind_eq_Some_conv)
  have ok: "rc_ok s" using q by (simp add: rc_quiet_def)
  note a = sub_step_ok [OF ok s1(1,2)]
  have t1: "total_owned s1 < 2 ^ 32" using a t by simp
  have ok1: "rc_ok s1" using a by simp
  note b = test_step_ok [OF ok1 s1(3,4) t1]
  from s1(2) obtain n where n: "rc_workers s ! j = Running (Suc n)" "rc_workers s1 = (rc_workers s)[j := Testing n]"
    by (rule sub_step_cases) simp
  from s1(4) obtain m where m: "rc_workers s1 ! j = Testing m"
    and s': "s' = (access_refs s1)\<lparr>rc_workers := (rc_workers s1)[j := Running m],
      rc_frees := rc_frees s1 + (if rc_refs s1 = 0 then 1 else 0)\<rparr>" by (rule test_step_cases)
  have r: "rc_refs s1 = 0 \<longleftrightarrow> total_owned s1 = 0" using a of_nat_u32_0 [OF t1] by (simp add: rc_ok_def)
  have "rc_workers s' = (rc_workers s)[j := Running m]" by (simp add: s' n)
  then have w: "\<forall>w\<in>set (rc_workers s'). \<not> testing w" using q set_update_subset_insert [of "rc_workers s" j "Running m"]
    by (auto simp: rc_quiet_def)
  have l: "rc_late s' = 0" "rc_frees s' = (if total_owned s1 = 0 then 1 else 0)" using a q r by (simp_all add: s' access_refs_def rc_quiet_def)
  show ?thesis using a b w l by (simp add: rc_quiet_def)
qed

lemma get_quiet:
  assumes q: "rc_quiet s" and s: "rc_step (Get i j) s = Some s'"
  shows "rc_quiet s' \<and> total_owned s' = Suc (total_owned s)"
proof -
  have g: "i < length (rc_workers s)" "j < length (rc_workers s)" "get_step i j s = Some s'" using s by (auto split: if_splits)
  have ok: "rc_ok s" using q by (simp add: rc_quiet_def)
  from g(3) obtain n where n: "0 < owned (rc_workers s ! i)" "rc_workers s' = (rc_workers s)[j := Running n]" "rc_frees s' = rc_frees s"
    by (rule get_step_cases) simp
  have "0 < total_owned s" using owned_le_total [OF g(1)] n(1) by simp
  moreover have "\<forall>w\<in>set (rc_workers s'). \<not> testing w" using q set_update_subset_insert [of "rc_workers s" j "Running n"]
    by (auto simp: rc_quiet_def n(2))
  ultimately show ?thesis using get_step_ok [OF ok g] q n(3) by (simp add: rc_quiet_def)
qed

lemma serial_quiet:
  assumes "rc_quiet s" "serial es" "rc_run es s = Some s'" "total_owned s + gets es < 2 ^ 32"
  shows "rc_quiet s'"
  using assms
proof (induction es arbitrary: s rule: serial.induct)
  case (2 i j es)
  obtain s1 where s1: "rc_step (Get i j) s = Some s1" "rc_run es s1 = Some s'" using 2(4) by (auto simp: bind_eq_Some_conv)
  show ?case using 2(1) [OF _ _ s1(2)] get_quiet [OF 2(2) s1(1)] 2(3,5) by simp
next
  case (3 i j es)
  then have j: "j = i" by simp
  obtain s1 where s1: "rc_run [Sub i, Test i] s = Some s1" "rc_run es s1 = Some s'" using 3(4) j by (auto simp: bind_eq_Some_conv)
  have "total_owned s < 2 ^ 32" using 3(5) by simp
  note p = put_quiet [OF 3(2) s1(1) this]
  show ?case using 3(1) [OF _ _ s1(2)] p 3(3,5) by simp
qed simp_all

lemma rc_start_quiet: "rc_start s \<Longrightarrow> rc_quiet s"
  by (auto simp: rc_quiet_def rc_start_ok) (auto simp: rc_start_def)

lemma rc_run_append: "rc_run (xs @ ys) s = rc_run xs s \<bind> rc_run ys"
proof (induction xs arbitrary: s)
  case (Cons e es)
  then show ?case by (cases "rc_step e s") simp_all
qed simp

section \<open>Puts that overlap\<close>

text \<open>All workers subtract before the first of them tests: each then finds a counter of zero.\<close>

lemma all_subtract:
  "rc_workers s = replicate k (Testing 0) @ replicate n (Running 1) \<Longrightarrow> rc_frees s = 0 \<Longrightarrow>
   rc_run (map Sub [k..<k + n]) s = Some (s\<lparr>rc_refs := rc_refs s - of_nat n, rc_workers := replicate (k + n) (Testing 0)\<rparr>)"
proof (induction n arbitrary: k s)
  case 0
  then show ?case by simp
next
  case (Suc n)
  let ?s = "s\<lparr>rc_refs := rc_refs s - 1, rc_workers := replicate (Suc k) (Testing 0) @ replicate n (Running 1)\<rparr>"
  have "sub_step k s = Some ?s" using Suc.prems
    by (simp add: sub_step_def access_refs_def nth_append list_update_append replicate_append_same)
  moreover have "rc_run (map Sub [Suc k..<Suc k + n]) ?s
      = Some (?s\<lparr>rc_refs := rc_refs ?s - of_nat n, rc_workers := replicate (Suc k + n) (Testing 0)\<rparr>)"
    using Suc.prems by (intro Suc.IH) simp_all
  moreover have "[k..<k + Suc n] = k # [Suc k..<Suc k + n]" by (simp add: upt_conv_Cons del: upt_Suc)
  ultimately show ?case using Suc.prems(1) by (simp del: upt_Suc add: algebra_simps)
qed

lemma all_test:
  "rc_workers s = replicate k (Running 0) @ replicate n (Testing 0) \<Longrightarrow> rc_refs s = 0 \<Longrightarrow>
   \<exists>s'. rc_run (map Test [k..<k + n]) s = Some s' \<and> rc_frees s' = rc_frees s + n"
proof (induction n arbitrary: k s)
  case 0
  then show ?case by simp
next
  case (Suc n)
  let ?s = "(access_refs s)\<lparr>rc_workers := (rc_workers s)[k := Running 0], rc_frees := rc_frees s + (if rc_refs s = 0 then 1 else 0)\<rparr>"
  have w: "rc_workers s ! k = Testing 0" "k < length (rc_workers s)" using Suc.prems(1) by (simp_all add: nth_append)
  have "rc_workers ?s = replicate (Suc k) (Running 0) @ replicate n (Testing 0)"
    using Suc.prems(1) by (simp add: list_update_append replicate_append_same)
  from Suc.IH [OF this] Suc.prems(2)
  obtain s' where s': "rc_run (map Test [Suc k..<Suc k + n]) ?s = Some s'" "rc_frees s' = rc_frees ?s + n" by auto
  have "[k..<k + Suc n] = k # [Suc k..<Suc k + n]" by (simp add: upt_conv_Cons del: upt_Suc)
  then show ?case using s' w test_stepI [OF w(1)] Suc.prems(2) by (simp del: upt_Suc)
qed

definition one_each :: "nat \<Rightarrow> rc_state" where
  "one_each n = \<lparr>rc_refs = of_nat n, rc_workers = replicate n (Running 1), rc_frees = 0, rc_late = 0\<rparr>"

lemma overlapping_puts:
  "\<exists>s'. rc_run (map Sub [0..<n] @ map Test [0..<n]) (one_each n) = Some s' \<and> rc_frees s' = n"
proof -
  have a: "rc_run (map Sub [0..<0 + n]) (one_each n) = Some ((one_each n)\<lparr>rc_refs := rc_refs (one_each n) - of_nat n, rc_workers := replicate (0 + n) (Testing 0)\<rparr>)"
    by (rule all_subtract) (simp_all add: one_each_def)
  show ?thesis using all_test [of "(one_each n)\<lparr>rc_refs := 0, rc_workers := replicate n (Testing 0)\<rparr>" 0 n] a
    by (simp add: rc_run_append one_each_def)
qed

lemma one_each_start: "0 < n \<Longrightarrow> rc_start (one_each n)"
  by (simp add: rc_start_def one_each_def total_owned_def sum_list_replicate)

end
