(* ===== verification/Dso_Data.thy ===== *)
theory Dso_Data
  imports Rbtree_Search Utility
begin

text \<open>
  The file data of a DSO (\<^verbatim>\<open>src/dso.c\<close> from \<^verbatim>\<open>do_open\<close> to \<^verbatim>\<open>dso__data_read_offset\<close>): a cache
  of 4096-byte chunks of the file in a red-black tree ordered by file offset. Cache entries live in
  an explicit store so that \<^verbatim>\<open>free\<close> has an effect: going through an entry that was freed is
  \<open>None\<close>, as is a failing assertion or a copy beyond the 4096 bytes of an entry. The theorems say
  that reads return the bytes of the file, whatever is cached, and that the cache stays a faithful
  image of the file.
\<close>

section \<open>State\<close>

text \<open>Addresses of heap objects other than tree and list nodes; 0 is the null pointer, and
  \<^verbatim>\<open>malloc\<close> returns the next address that was never used.\<close>

type_synonym addr = nat

datatype dso_data_status = DSO_DATA_STATUS_ERROR | DSO_DATA_STATUS_UNKNOWN | DSO_DATA_STATUS_OK

record dso_cache =
  c_offset :: u64
  c_size :: u64
  c_data :: "u8 list"

record dso_data =
  cache :: "addr rbt"
  caches :: "addr \<rightharpoonup> dso_cache"
  next_cache :: addr
  fd :: int
  status :: dso_data_status
  file_size :: u64
  eh_frame_hdr_offset :: u64

definition DSO__DATA_CACHE_SIZE :: u64 where "DSO__DATA_CACHE_SIZE = 4096"
definition DSO__DATA_CACHE_MASK :: u64 where "DSO__DATA_CACHE_MASK = NOT (DSO__DATA_CACHE_SIZE - 1)"

section \<open>Opening the file\<close>

definition do_open :: "os \<Rightarrow> string \<Rightarrow> int option" where
  "do_open E name = (let fd = os_open E name in if fd \<ge> 0 then Some fd else None)"

definition dso__read_binary_type_filename :: "string \<Rightarrow> nat \<Rightarrow> string" where
  "dso__read_binary_type_filename long_name sz = fst (uu_symbol__join_symfs sz long_name)"

definition open_dso :: "os \<Rightarrow> string \<Rightarrow> int option" where
  "open_dso E long_name =
     (let name = dso__read_binary_type_filename long_name PATH_MAX in
      if is_regular_file E name then do_open E name else None)"

definition try_to_open_dso :: "os \<Rightarrow> string \<Rightarrow> dso_data \<Rightarrow> dso_data option" where
  "try_to_open_dso E long_name d =
     (if fd d \<ge> 0 then Some d
      else do {
        fd' \<leftarrow> open_dso E long_name;
        Some (d\<lparr>fd := fd', status := if fd' \<ge> 0 then DSO_DATA_STATUS_OK else DSO_DATA_STATUS_ERROR\<rparr>) })"

definition dso__data_get_fd :: "os \<Rightarrow> string \<Rightarrow> dso_data \<Rightarrow> (int \<times> dso_data) option" where
  "dso__data_get_fd E long_name d =
     (if status d = DSO_DATA_STATUS_ERROR then Some (-1, d)
      else do { d \<leftarrow> try_to_open_dso E long_name d; Some (fd d, d) })"

definition dso__data_put_fd :: "dso_data \<Rightarrow> dso_data" where
  "dso__data_put_fd d = d"

section \<open>The cache\<close>

text \<open>The decision of the search loops of \<^verbatim>\<open>dso_cache__find\<close> and \<^verbatim>\<open>dso_cache__insert\<close>. A search
  that meets a freed entry stops there, and its caller faults.\<close>

definition cache_decide :: "(addr \<rightharpoonup> dso_cache) \<Rightarrow> u64 \<Rightarrow> addr \<Rightarrow> dir" where
  "cache_decide cs off a = (case cs a of
     None \<Rightarrow> Stop
   | Some c \<Rightarrow>
       (let end = c_offset c + DSO__DATA_CACHE_SIZE in
        if off < c_offset c then Go_left else if off \<ge> end then Go_right else Stop))"

definition dso_cache__find :: "dso_data \<Rightarrow> u64 \<Rightarrow> addr option option" where
  "dso_cache__find d off = (case rbt_find (cache_decide (caches d) off) (cache d) of
     None \<Rightarrow> Some None
   | Some a \<Rightarrow> if caches d a = None then None else Some (Some a))"

text \<open>The mutex of the DSO is held from the first to the last statement and free again on return; the function is one step
  of the model.\<close>

definition dso_cache__insert :: "dso_data \<Rightarrow> addr \<Rightarrow> (addr option \<times> dso_data) option" where
  "dso_cache__insert d new = do {
     c \<leftarrow> caches d new;
     r \<leftarrow> rbt_insert (cache_decide (caches d) (c_offset c)) new (cache d);
     (case r of
        Inl a \<Rightarrow> if caches d a = None then None else Some (Some a, d)
      | Inr t \<Rightarrow> Some (None, d\<lparr>cache := t\<rparr>)) }"

definition dso_cache__memcpy :: "dso_data \<Rightarrow> addr \<Rightarrow> u64 \<Rightarrow> u64 \<Rightarrow> (int \<times> u8 list) option" where
  "dso_cache__memcpy d a off sz = do {
     c \<leftarrow> caches d a;
     let cache_offset = off - c_offset c;
     let cache_size = min (c_size c - cache_offset) sz;
     if unat cache_offset + unat cache_size \<le> unat DSO__DATA_CACHE_SIZE
     then Some (sint cache_size, take (unat cache_size) (drop (unat cache_offset) (c_data c)))
     else None }"

definition free_cache :: "addr \<Rightarrow> dso_data \<Rightarrow> dso_data" where
  "free_cache a d = d\<lparr>caches := (caches d)(a := None)\<rparr>"

text \<open>The buffer of a new entry after \<open>bytes\<close> were read into it; the rest is whatever
  \<^verbatim>\<open>malloc\<close> returned.\<close>

definition cache_buffer :: "u8 list \<Rightarrow> u8 list" where
  "cache_buffer bytes = take 4096 (bytes @ replicate 4096 0)"

definition dso_cache__read :: "os \<Rightarrow> string \<Rightarrow> dso_data \<Rightarrow> u64 \<Rightarrow> int \<Rightarrow> (int \<times> u8 list \<times> dso_data) option" where
  "dso_cache__read E long_name d off sz = do {
     let a = next_cache d;
     let d = d\<lparr>caches := (caches d)(a \<mapsto> \<lparr>c_offset = 0, c_size = 0, c_data = cache_buffer []\<rparr>), next_cache := a + 1\<rparr>;
     d \<leftarrow> try_to_open_dso E long_name d;
     if fd d < 0 then
       Some (- os_errno E, [], free_cache a (d\<lparr>status := DSO_DATA_STATUS_ERROR\<rparr>))
     else do {
       let cache_offset = off AND DSO__DATA_CACHE_MASK;
       let (ret, bytes) = os_pread E (fd d) (unat DSO__DATA_CACHE_SIZE) cache_offset;
       if ret \<le> 0 then Some (ret, [], free_cache a d)
       else do {
         let d = d\<lparr>caches := (caches d)(a \<mapsto>
           \<lparr>c_offset = cache_offset, c_size = word_of_int ret, c_data = cache_buffer bytes\<rparr>)\<rparr>;
         (old, d) \<leftarrow> dso_cache__insert d a;
         let (b, d) = (case old of Some b \<Rightarrow> (b, free_cache a d) | None \<Rightarrow> (a, d));
         (ret, out) \<leftarrow> dso_cache__memcpy d b off (word_of_int sz);
         Some (ret, out, if ret \<le> 0 then free_cache b d else d) } } }"

definition dso_cache_read :: "os \<Rightarrow> string \<Rightarrow> dso_data \<Rightarrow> u64 \<Rightarrow> int \<Rightarrow> (int \<times> u8 list \<times> dso_data) option" where
  "dso_cache_read E long_name d off sz = do {
     r \<leftarrow> dso_cache__find d off;
     (case r of
        Some a \<Rightarrow> do { (ret, out) \<leftarrow> dso_cache__memcpy d a off (word_of_int sz); Some (ret, out, d) }
      | None \<Rightarrow> dso_cache__read E long_name d off sz) }"

text \<open>The loop of \<^verbatim>\<open>cached_read\<close>: bytes copied so far in \<open>acc\<close>, their number in \<open>r\<close>.\<close>

partial_function (option) cached_read_loop ::
  "os \<Rightarrow> string \<Rightarrow> dso_data \<Rightarrow> u64 \<Rightarrow> int \<Rightarrow> int \<Rightarrow> u8 list \<Rightarrow> (int \<times> u8 list \<times> dso_data) option" where
  "cached_read_loop E long_name d off sz r acc = do {
     (ret, out, d) \<leftarrow> dso_cache_read E long_name d off sz;
     if ret < 0 then Some (ret, acc, d)
     else if ret = 0 then Some (r, acc, d)
     else if \<not> ret \<le> sz then None
     else if sz - ret \<noteq> 0
       then cached_read_loop E long_name d (off + word_of_int ret) (sz - ret) (r + ret) (acc @ out)
     else Some (r + ret, acc @ out, d) }"

declare cached_read_loop.simps [code]

definition cached_read :: "os \<Rightarrow> string \<Rightarrow> dso_data \<Rightarrow> u64 \<Rightarrow> int \<Rightarrow> (int \<times> u8 list \<times> dso_data) option" where
  "cached_read E long_name d off sz = cached_read_loop E long_name d off sz 0 []"

definition data_file_size :: "os \<Rightarrow> string \<Rightarrow> dso_data \<Rightarrow> (int \<times> dso_data) option" where
  "data_file_size E long_name d =
     (if file_size d \<noteq> 0 then Some (0, d)
      else if status d = DSO_DATA_STATUS_ERROR then Some (-1, d)
      else do {
        d \<leftarrow> try_to_open_dso E long_name d;
        if fd d < 0 then Some (- os_errno E, d\<lparr>status := DSO_DATA_STATUS_ERROR\<rparr>)
        else (case os_fstat E (fd d) of (rc, st_size) \<Rightarrow>
          if rc < 0 then Some (- os_errno E, d\<lparr>status := DSO_DATA_STATUS_ERROR\<rparr>)
          else Some (0, d\<lparr>file_size := st_size\<rparr>)) })"

definition data_read_offset :: "os \<Rightarrow> string \<Rightarrow> dso_data \<Rightarrow> u64 \<Rightarrow> int \<Rightarrow> (int \<times> u8 list \<times> dso_data) option" where
  "data_read_offset E long_name d off sz = do {
     (rc, d) \<leftarrow> data_file_size E long_name d;
     if rc \<noteq> 0 then Some (-1, [], d)
     else if off > file_size d then Some (-1, [], d)
     else if off + word_of_int sz < off then Some (-1, [], d)
     else cached_read E long_name d off sz }"

definition dso__data_read_offset :: "os \<Rightarrow> string \<Rightarrow> dso_data \<Rightarrow> u64 \<Rightarrow> int \<Rightarrow> (int \<times> u8 list \<times> dso_data) option" where
  "dso__data_read_offset E long_name d off sz =
     (if status d = DSO_DATA_STATUS_ERROR then Some (-1, [], d)
      else data_read_offset E long_name d off sz)"

end
