(* ===== verification/Dso.thy ===== *)
theory Dso
  imports Dso_Data "HOL-Library.Char_ord" "HOL-Library.List_Lexorder"
begin

text \<open>
  The set of DSOs of a machine (\<^verbatim>\<open>struct dsos\<close>, the name handling of \<^verbatim>\<open>src/dso.c\<close> and the
  \<^verbatim>\<open>dsos__*\<close> functions of \<^verbatim>\<open>src/dso.c\<close> and \<^verbatim>\<open>src/machine.c\<close>): each DSO is in a list and in a
  red-black tree ordered by long name. DSO objects live in a store from addresses to records; an access to
  an address outside the store is \<open>None\<close>. Strings are values: a string a DSO points to is not changed
  after it was set, so that the \<^verbatim>\<open>free\<close> of a name that is replaced at once has no effect here.
\<close>

section \<open>State\<close>

record dso =
  d_rb_empty :: bool
  d_root :: bool
  d_data :: dso_data
  d_short_name :: string
  d_long_name :: string
  d_long_name_len :: u16
  d_short_name_len :: u16
  d_short_name_allocated :: bool
  d_long_name_allocated :: bool
  d_refcnt :: u32
  d_name :: string

text \<open>The part of the state the DSO functions work on: the store, the allocator, the global
  \<^verbatim>\<open>singlethreaded\<close> of \<^verbatim>\<open>rwsem.c\<close> and the machine's \<^verbatim>\<open>struct dsos\<close>. Later components extend it.\<close>

record dso_state =
  dso_st :: "addr \<rightharpoonup> dso"
  next_addr :: addr
  singlethreaded :: bool
  dsos_head :: "addr list"
  dsos_root :: "addr rbt"
  dsos_lock :: rwlock

definition upd_dso :: "addr \<Rightarrow> (dso \<Rightarrow> dso) \<Rightarrow> 'a dso_state_scheme \<Rightarrow> 'a dso_state_scheme option" where
  "upd_dso a f s = (case dso_st s a of Some d \<Rightarrow> Some (s\<lparr>dso_st := (dso_st s)(a \<mapsto> f d)\<rparr>) | None \<Rightarrow> None)"

section \<open>Strings\<close>

text \<open>\<^verbatim>\<open>strcmp\<close>: the callers use the sign only; the order is that of unsigned characters.\<close>

fun strcmp :: "string \<Rightarrow> string \<Rightarrow> int" where
  "strcmp [] [] = 0"
| "strcmp [] (b # bs) = - 1"
| "strcmp (a # as) [] = 1"
| "strcmp (a # as) (b # bs) =
     (if a = b then strcmp as bs else if (of_char a :: nat) < of_char b then - 1 else 1)"

text \<open>\<^verbatim>\<open>basename\<close> of \<^verbatim>\<open><libgen.h>\<close>.\<close>

definition basename :: "string \<Rightarrow> string" where
  "basename path =
     (if path = [] then ''.''
      else let p = dropWhile (\<lambda>c. c = CHR ''/'') (rev path) in
        if p = [] then ''/'' else rev (takeWhile (\<lambda>c. c \<noteq> CHR ''/'') p))"

section \<open>Long names\<close>

text \<open>The decision of the loop of \<^verbatim>\<open>__dso__findlink_by_longname\<close>; \<open>dso\<close> is 0 in a pure lookup.\<close>

definition findlink_decide :: "(addr \<rightharpoonup> dso) \<Rightarrow> addr \<Rightarrow> string \<Rightarrow> addr \<Rightarrow> dir" where
  "findlink_decide st dso name this = (case st this of
     None \<Rightarrow> Stop
   | Some t \<Rightarrow>
       (let rc = strcmp name (d_long_name t) in
        if rc = 0 then
          if dso = 0 \<or> dso = this then Stop
          else (case st dso of
              None \<Rightarrow> Stop
            | Some d \<Rightarrow>
                (let rc = strcmp (d_short_name d) (d_short_name t) in
                 if rc = 0 then Stop else if rc < 0 then Go_left else Go_right))
        else if rc < 0 then Go_left else Go_right))"

definition uu_dso__findlink_by_longname ::
  "'a dso_state_scheme \<Rightarrow> addr \<Rightarrow> string option \<Rightarrow> (addr \<times> 'a dso_state_scheme) option" where
  "uu_dso__findlink_by_longname s dso name = do {
     name \<leftarrow> (case name of Some n \<Rightarrow> Some n | None \<Rightarrow> map_option d_long_name (dso_st s dso));
     if dso = 0 then
       (case rbt_find (findlink_decide (dso_st s) dso name) (dsos_root s) of
          Some this \<Rightarrow> if dso_st s this = None then None else Some (this, s)
        | None \<Rightarrow> Some (0, s))
     else do {
       r \<leftarrow> rbt_insert (findlink_decide (dso_st s) dso name) dso (dsos_root s);
       (case r of
          Inl this \<Rightarrow> if dso_st s this = None \<or> dso_st s dso = None then None
            else if dso = this then Some (this, s) else Some (0, s)
        | Inr t \<Rightarrow> do {
            s \<leftarrow> upd_dso dso (\<lambda>d. d\<lparr>d_rb_empty := False, d_root := True\<rparr>) (s\<lparr>dsos_root := t\<rparr>);
            Some (0, s) }) } }"

definition uu_dso__find_by_longname :: "'a dso_state_scheme \<Rightarrow> string \<Rightarrow> (addr \<times> 'a dso_state_scheme) option" where
  "uu_dso__find_by_longname s name = uu_dso__findlink_by_longname s 0 (Some name)"

definition dso__set_long_name ::
  "'a dso_state_scheme \<Rightarrow> addr \<Rightarrow> string option \<Rightarrow> bool \<Rightarrow> 'a dso_state_scheme option" where
  "dso__set_long_name s dso name name_allocated = (case name of
     None \<Rightarrow> Some s
   | Some name \<Rightarrow> do {
       d \<leftarrow> dso_st s dso;
       let root = d_root d;
       s \<leftarrow> (if root then do {
              t \<leftarrow> rbt_erase dso (dsos_root s);
              upd_dso dso (\<lambda>d. d\<lparr>d_rb_empty := True, d_root := False\<rparr>) (s\<lparr>dsos_root := t\<rparr>) }
            else Some s);
       s \<leftarrow> upd_dso dso (\<lambda>d. d\<lparr>d_long_name := name, d_long_name_len := of_nat (length name),
              d_long_name_allocated := name_allocated\<rparr>) s;
       if root then do { (_, s) \<leftarrow> uu_dso__findlink_by_longname s dso None; Some s } else Some s })"

definition dso__set_short_name ::
  "'a dso_state_scheme \<Rightarrow> addr \<Rightarrow> string option \<Rightarrow> bool \<Rightarrow> 'a dso_state_scheme option" where
  "dso__set_short_name s dso name name_allocated = (case name of
     None \<Rightarrow> Some s
   | Some name \<Rightarrow>
       upd_dso dso (\<lambda>d. d\<lparr>d_short_name := name, d_short_name_len := of_nat (length name),
         d_short_name_allocated := name_allocated\<rparr>) s)"

definition dso__set_basename :: "'a dso_state_scheme \<Rightarrow> addr \<Rightarrow> 'a dso_state_scheme option" where
  "dso__set_basename s dso = do {
     d \<leftarrow> dso_st s dso;
     dso__set_short_name s dso (Some (basename (d_long_name d))) True }"

section \<open>DSO objects\<close>

definition dso_zero :: dso where
  "dso_zero = \<lparr>d_rb_empty = False, d_root = False,
     d_data = \<lparr>cache = Leaf, caches = Map.empty, next_cache = 1, fd = 0, status = DSO_DATA_STATUS_UNKNOWN,
       file_size = 0, eh_frame_hdr_offset = 0\<rparr>,
     d_short_name = [], d_long_name = [], d_long_name_len = 0, d_short_name_len = 0, d_short_name_allocated = False,
     d_long_name_allocated = False, d_refcnt = 0, d_name = []\<rparr>"

definition dso__new :: "'a dso_state_scheme \<Rightarrow> string \<Rightarrow> (addr \<times> 'a dso_state_scheme) option" where
  "dso__new s name = do {
     let dso = next_addr s;
     let s = s\<lparr>dso_st := (dso_st s)(dso \<mapsto> dso_zero\<lparr>d_name := name\<rparr>), next_addr := dso + 1\<rparr>;
     s \<leftarrow> dso__set_long_name s dso (Some name) False;
     s \<leftarrow> dso__set_short_name s dso (Some name) False;
     s \<leftarrow> upd_dso dso (\<lambda>d. d\<lparr>d_data := (d_data d)\<lparr>cache := Leaf, fd := -1, status := DSO_DATA_STATUS_UNKNOWN\<rparr>,
            d_rb_empty := True, d_root := False, d_refcnt := refcount_set 1\<rparr>) s;
     Some (dso, s) }"

definition dso__delete :: "'a dso_state_scheme \<Rightarrow> addr \<Rightarrow> 'a dso_state_scheme" where
  "dso__delete s dso = s"

definition dso__get :: "'a dso_state_scheme \<Rightarrow> addr \<Rightarrow> (addr \<times> 'a dso_state_scheme) option" where
  "dso__get s dso =
     (if dso \<noteq> 0 then do { s \<leftarrow> upd_dso dso (\<lambda>d. d\<lparr>d_refcnt := refcount_inc (d_refcnt d)\<rparr>) s; Some (dso, s) }
      else Some (dso, s))"

definition dso__put :: "'a dso_state_scheme \<Rightarrow> addr \<Rightarrow> 'a dso_state_scheme option" where
  "dso__put s dso =
     (if dso = 0 then Some s
      else do {
        d \<leftarrow> dso_st s dso;
        let (zero, n) = refcount_dec_and_test (d_refcnt d);
        s \<leftarrow> upd_dso dso (\<lambda>d. d\<lparr>d_refcnt := n\<rparr>) s;
        Some (if zero then dso__delete s dso else s) })"

section \<open>The set of DSOs\<close>

definition uu_dsos__add :: "'a dso_state_scheme \<Rightarrow> addr \<Rightarrow> 'a dso_state_scheme option" where
  "uu_dsos__add s dso = do {
     let s = s\<lparr>dsos_head := dsos_head s @ [dso]\<rparr>;
     (_, s) \<leftarrow> uu_dso__findlink_by_longname s dso None;
     (_, s) \<leftarrow> dso__get s dso;
     Some s }"

definition dsos__add :: "'a dso_state_scheme \<Rightarrow> addr \<Rightarrow> 'a dso_state_scheme option" where
  "dsos__add s dso = do {
     (_, l) \<leftarrow> down_write (singlethreaded s) (dsos_lock s);
     s \<leftarrow> uu_dsos__add (s\<lparr>dsos_lock := l\<rparr>) dso;
     (_, l) \<leftarrow> up_write (singlethreaded s) (dsos_lock s);
     Some (s\<lparr>dsos_lock := l\<rparr>) }"

fun find_by_shortname :: "(addr \<rightharpoonup> dso) \<Rightarrow> string \<Rightarrow> addr list \<Rightarrow> addr option" where
  "find_by_shortname st name [] = Some 0"
| "find_by_shortname st name (pos # ps) = do {
     d \<leftarrow> st pos;
     if strcmp (d_short_name d) name = 0 then Some pos else find_by_shortname st name ps }"

definition uu_dsos__find :: "'a dso_state_scheme \<Rightarrow> string \<Rightarrow> bool \<Rightarrow> (addr \<times> 'a dso_state_scheme) option" where
  "uu_dsos__find s name cmp_short =
     (if cmp_short then do { a \<leftarrow> find_by_shortname (dso_st s) name (dsos_head s); Some (a, s) }
      else uu_dso__find_by_longname s name)"

definition dsos__find :: "'a dso_state_scheme \<Rightarrow> string \<Rightarrow> bool \<Rightarrow> (addr \<times> 'a dso_state_scheme) option" where
  "dsos__find s name cmp_short = do {
     (_, l) \<leftarrow> down_read (singlethreaded s) (dsos_lock s);
     (a, s) \<leftarrow> uu_dsos__find (s\<lparr>dsos_lock := l\<rparr>) name cmp_short;
     (_, l) \<leftarrow> up_read (singlethreaded s) (dsos_lock s);
     Some (a, s\<lparr>dsos_lock := l\<rparr>) }"

definition uu_dsos__addnew :: "'a dso_state_scheme \<Rightarrow> string \<Rightarrow> (addr \<times> 'a dso_state_scheme) option" where
  "uu_dsos__addnew s name = do {
     (dso, s) \<leftarrow> dso__new s name;
     if dso \<noteq> 0 then do {
       s \<leftarrow> uu_dsos__add s dso;
       s \<leftarrow> dso__set_basename s dso;
       s \<leftarrow> dso__put s dso;
       Some (dso, s) }
     else Some (dso, s) }"

definition uu_dsos__findnew :: "'a dso_state_scheme \<Rightarrow> string \<Rightarrow> (addr \<times> 'a dso_state_scheme) option" where
  "uu_dsos__findnew s name = do {
     (dso, s) \<leftarrow> uu_dsos__find s name False;
     if dso \<noteq> 0 then Some (dso, s) else uu_dsos__addnew s name }"

definition dsos__findnew :: "'a dso_state_scheme \<Rightarrow> string \<Rightarrow> (addr \<times> 'a dso_state_scheme) option" where
  "dsos__findnew s name = do {
     (_, l) \<leftarrow> down_write (singlethreaded s) (dsos_lock s);
     (dso, s) \<leftarrow> uu_dsos__findnew (s\<lparr>dsos_lock := l\<rparr>) name;
     (dso, s) \<leftarrow> dso__get s dso;
     (_, l) \<leftarrow> up_write (singlethreaded s) (dsos_lock s);
     Some (dso, s\<lparr>dsos_lock := l\<rparr>) }"

section \<open>Life time of the set (machine.c)\<close>

definition dsos__init :: "'a dso_state_scheme \<Rightarrow> 'a dso_state_scheme" where
  "dsos__init s = s\<lparr>dsos_head := [], dsos_root := Leaf, dsos_lock := snd (init_rwsem (dsos_lock s))\<rparr>"

text \<open>The loop of \<^verbatim>\<open>dsos__purge\<close> over the rest of the list.\<close>

fun dsos_purge_list :: "'a dso_state_scheme \<Rightarrow> addr list \<Rightarrow> 'a dso_state_scheme option" where
  "dsos_purge_list s [] = Some s"
| "dsos_purge_list s (pos # ps) = do {
     s \<leftarrow> upd_dso pos (\<lambda>d. d\<lparr>d_rb_empty := True, d_root := False\<rparr>) s;
     s \<leftarrow> dso__put (s\<lparr>dsos_head := remove1 pos (dsos_head s)\<rparr>) pos;
     dsos_purge_list s ps }"

definition dsos__purge :: "'a dso_state_scheme \<Rightarrow> 'a dso_state_scheme option" where
  "dsos__purge s = do {
     (_, l) \<leftarrow> down_write (singlethreaded s) (dsos_lock s);
     s \<leftarrow> dsos_purge_list (s\<lparr>dsos_lock := l\<rparr>) (dsos_head s);
     (_, l) \<leftarrow> up_write (singlethreaded s) (dsos_lock s);
     Some (s\<lparr>dsos_lock := l\<rparr>) }"

definition dsos__exit :: "'a dso_state_scheme \<Rightarrow> 'a dso_state_scheme option" where
  "dsos__exit s = do { s \<leftarrow> dsos__purge s; let _ = exit_rwsem (dsos_lock s); Some s }"

section \<open>Names are ordered\<close>

lemma strcmp_order: "strcmp a b = (if a = b then 0 else if a < b then - 1 else 1)"
  by (induction a b rule: strcmp.induct) (auto simp: less_char_def)

definition long_name_of :: "(addr \<rightharpoonup> dso) \<Rightarrow> addr \<Rightarrow> string" where
  "long_name_of st a = (case st a of Some d \<Rightarrow> d_long_name d | None \<Rightarrow> [])"

lemma findlink_decide_lookup:
  "st a = Some d \<Longrightarrow> findlink_decide st 0 name a =
     (if name = d_long_name d then Stop else if name < d_long_name d then Go_left else Go_right)"
  by (simp add: findlink_decide_def strcmp_order)

lemma findlink_decide_insert:
  "\<lbrakk>st a = Some d; name \<noteq> d_long_name d\<rbrakk> \<Longrightarrow> findlink_decide st dso name a = findlink_decide st 0 name a"
  by (simp add: findlink_decide_def strcmp_order)

interpretation long_names: keyed_search "\<lambda>a. st a \<noteq> None" "long_name_of st" "findlink_decide st 0" for st
  by unfold_locales (auto simp: findlink_decide_lookup long_name_of_def split: if_splits)

lemma descend_cong: "\<forall>a\<in>set (inorder t). f a = g a \<Longrightarrow> descend f t fs = descend g t fs"
  by (induction t arbitrary: fs) (auto split: dir.split)

lemma rbt_insert_cong: "\<forall>a\<in>set (inorder t). f a = g a \<Longrightarrow> rbt_insert f x t = rbt_insert g x t"
  by (simp add: rbt_insert_def descend_cong [of t f g])

section \<open>The invariant\<close>

definition dso_linked :: "dso \<Rightarrow> bool" where
  "dso_linked d \<longleftrightarrow> d_root d \<and> \<not> d_rb_empty d \<and> d_name d = d_long_name d \<and> d_short_name d = basename (d_long_name d)"

definition dsos_ok :: "'a dso_state_scheme \<Rightarrow> bool" where
  "dsos_ok s \<longleftrightarrow> rb_ok (dsos_root s) \<and> distinct (map (long_name_of (dso_st s)) (inorder (dsos_root s))) \<and>
     sorted (map (long_name_of (dso_st s)) (inorder (dsos_root s))) \<and>
     distinct (dsos_head s) \<and> set (dsos_head s) = set (inorder (dsos_root s)) \<and>
     (\<forall>a\<in>set (dsos_head s). \<exists>d. dso_st s a = Some d \<and> dso_linked d) \<and>
     (\<forall>a\<in>dom (dso_st s). a < next_addr s) \<and> dso_st s 0 = None \<and> 0 < next_addr s"

definition named :: "'a dso_state_scheme \<Rightarrow> string \<Rightarrow> addr \<Rightarrow> bool" where
  "named s name a \<longleftrightarrow> a \<in> set (dsos_head s) \<and> long_name_of (dso_st s) a = name"

lemma named_unique: "\<lbrakk>dsos_ok s; named s n a; named s n b\<rbrakk> \<Longrightarrow> a = b"
  by (auto simp: dsos_ok_def named_def distinct_map dest: inj_onD)

lemma lookup_ok:
  assumes ok: "dsos_ok s"
  shows "(\<exists>a. uu_dsos__find s name False = Some (a, s) \<and> a \<noteq> 0 \<and> named s name a) \<or>
    (uu_dsos__find s name False = Some (0, s) \<and> (\<forall>a. \<not> named s name a))"
proof -
  have s: "sorted (map (long_name_of (dso_st s)) (inorder (dsos_root s)))" "set (dsos_head s) = set (inorder (dsos_root s))"
    using ok by (simp_all add: dsos_ok_def)
  have v: "\<forall>a\<in>set (inorder (dsos_root s)). dso_st s a \<noteq> None" using ok by (auto simp: dsos_ok_def)
  have stop: "findlink_decide (dso_st s) 0 name a = Stop \<longleftrightarrow> long_name_of (dso_st s) a = name"
    if "a \<in> set (inorder (dsos_root s))" for a
    using that v by (auto simp: findlink_decide_lookup long_name_of_def split: option.split)
  show ?thesis
  proof (cases "rbt_find (findlink_decide (dso_st s) 0 name) (dsos_root s)")
    case None
    have "\<not> named s name a" for a
      using long_names.find_missing [OF s(1) v None] stop s(2) by (auto simp: named_def)
    with None show ?thesis
      by (simp add: uu_dsos__find_def uu_dso__find_by_longname_def uu_dso__findlink_by_longname_def)
  next
    case (Some a)
    have a: "a \<in> set (inorder (dsos_root s))" "findlink_decide (dso_st s) 0 name a = Stop"
      using long_names.find_found [OF s(1) v Some] by auto
    then have "named s name a" using stop s(2) by (auto simp: named_def)
    moreover have "a \<noteq> 0" using a(1) v ok by (metis dsos_ok_def)
    ultimately show ?thesis using Some v a(1)
      by (auto simp: uu_dsos__find_def uu_dso__find_by_longname_def uu_dso__findlink_by_longname_def)
  qed
qed

section \<open>Adding a DSO\<close>

definition fresh_dso :: "string \<Rightarrow> dso" where
  "fresh_dso name = dso_zero\<lparr>d_name := name, d_long_name := name, d_long_name_len := of_nat (length name),
     d_short_name := name, d_short_name_len := of_nat (length name),
     d_data := (d_data dso_zero)\<lparr>fd := -1\<rparr>, d_rb_empty := True, d_refcnt := 1\<rparr>"

definition linked_dso :: "string \<Rightarrow> dso" where
  "linked_dso name = (fresh_dso name)\<lparr>d_short_name := basename name, d_short_name_len := of_nat (length (basename name)),
     d_short_name_allocated := True, d_rb_empty := False, d_root := True\<rparr>"

lemma dso__new_eq:
  "dso__new s name = Some (next_addr s, s\<lparr>dso_st := (dso_st s)(next_addr s \<mapsto> fresh_dso name), next_addr := next_addr s + 1\<rparr>)"
  by (simp add: dso__new_def dso__set_long_name_def dso__set_short_name_def upd_dso_def dso_zero_def fresh_dso_def
      refcount_set_def Let_def)

lemma findlink_insert:
  assumes ok: "dsos_ok s" and new: "\<forall>a. \<not> named s name a" and dso: "dso \<notin> set (dsos_head s)" "dso \<noteq> 0"
    and st: "st dso = Some d" "d_long_name d = name" "\<forall>a\<in>set (dsos_head s). st a = dso_st s a"
  shows "\<exists>t. rbt_insert (findlink_decide st dso name) dso (dsos_root s) = Some (Inr t) \<and> rb_ok t \<and>
    sorted (map (long_name_of st) (inorder t)) \<and> (\<exists>xs ys. inorder (dsos_root s) = xs @ ys \<and> inorder t = xs @ dso # ys)"
proof -
  have h: "set (dsos_head s) = set (inorder (dsos_root s))" "rb_ok (dsos_root s)" using ok by (simp_all add: dsos_ok_def)
  have key: "long_name_of st a = long_name_of (dso_st s) a" if "a \<in> set (inorder (dsos_root s))" for a
    using that st(3) h(1) by (simp add: long_name_of_def)
  have v: "\<forall>a\<in>set (inorder (dsos_root s)). st a \<noteq> None" using ok st(3) by (fastforce simp: dsos_ok_def)
  have "map (long_name_of st) (inorder (dsos_root s)) = map (long_name_of (dso_st s)) (inorder (dsos_root s))"
    using key by simp
  then have s: "sorted (map (long_name_of st) (inorder (dsos_root s)))" using ok by (simp only: dsos_ok_def)
  have ne: "long_name_of st a \<noteq> name" if "a \<in> set (inorder (dsos_root s))" for a
    using that new key h(1) by (auto simp: named_def)
  have k: "long_name_of st dso = name" using st by (simp add: long_name_of_def)
  have go: "findlink_decide st dso name a = findlink_decide st 0 name a \<and> findlink_decide st 0 name a \<noteq> Stop"
    if "a \<in> set (inorder (dsos_root s))" for a
  proof -
    from that v have "st a \<noteq> None" by (rule bspec [rotated])
    then obtain e where e: "st a = Some e" by (elim not_None_eq [THEN iffD1, THEN exE])
    with ne [OF that] have "name \<noteq> d_long_name e" by (simp add: long_name_of_def)
    with e show ?thesis using findlink_decide_insert [of st a e name dso] by (simp add: findlink_decide_lookup)
  qed
  have "rbt_insert (findlink_decide st dso name) dso (dsos_root s) = rbt_insert (findlink_decide st 0 name) dso (dsos_root s)"
    by (rule rbt_insert_cong) (use go in blast)
  with long_names.insert_sorted [OF h(2) s v, of dso] go show ?thesis unfolding k by (elim disjE exE conjE) auto
qed

lemma addnew_ok:
  assumes ok: "dsos_ok s" and new: "\<forall>a. \<not> named s name a"
  defines "a \<equiv> next_addr s"
  shows "\<exists>t. uu_dsos__addnew s name = Some (a, s\<lparr>dso_st := (dso_st s)(a \<mapsto> linked_dso name), next_addr := a + 1,
       dsos_head := dsos_head s @ [a], dsos_root := t\<rparr>) \<and>
     dsos_ok (s\<lparr>dso_st := (dso_st s)(a \<mapsto> linked_dso name), next_addr := a + 1, dsos_head := dsos_head s @ [a], dsos_root := t\<rparr>)"
proof -
  have a: "a \<noteq> 0" "a \<notin> dom (dso_st s)" using ok by (auto simp: dsos_ok_def a_def)
  then have ah: "a \<notin> set (dsos_head s)" using ok by (fastforce simp: dsos_ok_def)
  let ?st = "(dso_st s)(a \<mapsto> fresh_dso name)"
  have long: "d_long_name (fresh_dso name) = name" "d_long_name (linked_dso name) = name"
    by (simp_all add: fresh_dso_def linked_dso_def)
  obtain t where t: "rbt_insert (findlink_decide ?st a name) a (dsos_root s) = Some (Inr t)" "rb_ok t"
    "sorted (map (long_name_of ?st) (inorder t))" "\<exists>xs ys. inorder (dsos_root s) = xs @ ys \<and> inorder t = xs @ a # ys"
  proof -
    have "\<forall>b\<in>set (dsos_head s). ?st b = dso_st s b" using ah by auto
    from findlink_insert [where st = ?st, OF ok new ah a(1) _ long(1) this] show ?thesis using that by (simp only: fun_upd_same) blast
  qed
  let ?s = "s\<lparr>dso_st := (dso_st s)(a \<mapsto> linked_dso name), next_addr := a + 1, dsos_head := dsos_head s @ [a], dsos_root := t\<rparr>"
  have eq: "uu_dsos__addnew s name = Some (a, ?s)"
    using a(1) t(1) long
    by (cases s) (simp add: dso_zero_def uu_dsos__addnew_def dso__new_eq a_def uu_dsos__add_def uu_dso__findlink_by_longname_def upd_dso_def
        dso__get_def dso__set_basename_def dso__set_short_name_def dso__put_def refcount_inc_def refcount_dec_and_test_def
        dso__delete_def linked_dso_def fresh_dso_def)
  have key: "long_name_of ((dso_st s)(a \<mapsto> linked_dso name)) = long_name_of ?st" by (auto simp: long_name_of_def long)
  have "distinct (map (long_name_of ?st) (inorder t))"
  proof -
    from t(4) obtain xs ys where xy: "inorder (dsos_root s) = xs @ ys" "inorder t = xs @ a # ys" by blast
    have h: "set (dsos_head s) = set (xs @ ys)" using ok xy by (simp add: dsos_ok_def)
    have same: "map (long_name_of ?st) zs = map (long_name_of (dso_st s)) zs" if "set zs \<subseteq> set (dsos_head s)" for zs
      using that ah by (auto simp: long_name_of_def)
    have "name \<notin> long_name_of (dso_st s) ` set (xs @ ys)" using new h by (auto simp: named_def)
    moreover have "long_name_of ?st a = name" by (simp add: long_name_of_def long)
    moreover have "distinct (map (long_name_of (dso_st s)) (xs @ ys))" using ok xy(1) by (simp add: dsos_ok_def)
    moreover have "map (long_name_of ?st) xs = map (long_name_of (dso_st s)) xs" "map (long_name_of ?st) ys = map (long_name_of (dso_st s)) ys"
      using h by (intro same; auto)+
    ultimately show ?thesis unfolding xy(2) by (simp only: map_append list.map distinct_append distinct.simps set_map set_append) auto
  qed
  moreover have "set (inorder t) = insert a (set (dsos_head s))" using t(4) ok by (auto simp: dsos_ok_def)
  moreover have "dso_linked (linked_dso name)" by (simp add: dso_linked_def linked_dso_def fresh_dso_def)
  moreover have "\<forall>b d. dso_st s b = Some d \<longrightarrow> b < a" using ok by (auto simp: dsos_ok_def a_def)
  ultimately have "dsos_ok ?s"
    using ok t(2,3) ah a unfolding dsos_ok_def by (auto simp: key less_Suc_eq)
  with eq show ?thesis by blast
qed

section \<open>Finding or adding\<close>

lemma dsos_ok_get:
  assumes "dsos_ok s" "dso_st s a = Some d" "d_long_name d' = d_long_name d" "dso_linked d' = dso_linked d"
  shows "dsos_ok (s\<lparr>dso_st := (dso_st s)(a \<mapsto> d')\<rparr>)"
proof -
  have "long_name_of ((dso_st s)(a \<mapsto> d')) = long_name_of (dso_st s)" using assms(2,3) by (auto simp: long_name_of_def)
  then show ?thesis using assms unfolding dsos_ok_def by (fastforce split: if_splits)
qed

lemma dsos_ok_lock [simp]: "dsos_ok (s\<lparr>dsos_lock := l\<rparr>) = dsos_ok s"
  by (simp add: dsos_ok_def)

lemma named_lock [simp]: "named (s\<lparr>dsos_lock := l\<rparr>) n a = named s n a"
  by (simp add: named_def)

lemma dso_findnew_ok:
  assumes ok: "dsos_ok s"
  shows "\<exists>a s' d. uu_dsos__findnew s name = Some (a, s') \<and> dsos_ok s' \<and> named s' name a \<and> a \<noteq> 0 \<and> dso_st s' a = Some d \<and>
    (\<exists>D n h t. s' = s\<lparr>dso_st := D, next_addr := n, dsos_head := h, dsos_root := t\<rparr>) \<and>
    (if named s name a then s' = s
     else a = next_addr s \<and> (\<forall>b. \<not> named s name b) \<and> dsos_head s' = dsos_head s @ [a] \<and>
       dso_st s' = (dso_st s)(a \<mapsto> linked_dso name) \<and> next_addr s' = a + 1)"
  using lookup_ok [OF ok, of name]
proof (elim disjE exE conjE)
  fix a assume a: "uu_dsos__find s name False = Some (a, s)" "a \<noteq> 0" "named s name a"
  then obtain d where "dso_st s a = Some d" using ok by (fastforce simp: named_def dsos_ok_def)
  moreover have ex: "\<exists>D n h t. s = s\<lparr>dso_st := D, next_addr := n, dsos_head := h, dsos_root := t\<rparr>"
    by (intro exI [of _ "dso_st s"] exI [of _ "next_addr s"] exI [of _ "dsos_head s"] exI [of _ "dsos_root s"]) simp
  ultimately show ?thesis using a ok
    by (intro exI [of _ a] exI [of _ s] exI [of _ d] conjI ex) (simp_all add: uu_dsos__findnew_def)
next
  assume f: "uu_dsos__find s name False = Some (0, s)" "\<forall>a. \<not> named s name a"
  let ?a = "next_addr s"
  obtain t where t: "uu_dsos__addnew s name = Some (?a, s\<lparr>dso_st := (dso_st s)(?a \<mapsto> linked_dso name), next_addr := ?a + 1,
       dsos_head := dsos_head s @ [?a], dsos_root := t\<rparr>)"
     "dsos_ok (s\<lparr>dso_st := (dso_st s)(?a \<mapsto> linked_dso name), next_addr := ?a + 1, dsos_head := dsos_head s @ [?a], dsos_root := t\<rparr>)"
    using addnew_ok [OF ok f(2)] by blast
  have "?a \<noteq> 0" using ok by (simp add: dsos_ok_def)
  moreover have "d_long_name (linked_dso name) = name" by (simp add: linked_dso_def fresh_dso_def)
  moreover have "\<not> named s name ?a" using f(2) by blast
  ultimately show ?thesis using f t
    by (intro exI [of _ ?a] exI [of _ "s\<lparr>dso_st := (dso_st s)(?a \<mapsto> linked_dso name), next_addr := ?a + 1,
        dsos_head := dsos_head s @ [?a], dsos_root := t\<rparr>"] exI [of _ "linked_dso name"] conjI)
      (simp_all add: uu_dsos__findnew_def, auto simp: named_def long_name_of_def)
qed

text \<open>The references a caller of \<^verbatim>\<open>dsos__findnew\<close> holds: one more on the DSO it gets.\<close>

definition refcnt_of :: "'a dso_state_scheme \<Rightarrow> addr \<Rightarrow> u32" where
  "refcnt_of s a = (case dso_st s a of Some d \<Rightarrow> d_refcnt d | None \<Rightarrow> 0)"

lemma dsos__findnew_ok:
  assumes ok: "dsos_ok s" and free: "dsos_lock s = Free"
  shows "\<exists>a s'. dsos__findnew s name = Some (a, s') \<and> dsos_ok s' \<and> named s' name a \<and> a \<noteq> 0 \<and> 
    (\<exists>D n h t. s' = s\<lparr>dso_st := D, next_addr := n, dsos_head := h, dsos_root := t\<rparr>) \<and> next_addr s \<le> next_addr s' \<and>
    (if named s name a then dsos_head s' = dsos_head s \<and> refcnt_of s' a = refcnt_of s a + 1
     else a = next_addr s \<and> (\<forall>b. \<not> named s name b) \<and> dsos_head s' = dsos_head s @ [a] \<and> refcnt_of s' a = 2) \<and>
    (\<forall>b. b \<noteq> a \<longrightarrow> dso_st s' b = dso_st s b)"
proof -
  obtain l where l: "down_write (singlethreaded s) Free = Some (0, l)" "up_write (singlethreaded s) l = Some (0, Free)"
    using write_lock.free [of "singlethreaded s"] write_lock.paired by blast
  let ?s = "s\<lparr>dsos_lock := l\<rparr>"
  obtain a s' d where f: "uu_dsos__findnew ?s name = Some (a, s')" "dsos_ok s'" "named s' name a" "a \<noteq> 0" "dso_st s' a = Some d"
    "\<exists>D n h t. s' = s\<lparr>dsos_lock := l, dso_st := D, next_addr := n, dsos_head := h, dsos_root := t\<rparr>"
    "if named s name a then s' = ?s
     else a = next_addr s \<and> (\<forall>b. \<not> named s name b) \<and> dsos_head s' = dsos_head s @ [a] \<and>
       dso_st s' = (dso_st s)(a \<mapsto> linked_dso name) \<and> next_addr s' = a + 1"
    using dso_findnew_ok [of ?s name] ok by (simp cong: if_cong) blast
  let ?t = "s'\<lparr>dso_st := (dso_st s')(a \<mapsto> d\<lparr>d_refcnt := d_refcnt d + 1\<rparr>), dsos_lock := Free\<rparr>"
  obtain D n h t where s': "s' = s\<lparr>dsos_lock := l, dso_st := D, next_addr := n, dsos_head := h, dsos_root := t\<rparr>" using f(6) by blast
  then have "?t = s\<lparr>dso_st := (dso_st s')(a \<mapsto> d\<lparr>d_refcnt := d_refcnt d + 1\<rparr>), next_addr := n, dsos_head := h, dsos_root := t\<rparr>"
    using free by (cases s) simp
  then have "\<exists>D n h t. ?t = s\<lparr>dso_st := D, next_addr := n, dsos_head := h, dsos_root := t\<rparr>" by blast
  moreover have "dsos__findnew s name = Some (a, ?t)"
    using l f(1-5) s' by (simp add: dsos__findnew_def free dso__get_def upd_dso_def refcount_inc_def)
  moreover have "dsos_ok ?t"
    using dsos_ok_get [OF f(2,5), of "d\<lparr>d_refcnt := d_refcnt d + 1\<rparr>"] by (simp add: dso_linked_def dsos_ok_def)
  moreover have "named ?t name a" using f(3,5) by (simp add: named_def long_name_of_def)
  moreover have "d_refcnt (linked_dso name) = 1" by (simp add: linked_dso_def fresh_dso_def)
  ultimately show ?thesis using f(4,5,7)
    by (intro exI [of _ a] exI [of _ ?t]) (cases "named s name a", auto simp: refcnt_of_def)
qed

section \<open>Emptying the set\<close>

definition purged :: "dso \<Rightarrow> dso" where
  "purged d = d\<lparr>d_rb_empty := True, d_root := False, d_refcnt := d_refcnt d - 1\<rparr>"

lemma dsos_purge_list_ok:
  assumes "distinct ps" "\<forall>a\<in>set ps. dso_st s a \<noteq> None" "0 \<notin> set ps"
  shows "dsos_purge_list s ps = Some (s\<lparr>dso_st := (\<lambda>a. if a \<in> set ps then map_option purged (dso_st s a) else dso_st s a),
    dsos_head := fold remove1 ps (dsos_head s)\<rparr>)"
  using assms
proof (induction ps arbitrary: s)
  case Nil
  then show ?case by simp
next
  case (Cons p ps)
  obtain d where d: "dso_st s p = Some d" using Cons.prems by auto
  let ?s = "s\<lparr>dsos_head := remove1 p (dsos_head s), dso_st := (dso_st s)(p \<mapsto> purged d)\<rparr>"
  have "dsos_purge_list s (p # ps) = dsos_purge_list ?s ps"
    using Cons.prems(3) by (simp add: upd_dso_def d dso__put_def refcount_dec_and_test_def dso__delete_def purged_def)
  also have "\<dots> = Some (?s\<lparr>dso_st := (\<lambda>a. if a \<in> set ps then map_option purged (dso_st ?s a) else dso_st ?s a),
      dsos_head := fold remove1 ps (dsos_head ?s)\<rparr>)"
    using Cons.prems by (intro Cons.IH) auto
  also have "(\<lambda>a. if a \<in> set ps then map_option purged (dso_st ?s a) else dso_st ?s a) =
      (\<lambda>a. if a \<in> set (p # ps) then map_option purged (dso_st s a) else dso_st s a)"
    using Cons.prems(1) d by auto
  finally show ?case by simp
qed

lemma fold_remove1_self: "fold remove1 xs xs = []"
  by (induction xs) simp_all

lemma dsos__exit_ok:
  assumes ok: "dsos_ok s" and free: "dsos_lock s = Free"
  shows "dsos__exit s = Some (s\<lparr>dso_st := (\<lambda>a. if a \<in> set (dsos_head s) then map_option purged (dso_st s a) else dso_st s a),
    dsos_head := []\<rparr>)"
proof -
  obtain l where l: "down_write (singlethreaded s) Free = Some (0, l)" "up_write (singlethreaded s) l = Some (0, Free)"
    using write_lock.free [of "singlethreaded s"] write_lock.paired by blast
  have "distinct (dsos_head s)" "\<forall>a\<in>set (dsos_head s). dso_st s a \<noteq> None" "0 \<notin> set (dsos_head s)"
    using ok by (fastforce simp: dsos_ok_def)+
  then show ?thesis
    using l free by (cases s) (simp add: dsos__exit_def dsos__purge_def dsos_purge_list_ok fold_remove1_self cong: if_cong)
qed

end
