(* ===== verification/Maps.thy ===== *)
theory Maps
  imports Dso
begin

text \<open>
  Memory maps (\<^verbatim>\<open>src/map.c\<close>, \<^verbatim>\<open>src/map.h\<close>): \<^verbatim>\<open>struct map\<close> objects with a reference count,
  collected in a \<^verbatim>\<open>struct maps\<close> that keeps them in a red-black tree ordered by start address and in a list
  in order of insertion. Both kinds of objects live in stores that extend the state of the DSOs; freeing
  removes an object from its store, and an access to a freed object, a failing assertion or a null
  dereference is \<open>None\<close>. A \<^verbatim>\<open>struct rb_root\<close> is a functional tree and a \<^verbatim>\<open>struct list_head\<close> a list of
  addresses; the theories on trees and lists show that the pointer code computes these.
\<close>

section \<open>State\<close>

record mmap2_event =
  e_tgid :: u32
  e_tid :: u32
  e_start :: u64
  e_len :: u64
  e_pgoff :: u64
  e_maj :: u32
  e_min :: u32
  e_ino :: u64
  e_ino_generation :: u64
  e_prot :: u32
  e_flags :: u32
  e_filename :: string

text \<open>\<open>m_node\<close> is the \<^verbatim>\<open>struct maps\<close> in whose list the node is linked, 0 when it is linked to itself;
  \<open>m_rb_empty\<close> is \<^verbatim>\<open>RB_EMPTY_NODE\<close> of the tree node. The function pointers always hold \<^verbatim>\<open>map_ip\<close>
  and \<^verbatim>\<open>unmap_ip\<close>.\<close>

record map_obj =
  m_rb_empty :: bool
  m_node :: addr
  m_start :: u64
  m_end :: u64
  m_prot :: u32
  m_flags :: u32
  m_pgoff :: u64
  m_reloc :: u64
  m_maj :: u32
  m_min :: u32
  m_ino :: u64
  m_ino_generation :: u64
  m_dso :: addr
  m_refcnt :: u32

record maps_obj =
  ms_entries :: "addr rbt"
  ms_head :: "addr list"
  ms_lock :: rwlock
  ms_refcnt :: u32

record map_state = dso_state +
  map_st :: "addr \<rightharpoonup> map_obj"
  maps_st :: "addr \<rightharpoonup> maps_obj"

definition upd_map :: "addr \<Rightarrow> (map_obj \<Rightarrow> map_obj) \<Rightarrow> 'a map_state_scheme \<Rightarrow> 'a map_state_scheme option" where
  "upd_map a f s = (case map_st s a of Some m \<Rightarrow> Some (s\<lparr>map_st := (map_st s)(a \<mapsto> f m)\<rparr>) | None \<Rightarrow> None)"

definition upd_maps :: "addr \<Rightarrow> (maps_obj \<Rightarrow> maps_obj) \<Rightarrow> 'a map_state_scheme \<Rightarrow> 'a map_state_scheme option" where
  "upd_maps a f s = (case maps_st s a of Some m \<Rightarrow> Some (s\<lparr>maps_st := (maps_st s)(a \<mapsto> f m)\<rparr>) | None \<Rightarrow> None)"

text \<open>\<^verbatim>\<open>rb_first\<close> and \<^verbatim>\<open>rb_next\<close> of a tree of addresses, 0 for none.\<close>

definition rbt_first :: "addr rbt \<Rightarrow> addr" where
  "rbt_first t = (case inorder t of [] \<Rightarrow> 0 | a # _ \<Rightarrow> a)"

definition rbt_next :: "addr rbt \<Rightarrow> addr \<Rightarrow> addr" where
  "rbt_next t a = (case dropWhile (\<lambda>b. b \<noteq> a) (inorder t) of _ # b # _ \<Rightarrow> b | _ \<Rightarrow> 0)"

section \<open>Maps\<close>

definition map_ip :: "map_obj \<Rightarrow> u64 \<Rightarrow> u64" where
  "map_ip m ip = ip - m_start m + m_pgoff m"

definition unmap_ip :: "map_obj \<Rightarrow> u64 \<Rightarrow> u64" where
  "unmap_ip m ip = ip + m_start m - m_pgoff m"

definition map__get :: "'a map_state_scheme \<Rightarrow> addr \<Rightarrow> (addr \<times> 'a map_state_scheme) option" where
  "map__get s mp =
     (if mp \<noteq> 0 then do { s \<leftarrow> upd_map mp (\<lambda>m. m\<lparr>m_refcnt := refcount_inc (m_refcnt m)\<rparr>) s; Some (mp, s) }
      else Some (mp, s))"

definition map__init :: "'a map_state_scheme \<Rightarrow> addr \<Rightarrow> mmap2_event \<Rightarrow> addr \<Rightarrow> 'a map_state_scheme option" where
  "map__init s mp event dso = do {
     (dso, s) \<leftarrow> dso__get s dso;
     Some (s\<lparr>map_st := (map_st s)(mp \<mapsto> \<lparr>m_rb_empty = True, m_node = 0, m_start = e_start event,
       m_end = e_start event + e_len event, m_prot = e_prot event, m_flags = e_flags event, m_pgoff = e_pgoff event,
       m_reloc = 0, m_maj = e_maj event, m_min = e_min event, m_ino = e_ino event,
       m_ino_generation = e_ino_generation event, m_dso = dso, m_refcnt = refcount_set 1\<rparr>)\<rparr>) }"

definition machine__findnew_dso :: "'a dso_state_scheme \<Rightarrow> string \<Rightarrow> (addr \<times> 'a dso_state_scheme) option" where
  "machine__findnew_dso s fname = dsos__findnew s fname"

definition map__new :: "'a map_state_scheme \<Rightarrow> mmap2_event \<Rightarrow> (addr \<times> 'a map_state_scheme) option" where
  "map__new s event = do {
     let mp = next_addr s;
     let s = s\<lparr>next_addr := mp + 1\<rparr>;
     (dso, s) \<leftarrow> machine__findnew_dso s (e_filename event);
     if dso = 0 then None
     else do {
       s \<leftarrow> map__init s mp event dso;
       s \<leftarrow> dso__put s dso;
       Some (mp, s) } }"

definition map__exit :: "'a map_state_scheme \<Rightarrow> addr \<Rightarrow> 'a map_state_scheme option" where
  "map__exit s mp = do {
     m \<leftarrow> map_st s mp;
     if \<not> m_rb_empty m then None
     else do {
       s \<leftarrow> dso__put s (m_dso m);
       upd_map mp (\<lambda>m. m\<lparr>m_dso := 0\<rparr>) s } }"

definition map__delete :: "'a map_state_scheme \<Rightarrow> addr \<Rightarrow> 'a map_state_scheme option" where
  "map__delete s mp = do { s \<leftarrow> map__exit s mp; Some (s\<lparr>map_st := (map_st s)(mp := None)\<rparr>) }"

text \<open>\<^verbatim>\<open>list_del_init(&map->node)\<close>: writes to the neighbours, so the list must still exist.\<close>

definition map_list_del_init :: "'a map_state_scheme \<Rightarrow> addr \<Rightarrow> 'a map_state_scheme option" where
  "map_list_del_init s mp = do {
     m \<leftarrow> map_st s mp;
     if m_node m = 0 then Some s
     else do {
       s \<leftarrow> upd_maps (m_node m) (\<lambda>ms. ms\<lparr>ms_head := remove1 mp (ms_head ms)\<rparr>) s;
       upd_map mp (\<lambda>m. m\<lparr>m_node := 0\<rparr>) s } }"

definition map__put :: "'a map_state_scheme \<Rightarrow> addr \<Rightarrow> 'a map_state_scheme option" where
  "map__put s mp =
     (if mp = 0 then Some s
      else do {
        m \<leftarrow> map_st s mp;
        let (zero, n) = refcount_dec_and_test (m_refcnt m);
        s \<leftarrow> upd_map mp (\<lambda>m. m\<lparr>m_refcnt := n\<rparr>) s;
        if zero then do { s \<leftarrow> map_list_del_init s mp; map__delete s mp } else Some s })"

text \<open>\<^verbatim>\<open>map__next\<close>; the tree is the one of the maps the map is in.\<close>

definition map__next :: "'a map_state_scheme \<Rightarrow> addr \<Rightarrow> addr \<Rightarrow> addr option" where
  "map__next s maps mp = map_option (\<lambda>ms. rbt_next (ms_entries ms) mp) (maps_st s maps)"

section \<open>Collections of maps\<close>

definition maps__init :: "maps_obj" where
  "maps__init = \<lparr>ms_entries = Leaf, ms_head = [], ms_lock = snd (init_rwsem Free), ms_refcnt = 0\<rparr>"

definition maps__new :: "'a map_state_scheme \<Rightarrow> addr \<times> 'a map_state_scheme" where
  "maps__new s = (next_addr s, s\<lparr>maps_st := (maps_st s)(next_addr s \<mapsto> maps__init\<lparr>ms_refcnt := refcount_set 1\<rparr>),
     next_addr := next_addr s + 1\<rparr>)"

definition maps__get :: "'a map_state_scheme \<Rightarrow> addr \<Rightarrow> (addr \<times> 'a map_state_scheme) option" where
  "maps__get s maps =
     (if maps \<noteq> 0 then do { s \<leftarrow> upd_maps maps (\<lambda>m. m\<lparr>ms_refcnt := refcount_inc (ms_refcnt m)\<rparr>) s; Some (maps, s) }
      else Some (maps, s))"

text \<open>The loop of \<^verbatim>\<open>__maps__purge\<close>.\<close>

partial_function (option) maps_purge_loop :: "'a map_state_scheme \<Rightarrow> addr \<Rightarrow> addr \<Rightarrow> 'a map_state_scheme option" where
  "maps_purge_loop s maps nxt =
     (if nxt = 0 then Some s
      else do {
        let pos = nxt;
        ms \<leftarrow> maps_st s maps;
        let nxt = rbt_next (ms_entries ms) pos;
        t \<leftarrow> rbt_erase pos (ms_entries ms);
        s \<leftarrow> upd_maps maps (\<lambda>ms. ms\<lparr>ms_entries := t\<rparr>) s;
        s \<leftarrow> upd_map pos (\<lambda>m. m\<lparr>m_rb_empty := True\<rparr>) s;
        s \<leftarrow> map__put s pos;
        maps_purge_loop s maps nxt })"

declare maps_purge_loop.simps [code]

definition uu_maps__purge :: "'a map_state_scheme \<Rightarrow> addr \<Rightarrow> 'a map_state_scheme option" where
  "uu_maps__purge s maps = do { ms \<leftarrow> maps_st s maps; maps_purge_loop s maps (rbt_first (ms_entries ms)) }"

definition maps__exit :: "'a map_state_scheme \<Rightarrow> addr \<Rightarrow> 'a map_state_scheme option" where
  "maps__exit s maps = do {
     ms \<leftarrow> maps_st s maps;
     (_, l) \<leftarrow> down_write (singlethreaded s) (ms_lock ms);
     s \<leftarrow> upd_maps maps (\<lambda>m. m\<lparr>ms_lock := l\<rparr>) s;
     s \<leftarrow> uu_maps__purge s maps;
     ms \<leftarrow> maps_st s maps;
     (_, l) \<leftarrow> up_write (singlethreaded s) (ms_lock ms);
     upd_maps maps (\<lambda>m. m\<lparr>ms_lock := l\<rparr>) s }"

definition maps__delete :: "'a map_state_scheme \<Rightarrow> addr \<Rightarrow> 'a map_state_scheme option" where
  "maps__delete s maps = do { s \<leftarrow> maps__exit s maps; Some (s\<lparr>maps_st := (maps_st s)(maps := None)\<rparr>) }"

definition maps__put :: "'a map_state_scheme \<Rightarrow> addr \<Rightarrow> 'a map_state_scheme option" where
  "maps__put s maps =
     (if maps = 0 then Some s
      else do {
        ms \<leftarrow> maps_st s maps;
        let (zero, n) = refcount_dec_and_test (ms_refcnt ms);
        s \<leftarrow> upd_maps maps (\<lambda>m. m\<lparr>ms_refcnt := n\<rparr>) s;
        if zero then maps__delete s maps else Some s })"

definition maps__first :: "'a map_state_scheme \<Rightarrow> addr \<Rightarrow> addr option" where
  "maps__first s maps = map_option (\<lambda>ms. rbt_first (ms_entries ms)) (maps_st s maps)"

definition maps__empty :: "'a map_state_scheme \<Rightarrow> addr \<Rightarrow> bool option" where
  "maps__empty s maps = do { first \<leftarrow> maps__first s maps; Some (if first \<noteq> 0 then False else True) }"

definition find_decide :: "(addr \<rightharpoonup> map_obj) \<Rightarrow> u64 \<Rightarrow> addr \<Rightarrow> dir" where
  "find_decide st ip a = (case st a of
     None \<Rightarrow> Stop
   | Some m \<Rightarrow> if ip < m_start m then Go_left else if ip \<ge> m_end m then Go_right else Stop)"

definition maps__find :: "'a map_state_scheme \<Rightarrow> addr \<Rightarrow> u64 \<Rightarrow> (addr \<times> 'a map_state_scheme) option" where
  "maps__find s maps ip = do {
     ms \<leftarrow> maps_st s maps;
     (_, l) \<leftarrow> down_read (singlethreaded s) (ms_lock ms);
     s \<leftarrow> upd_maps maps (\<lambda>m. m\<lparr>ms_lock := l\<rparr>) s;
     m \<leftarrow> (case rbt_find (find_decide (map_st s) ip) (ms_entries ms) of
            None \<Rightarrow> Some 0
          | Some a \<Rightarrow> if map_st s a = None then None else Some a);
     (_, l) \<leftarrow> up_read (singlethreaded s) l;
     s \<leftarrow> upd_maps maps (\<lambda>m. m\<lparr>ms_lock := l\<rparr>) s;
     Some (m, s) }"

definition insert_decide :: "(addr \<rightharpoonup> map_obj) \<Rightarrow> u64 \<Rightarrow> addr \<Rightarrow> dir" where
  "insert_decide st ip a = (case st a of None \<Rightarrow> Stop | Some m \<Rightarrow> if ip < m_start m then Go_left else Go_right)"

definition uu_maps__insert :: "'a map_state_scheme \<Rightarrow> addr \<Rightarrow> addr \<Rightarrow> 'a map_state_scheme option" where
  "uu_maps__insert s maps mp = do {
     ms \<leftarrow> maps_st s maps;
     m \<leftarrow> map_st s mp;
     r \<leftarrow> rbt_insert (insert_decide (map_st s) (m_start m)) mp (ms_entries ms);
     (case r of
        Inl a \<Rightarrow> None
      | Inr t \<Rightarrow> do {
          s \<leftarrow> upd_maps maps (\<lambda>ms. ms\<lparr>ms_entries := t, ms_head := ms_head ms @ [mp]\<rparr>) s;
          s \<leftarrow> upd_map mp (\<lambda>m. m\<lparr>m_rb_empty := False, m_node := maps\<rparr>) s;
          (_, s) \<leftarrow> map__get s mp;
          Some s }) }"

definition maps__insert :: "'a map_state_scheme \<Rightarrow> addr \<Rightarrow> addr \<Rightarrow> 'a map_state_scheme option" where
  "maps__insert s maps mp = do {
     ms \<leftarrow> maps_st s maps;
     (_, l) \<leftarrow> down_write (singlethreaded s) (ms_lock ms);
     s \<leftarrow> upd_maps maps (\<lambda>m. m\<lparr>ms_lock := l\<rparr>) s;
     s \<leftarrow> uu_maps__insert s maps mp;
     ms \<leftarrow> maps_st s maps;
     (_, l) \<leftarrow> up_write (singlethreaded s) (ms_lock ms);
     upd_maps maps (\<lambda>m. m\<lparr>ms_lock := l\<rparr>) s }"

section \<open>Looking up an address\<close>

lemma map_ip_roundtrip: "unmap_ip m (map_ip m ip) = ip" "map_ip m (unmap_ip m ip) = ip"
  by (simp_all add: map_ip_def unmap_ip_def)

definition start_of :: "(addr \<rightharpoonup> map_obj) \<Rightarrow> addr \<Rightarrow> u64" where
  "start_of st a = (case st a of Some m \<Rightarrow> m_start m | None \<Rightarrow> 0)"

definition contains :: "(addr \<rightharpoonup> map_obj) \<Rightarrow> u64 \<Rightarrow> addr \<Rightarrow> bool" where
  "contains st ip a \<longleftrightarrow> (case st a of Some m \<Rightarrow> m_start m \<le> ip \<and> ip < m_end m | None \<Rightarrow> False)"

text \<open>Maps that do not overlap: no map of the set starts inside another one.\<close>

definition disjoint_maps :: "(addr \<rightharpoonup> map_obj) \<Rightarrow> addr set \<Rightarrow> bool" where
  "disjoint_maps st A \<longleftrightarrow> (\<forall>a\<in>A. \<forall>b\<in>A. \<forall>m n. st a = Some m \<longrightarrow> st b = Some n \<longrightarrow> a \<noteq> b \<longrightarrow>
     m_start m \<le> m_start n \<longrightarrow> m_end m \<le> m_start n)"

lemma find_decide_Stop: "st a \<noteq> None \<Longrightarrow> find_decide st ip a = Stop \<longleftrightarrow> contains st ip a"
  by (auto simp: find_decide_def contains_def split: if_splits)

interpretation map_find: keyed_search "\<lambda>a. st a \<noteq> None \<and> a \<in> A \<and> disjoint_maps st A \<and> (\<forall>m. st a = Some m \<longrightarrow> m_start m \<le> m_end m)"
    "start_of st" "find_decide st" for st A
proof
  fix a b k
  assume a: "st a \<noteq> None \<and> a \<in> A \<and> disjoint_maps st A \<and> (\<forall>m. st a = Some m \<longrightarrow> m_start m \<le> m_end m)"
    and b: "st b \<noteq> None \<and> b \<in> A \<and> disjoint_maps st A \<and> (\<forall>m. st b = Some m \<longrightarrow> m_start m \<le> m_end m)"
    and le: "start_of st a \<le> start_of st b"
  then obtain m n where mn: "st a = Some m" "st b = Some n" by auto
  have "m_end m \<le> m_start n" if "a \<noteq> b" using that a b le mn by (auto simp: disjoint_maps_def start_of_def)
  moreover have "m = n" if "a = b" using that mn by simp
  moreover have "m_start n \<le> m_end n" "m_start m \<le> m_start n" using b mn le by (auto simp: start_of_def)
  ultimately show "find_decide st k a \<le> find_decide st k b"
    by (cases "a = b") (auto simp: find_decide_def mn)
next
  fix a k
  assume "st a \<noteq> None \<and> a \<in> A \<and> disjoint_maps st A \<and> (\<forall>m. st a = Some m \<longrightarrow> m_start m \<le> m_end m)" "find_decide st k a = Go_right"
  then show "start_of st a \<le> k" by (auto simp: find_decide_def start_of_def split: if_splits)
next
  fix a k
  assume "st a \<noteq> None \<and> a \<in> A \<and> disjoint_maps st A \<and> (\<forall>m. st a = Some m \<longrightarrow> m_start m \<le> m_end m)" "find_decide st k a = Go_left"
  then show "k \<le> start_of st a" by (auto simp: find_decide_def start_of_def split: if_splits)
qed

interpretation map_insert: keyed_search "\<lambda>a. st a \<noteq> None" "start_of st" "insert_decide st" for st
  by unfold_locales (auto simp: insert_decide_def start_of_def split: if_splits)

section \<open>The invariant of a collection\<close>

definition in_maps :: "addr \<Rightarrow> map_obj \<Rightarrow> bool" where
  "in_maps maps m \<longleftrightarrow> \<not> m_rb_empty m \<and> m_node m = maps \<and> m_refcnt m \<noteq> 0"

definition maps_ok :: "'a map_state_scheme \<Rightarrow> addr \<Rightarrow> maps_obj \<Rightarrow> bool" where
  "maps_ok s maps ms \<longleftrightarrow> maps \<noteq> 0 \<and> rb_ok (ms_entries ms) \<and> distinct (inorder (ms_entries ms)) \<and>
     sorted (map (start_of (map_st s)) (inorder (ms_entries ms))) \<and>
     distinct (ms_head ms) \<and> set (ms_head ms) = set (inorder (ms_entries ms)) \<and>
     (\<forall>a\<in>set (ms_head ms). a \<noteq> 0 \<and> (\<exists>m. map_st s a = Some m \<and> in_maps maps m))"

lemma maps_ok_entry: "\<lbrakk>maps_ok s maps ms; a \<in> set (inorder (ms_entries ms))\<rbrakk> \<Longrightarrow> \<exists>m. map_st s a = Some m \<and> in_maps maps m"
  by (auto simp: maps_ok_def)

lemma maps_ok_stored: "maps_ok s maps ms \<Longrightarrow> \<forall>a\<in>set (inorder (ms_entries ms)). map_st s a \<noteq> None"
  by (auto simp: maps_ok_def)

text \<open>The tree search alone.\<close>

lemma find_in_tree:
  assumes ok: "maps_ok s maps ms" and dis: "disjoint_maps (map_st s) (set (ms_head ms))"
    and wf: "\<forall>a\<in>set (ms_head ms). \<forall>m. map_st s a = Some m \<longrightarrow> m_start m \<le> m_end m"
  shows "(\<exists>a. rbt_find (find_decide (map_st s) ip) (ms_entries ms) = Some a \<and> a \<in> set (ms_head ms) \<and> contains (map_st s) ip a \<and>
       (\<forall>b\<in>set (ms_head ms). contains (map_st s) ip b \<longrightarrow> b = a)) \<or>
    rbt_find (find_decide (map_st s) ip) (ms_entries ms) = None \<and> (\<forall>b\<in>set (ms_head ms). \<not> contains (map_st s) ip b)"
proof -
  have s: "sorted (map (start_of (map_st s)) (inorder (ms_entries ms)))" and h: "set (ms_head ms) = set (inorder (ms_entries ms))"
    using ok by (simp_all add: maps_ok_def)
  let ?A = "set (ms_head ms)"
  have v: "\<forall>a\<in>set (inorder (ms_entries ms)). map_st s a \<noteq> None \<and> a \<in> ?A \<and> disjoint_maps (map_st s) ?A \<and>
      (\<forall>m. map_st s a = Some m \<longrightarrow> m_start m \<le> m_end m)"
    using maps_ok_stored [OF ok] dis wf h by auto
  have stop: "find_decide (map_st s) ip a = Stop \<longleftrightarrow> contains (map_st s) ip a" if "a \<in> ?A" for a
    using that maps_ok_stored [OF ok] h by (intro find_decide_Stop) auto
  have unique: "a = b" if ab: "a \<in> ?A" "b \<in> ?A" and c: "contains (map_st s) ip a" "contains (map_st s) ip b" for a b
  proof (rule ccontr)
    assume ne: "a \<noteq> b"
    obtain m n where mn: "map_st s a = Some m" "map_st s b = Some n" "m_start m \<le> ip" "ip < m_end m" "m_start n \<le> ip" "ip < m_end n"
      using c by (auto simp: contains_def split: option.splits)
    have "m_start m \<le> m_start n \<or> m_start n \<le> m_start m" by (rule linear)
    then have "m_end m \<le> m_start n \<or> m_end n \<le> m_start m"
      using dis ab ne mn(1,2) unfolding disjoint_maps_def by metis
    with mn(3-6) show False by (meson leD order_trans order_le_less_trans)
  qed
  show ?thesis
  proof (cases "rbt_find (find_decide (map_st s) ip) (ms_entries ms)")
    case None
    then show ?thesis using map_find.find_missing [OF s v None] stop h by auto
  next
    case (Some a)
    then show ?thesis using map_find.find_found [OF s v Some] stop h unique by auto
  qed
qed

lemma upd_maps_id: "maps_st s a = Some m \<Longrightarrow> s\<lparr>maps_st := (maps_st s)(a \<mapsto> m)\<rparr> = s"
  by (simp add: fun_upd_idem)

lemma maps__find_ok:
  assumes st: "maps_st s maps = Some ms" and ok: "maps_ok s maps ms" and free: "ms_lock ms = Free"
    and dis: "disjoint_maps (map_st s) (set (ms_head ms))"
    and wf: "\<forall>a\<in>set (ms_head ms). \<forall>m. map_st s a = Some m \<longrightarrow> m_start m \<le> m_end m"
  shows "(\<exists>a. maps__find s maps ip = Some (a, s) \<and> a \<in> set (ms_head ms) \<and> contains (map_st s) ip a \<and>
       (\<forall>b\<in>set (ms_head ms). contains (map_st s) ip b \<longrightarrow> b = a)) \<or>
    maps__find s maps ip = Some (0, s) \<and> (\<forall>b\<in>set (ms_head ms). \<not> contains (map_st s) ip b)"
proof -
  obtain l where l: "down_read (singlethreaded s) Free = Some (0, l)" "up_read (singlethreaded s) l = Some (0, Free)"
    using read_lock.free [of "singlethreaded s"] read_lock.paired by blast
  have id: "s\<lparr>maps_st := (maps_st s)(maps \<mapsto> ms\<lparr>ms_lock := Free\<rparr>)\<rparr> = s"
    using st free by (cases ms) (simp add: fun_upd_idem)
  have eq: "maps__find s maps ip = (case rbt_find (find_decide (map_st s) ip) (ms_entries ms) of
      None \<Rightarrow> Some (0, s) | Some a \<Rightarrow> if map_st s a = None then None else Some (a, s))"
    using l st by (simp add: maps__find_def free upd_maps_def id split: option.split)
  have stored: "map_st s a \<noteq> None" if "a \<in> set (ms_head ms)" for a
    using that ok by (auto simp: maps_ok_def)
  show ?thesis using find_in_tree [OF ok dis wf, of ip]
  proof (elim disjE exE conjE)
    fix a
    assume a: "rbt_find (find_decide (map_st s) ip) (ms_entries ms) = Some a" "a \<in> set (ms_head ms)" "contains (map_st s) ip a"
      "\<forall>b\<in>set (ms_head ms). contains (map_st s) ip b \<longrightarrow> b = a"
    have "maps__find s maps ip = Some (a, s)" unfolding eq a(1) using stored [OF a(2)] by (simp only: option.case if_False)
    show ?thesis by (rule disjI1, rule exI [of _ a]) (intro conjI \<open>maps__find s maps ip = Some (a, s)\<close> a(2-4))
  next
    assume "rbt_find (find_decide (map_st s) ip) (ms_entries ms) = None" "\<forall>b\<in>set (ms_head ms). \<not> contains (map_st s) ip b"
    then show ?thesis using eq by simp
  qed
qed

section \<open>Inserting a map\<close>

lemma start_of_upd: "\<lbrakk>st a = Some m; m_start m' = m_start m\<rbrakk> \<Longrightarrow> start_of (st(a \<mapsto> m')) = start_of st"
  by (auto simp: start_of_def)

lemma maps__insert_ok:
  assumes st: "maps_st s maps = Some ms" and ok: "maps_ok s maps ms" and free: "ms_lock ms = Free"
    and m: "map_st s mp = Some m" "mp \<noteq> 0" "mp \<notin> set (ms_head ms)" "m_refcnt m + 1 \<noteq> 0"
  defines "m' \<equiv> m\<lparr>m_rb_empty := False, m_node := maps, m_refcnt := m_refcnt m + 1\<rparr>"
  shows "\<exists>t. maps__insert s maps mp = Some (s\<lparr>maps_st := (maps_st s)(maps \<mapsto> ms\<lparr>ms_entries := t, ms_head := ms_head ms @ [mp]\<rparr>),
       map_st := (map_st s)(mp \<mapsto> m')\<rparr>) \<and>
     maps_ok (s\<lparr>maps_st := (maps_st s)(maps \<mapsto> ms\<lparr>ms_entries := t, ms_head := ms_head ms @ [mp]\<rparr>), map_st := (map_st s)(mp \<mapsto> m')\<rparr>)
       maps (ms\<lparr>ms_entries := t, ms_head := ms_head ms @ [mp]\<rparr>)"
proof -
  obtain l where l: "down_write (singlethreaded s) Free = Some (0, l)" "up_write (singlethreaded s) l = Some (0, Free)"
    using write_lock.free [of "singlethreaded s"] write_lock.paired by blast
  have s: "sorted (map (start_of (map_st s)) (inorder (ms_entries ms)))" "rb_ok (ms_entries ms)"
    and h: "set (ms_head ms) = set (inorder (ms_entries ms))"
    using ok by (simp_all add: maps_ok_def)
  have key: "start_of (map_st s) mp = m_start m" using m by (simp add: start_of_def)
  have go: "insert_decide (map_st s) (m_start m) a \<noteq> Stop" if "a \<in> set (inorder (ms_entries ms))" for a
    using maps_ok_entry [OF ok that] by (auto simp: insert_decide_def split: if_splits)
  obtain t where t: "rbt_insert (insert_decide (map_st s) (m_start m)) mp (ms_entries ms) = Some (Inr t)" "rb_ok t"
    "sorted (map (start_of (map_st s)) (inorder t))" "\<exists>xs ys. inorder (ms_entries ms) = xs @ ys \<and> inorder t = xs @ mp # ys"
    using map_insert.insert_sorted [OF s(2,1) maps_ok_stored [OF ok], of mp] go unfolding key by blast
  let ?ms = "ms\<lparr>ms_entries := t, ms_head := ms_head ms @ [mp]\<rparr>"
  let ?s = "s\<lparr>maps_st := (maps_st s)(maps \<mapsto> ?ms), map_st := (map_st s)(mp \<mapsto> m')\<rparr>"
  have eq: "maps__insert s maps mp = Some ?s"
    using l st m t(1) free
    by (cases s; cases ms) (simp add: maps__insert_def uu_maps__insert_def upd_maps_def upd_map_def map__get_def refcount_inc_def m'_def)
  have st': "start_of ((map_st s)(mp \<mapsto> m')) = start_of (map_st s)" by (rule start_of_upd [of _ _ m]) (simp_all add: m(1) m'_def)
  have "distinct (inorder t)" "set (inorder t) = insert mp (set (ms_head ms))" using t(4) ok m(3) by (auto simp: maps_ok_def)
  moreover have "in_maps maps m'" using m(4) by (simp add: in_maps_def m'_def)
  ultimately have "maps_ok ?s maps ?ms"
    using ok t(2,3) m(2,3) by (auto simp: maps_ok_def st')
  with eq show ?thesis by blast
qed

section \<open>Dropping a collection\<close>

text \<open>Dropping the last reference to a collection whose maps nobody else holds frees the collection and every
  map in it, and gives back the references of the maps to their DSOs.\<close>

definition drop_ref :: "addr \<Rightarrow> (addr \<rightharpoonup> dso) \<Rightarrow> (addr \<rightharpoonup> dso)" where
  "drop_ref d st = (if d = 0 then st else st(d := map_option (\<lambda>x. x\<lparr>d_refcnt := d_refcnt x - 1\<rparr>) (st d)))"

lemma dom_drop_ref [simp]: "drop_ref d st a = None \<longleftrightarrow> st a = None"
  by (auto simp: drop_ref_def)

lemma dso__put_eq: "\<lbrakk>d = 0 \<or> dso_st s d \<noteq> None\<rbrakk> \<Longrightarrow> dso__put s d = Some (s\<lparr>dso_st := drop_ref d (dso_st s)\<rparr>)"
  by (auto simp: dso__put_def upd_dso_def refcount_dec_and_test_def drop_ref_def dso__delete_def)

definition dso_of :: "(addr \<rightharpoonup> map_obj) \<Rightarrow> addr \<Rightarrow> addr" where
  "dso_of st a = (case st a of Some m \<Rightarrow> m_dso m | None \<Rightarrow> 0)"

definition droppable :: "'a map_state_scheme \<Rightarrow> addr \<Rightarrow> bool" where
  "droppable s a \<longleftrightarrow> (case map_st s a of Some m \<Rightarrow> m_refcnt m = 1 \<and> (m_dso m = 0 \<or> dso_st s (m_dso m) \<noteq> None) | None \<Rightarrow> False)"

lemma droppable_maps [simp]: "droppable (s\<lparr>maps_st := x\<rparr>) a = droppable s a"
  by (simp add: droppable_def split: option.split)

lemma map__put_last:
  assumes "map_st s a = Some m" "m_refcnt m = 1" "m_rb_empty m" "m_node m = maps" "maps \<noteq> 0" "maps_st s maps = Some ms" "a \<noteq> 0"
    "m_dso m = 0 \<or> dso_st s (m_dso m) \<noteq> None"
  shows "map__put s a = Some (s\<lparr>dso_st := drop_ref (m_dso m) (dso_st s), map_st := (map_st s)(a := None),
    maps_st := (maps_st s)(maps \<mapsto> ms\<lparr>ms_head := remove1 a (ms_head ms)\<rparr>)\<rparr>)"
  using assms
  by (cases s) (simp add: map__put_def upd_map_def refcount_dec_and_test_def map_list_del_init_def upd_maps_def
      map__delete_def map__exit_def dso__put_eq)

lemma rbt_first_next:
  assumes "inorder t = a # xs" "inorder t' = xs"
  shows "rbt_next t a = rbt_first t'"
  using assms by (simp add: rbt_next_def rbt_first_def split: list.split)

lemma purge_loop_ok:
  assumes "maps_st s maps = Some ms" "maps_ok s maps ms" "\<forall>a\<in>set (ms_head ms). droppable s a" "inorder (ms_entries ms) = xs"
  shows "\<exists>t. inorder t = [] \<and> maps_purge_loop s maps (rbt_first (ms_entries ms)) =
    Some (s\<lparr>dso_st := fold drop_ref (map (dso_of (map_st s)) xs) (dso_st s), map_st := (\<lambda>a. if a \<in> set xs then None else map_st s a),
      maps_st := (maps_st s)(maps \<mapsto> ms\<lparr>ms_entries := t, ms_head := []\<rparr>)\<rparr>)"
  using assms
proof (induction xs arbitrary: s ms)
  case Nil
  have "ms_head ms = []" using Nil.prems(2,4) by (simp add: maps_ok_def)
  then have "ms\<lparr>ms_entries := ms_entries ms, ms_head := []\<rparr> = ms" by (cases ms) simp
  then have "s\<lparr>dso_st := dso_st s, map_st := map_st s, maps_st := (maps_st s)(maps \<mapsto> ms\<lparr>ms_entries := ms_entries ms, ms_head := []\<rparr>)\<rparr> = s"
    using Nil.prems(1) by (cases s) (simp add: fun_upd_idem)
  then show ?case using Nil.prems(4) by (intro exI [of _ "ms_entries ms"]) (subst maps_purge_loop.simps, simp add: rbt_first_def)
next
  case (Cons a xs)
  note st = Cons.prems(1) and ok = Cons.prems(2) and drop = Cons.prems(3) and xs = Cons.prems(4)
  have h: "set (ms_head ms) = set (a # xs)" "distinct (a # xs)" "distinct (ms_head ms)" "rb_ok (ms_entries ms)" "maps \<noteq> 0"
    using ok xs by (auto simp: maps_ok_def)
  obtain m where m: "map_st s a = Some m" "in_maps maps m" "a \<noteq> 0" using ok h(1) by (force simp: maps_ok_def)
  have d: "m_refcnt m = 1" "m_dso m = 0 \<or> dso_st s (m_dso m) \<noteq> None" using drop h(1) m(1) by (auto simp: droppable_def)
  obtain t where t: "rbt_erase a (ms_entries ms) = Some t" "rb_ok t" "inorder t = xs"
    using rbt_erase_ok [of "ms_entries ms" a] h(2,4) xs by auto
  let ?ms = "ms\<lparr>ms_entries := t, ms_head := remove1 a (ms_head ms)\<rparr>"
  let ?s = "s\<lparr>dso_st := drop_ref (m_dso m) (dso_st s), map_st := (map_st s)(a := None), maps_st := (maps_st s)(maps \<mapsto> ?ms)\<rparr>"
  have put: "map__put (s\<lparr>maps_st := (maps_st s)(maps \<mapsto> ms\<lparr>ms_entries := t\<rparr>), map_st := (map_st s)(a \<mapsto> m\<lparr>m_rb_empty := True\<rparr>)\<rparr>) a = Some ?s"
    by (subst map__put_last [where m = "m\<lparr>m_rb_empty := True\<rparr>" and maps = maps and ms = "ms\<lparr>ms_entries := t\<rparr>"])
      (use m d h(5) in \<open>auto simp: in_maps_def\<close>)
  have nx: "rbt_next (ms_entries ms) a = rbt_first t" using xs t(3) by (rule rbt_first_next)
  have first: "rbt_first (ms_entries ms) = a" using xs by (simp add: rbt_first_def)
  have step: "maps_purge_loop s maps a = maps_purge_loop ?s maps (rbt_first t)"
    using put m(1,3) st t(1) by (subst maps_purge_loop.simps) (simp add: upd_maps_def upd_map_def nx)
  have ne: "b \<noteq> a" if "b \<in> set xs" for b using that h(2) by auto
  have hs: "set (remove1 a (ms_head ms)) = set xs" using h(1-3) by auto
  have keys: "map (start_of ((map_st s)(a := None))) xs = map (start_of (map_st s)) xs"
    using ne by (auto simp: start_of_def)
  have ok': "maps_ok ?s maps ?ms"
    using ok t(2,3) h hs xs ne unfolding maps_ok_def by (simp add: keys)
  have drop': "\<forall>b\<in>set (ms_head ?ms). droppable ?s b"
    using drop h(1) hs ne by (auto simp: droppable_def split: option.splits)
  have st': "maps_st ?s maps = Some ?ms" "inorder (ms_entries ?ms) = xs" using t(3) by simp_all
  obtain t' where t': "inorder t' = []" "maps_purge_loop ?s maps (rbt_first (ms_entries ?ms)) =
      Some (?s\<lparr>dso_st := fold drop_ref (map (dso_of (map_st ?s)) xs) (dso_st ?s), map_st := (\<lambda>b. if b \<in> set xs then None else map_st ?s b),
        maps_st := (maps_st ?s)(maps \<mapsto> ?ms\<lparr>ms_entries := t', ms_head := []\<rparr>)\<rparr>)"
    using Cons.IH [OF st'(1) ok' drop' st'(2)] by blast
  have e: "map (dso_of ((map_st s)(a := None))) xs = map (dso_of (map_st s)) xs" "dso_of (map_st s) a = m_dso m"
    "(\<lambda>b. if b \<in> set xs then None else if b = a then None else map_st s b) = (\<lambda>b. if b = a \<or> b \<in> set xs then None else map_st s b)"
    using ne m(1) by (auto simp: dso_of_def)
  have "maps_purge_loop s maps a = maps_purge_loop ?s maps (rbt_first (ms_entries ?ms))" using step by simp
  then show ?case using t'(1) unfolding first t'(2) by (intro exI [of _ t']) (simp add: e cong: if_cong, simp add: fun_upd_def)
qed

lemma maps__put_last:
  assumes st: "maps_st s maps = Some ms" and ok: "maps_ok s maps ms" and drop: "\<forall>a\<in>set (ms_head ms). droppable s a"
    and last: "ms_refcnt ms = 1" and free: "ms_lock ms = Free"
  shows "maps__put s maps = Some (s\<lparr>dso_st := fold drop_ref (map (dso_of (map_st s)) (inorder (ms_entries ms))) (dso_st s),
    map_st := (\<lambda>a. if a \<in> set (ms_head ms) then None else map_st s a), maps_st := (maps_st s)(maps := None)\<rparr>)"
proof -
  obtain l where l: "down_write (singlethreaded s) Free = Some (0, l)" "up_write (singlethreaded s) l = Some (0, Free)"
    using write_lock.free [of "singlethreaded s"] write_lock.paired by blast
  let ?ms = "ms\<lparr>ms_refcnt := 0, ms_lock := l\<rparr>" and ?xs = "inorder (ms_entries ms)"
  let ?s = "s\<lparr>maps_st := (maps_st s)(maps \<mapsto> ?ms)\<rparr>"
  have h: "set (ms_head ms) = set ?xs" "maps \<noteq> 0" using ok by (simp_all add: maps_ok_def)
  have "maps_ok ?s maps ?ms" using ok by (simp add: maps_ok_def)
  moreover have "\<forall>a\<in>set (ms_head ?ms). droppable ?s a" using drop by simp
  ultimately obtain t where t: "maps_purge_loop ?s maps (rbt_first (ms_entries ms)) =
    Some (?s\<lparr>dso_st := fold drop_ref (map (dso_of (map_st s)) ?xs) (dso_st s), map_st := (\<lambda>a. if a \<in> set ?xs then None else map_st s a),
      maps_st := (maps_st ?s)(maps \<mapsto> ?ms\<lparr>ms_entries := t, ms_head := []\<rparr>)\<rparr>)"
    using purge_loop_ok [of ?s maps ?ms ?xs] by (simp cong: if_cong) blast
  show ?thesis
    using l st t h last free
    by (simp add: maps__put_def refcount_dec_and_test_def upd_maps_def maps__delete_def maps__exit_def uu_maps__purge_def)
qed

text \<open>A map somebody else still holds survives the collection, but its list node then points into freed
  memory: dropping the last reference to it goes through a freed object.\<close>

lemma map__put_dangling:
  assumes "map_st s a = Some m" "m_refcnt m = 1" "m_node m \<noteq> 0" "maps_st s (m_node m) = None" "a \<noteq> 0"
  shows "map__put s a = None"
  using assms by (simp add: map__put_def upd_map_def refcount_dec_and_test_def map_list_del_init_def upd_maps_def)

section \<open>Creating a map\<close>

definition new_map :: "mmap2_event \<Rightarrow> addr \<Rightarrow> map_obj" where
  "new_map ev d = \<lparr>m_rb_empty = True, m_node = 0, m_start = e_start ev, m_end = e_start ev + e_len ev, m_prot = e_prot ev,
     m_flags = e_flags ev, m_pgoff = e_pgoff ev, m_reloc = 0, m_maj = e_maj ev, m_min = e_min ev, m_ino = e_ino ev,
     m_ino_generation = e_ino_generation ev, m_dso = d, m_refcnt = 1\<rparr>"

lemma named_name: "\<lbrakk>dsos_ok s; named s n a\<rbrakk> \<Longrightarrow> \<exists>x. dso_st s a = Some x \<and> d_name x = n"
  by (fastforce simp: named_def dsos_ok_def dso_linked_def long_name_of_def)

text \<open>A lookup or creation of a DSO keeps the names of all DSOs.\<close>

lemma findnew_names:
  assumes ok: "dsos_ok s" "dsos_ok s'" and d: "named s' n d" "named s n d \<or> d = next_addr s"
    and rest: "\<forall>b. b \<noteq> d \<longrightarrow> dso_st s' b = dso_st s b" and b: "dso_st s b = Some x"
  shows "\<exists>y. dso_st s' b = Some y \<and> d_name y = d_name x"
proof (cases "b = d")
  case True
  then have "named s n d" using d(2) b ok(1) by (auto simp: dsos_ok_def)
  then show ?thesis using named_name [OF ok(1), of n d] named_name [OF ok(2) d(1)] True b by auto
qed (use rest b in simp)

lemma map__new_ok:
  assumes ok: "dsos_ok s" and free: "dsos_lock s = Free"
  shows "\<exists>d D n h t. map__new s ev = Some (next_addr s, s\<lparr>dso_st := D, next_addr := n, dsos_head := h, dsos_root := t,
      map_st := (map_st s)(next_addr s \<mapsto> new_map ev d)\<rparr>) \<and>
    dsos_ok (s\<lparr>dso_st := D, next_addr := n, dsos_head := h, dsos_root := t\<rparr>) \<and> next_addr s < n \<and> d \<noteq> 0 \<and>
    named (s\<lparr>dso_st := D, next_addr := n, dsos_head := h, dsos_root := t\<rparr>) (e_filename ev) d \<and>
    (\<forall>b x. dso_st s b = Some x \<longrightarrow> (\<exists>y. D b = Some y \<and> d_name y = d_name x))"
proof -
  let ?s = "s\<lparr>next_addr := next_addr s + 1\<rparr>"
  have ok': "dsos_ok ?s" using ok by (auto simp: dsos_ok_def less_Suc_eq)
  then obtain d s' where f: "dsos__findnew ?s (e_filename ev) = Some (d, s')" "dsos_ok s'" "named s' (e_filename ev) d" "d \<noteq> 0"
    "\<exists>D n h t. s' = ?s\<lparr>dso_st := D, next_addr := n, dsos_head := h, dsos_root := t\<rparr>" "next_addr s + 1 \<le> next_addr s'"
    "named ?s (e_filename ev) d \<or> d = next_addr ?s" "\<forall>b. b \<noteq> d \<longrightarrow> dso_st s' b = dso_st ?s b"
    using dsos__findnew_ok [of ?s "e_filename ev"] free by (simp cong: if_cong) (metis (full_types))
  obtain D n h t where s': "s' = s\<lparr>dso_st := D, next_addr := n, dsos_head := h, dsos_root := t\<rparr>" using f(5) by auto
  obtain x where x: "D d = Some x" using f(2,3) s' by (fastforce simp: named_def dsos_ok_def)
  have "map__new s ev = Some (next_addr s, s\<lparr>dso_st := D, next_addr := n, dsos_head := h, dsos_root := t,
      map_st := (map_st s)(next_addr s \<mapsto> new_map ev d)\<rparr>)"
    using f(1,4) x
    by (cases s) (simp add: map__new_def machine__findnew_dso_def s' map__init_def dso__get_def upd_dso_def refcount_inc_def
        dso__put_def refcount_dec_and_test_def dso__delete_def new_map_def refcount_set_def fun_upd_idem)
  moreover have "dsos_ok (s\<lparr>dso_st := D, next_addr := n, dsos_head := h, dsos_root := t\<rparr>)"
    "named (s\<lparr>dso_st := D, next_addr := n, dsos_head := h, dsos_root := t\<rparr>) (e_filename ev) d" "next_addr s < n"
    using f(2,3,6) s' by simp_all
  moreover have "\<forall>b x. dso_st s b = Some x \<longrightarrow> (\<exists>y. D b = Some y \<and> d_name y = d_name x)"
    using findnew_names [OF ok' f(2,3,7,8)] s' by simp
  ultimately show ?thesis using f(4) by blast
qed

end
