(* ===== verification/Machine.thy ===== *)
theory Machine
  imports Maps
begin

text \<open>
  Threads and the machine (\<^verbatim>\<open>src/thread.c\<close>, \<^verbatim>\<open>src/machine.c\<close>), with the part of
  \<^verbatim>\<open>src/unwind_libunwind.c\<close> that attaches an address space of libunwind to a thread. Threads are found by
  thread id in a table of 256 red-black trees with a one-entry cache each; a thread that is not the leader of its
  thread group shares the maps of the leader, which is looked up, and created if need be, on the way.
\<close>

section \<open>State\<close>

text \<open>\<^verbatim>\<open>struct thread\<close> keeps its tree node and its list node in a union. \<open>In_tree\<close>: linked as a tree
  node; \<open>Cleared\<close>: \<^verbatim>\<open>RB_CLEAR_NODE\<close> was the last write; \<open>Dead b\<close>: linked in the list of dead threads
  of bucket \<open>b\<close>; \<open>Self\<close>: an initialised list node. The first word of the union is the parent word of the
  tree node and the next pointer of the list node, and it points to the node itself in the states \<open>Cleared\<close>
  and \<open>Self\<close>.\<close>

datatype thread_node = In_tree | Cleared | Dead nat | Self

definition node_RB_EMPTY :: "thread_node \<Rightarrow> bool" where
  "node_RB_EMPTY n \<longleftrightarrow> n = Cleared \<or> n = Self"

record thread_obj =
  t_node :: thread_node
  t_maps :: addr
  t_tgid :: int
  t_tid :: int
  t_name :: string
  t_addr_space :: addr
  t_ulops :: bool
  t_refcnt :: u32

record threads =
  th_entries :: "addr rbt"
  th_lock :: rwlock
  th_nr :: u32
  th_dead :: "addr list"
  th_last_match :: addr

text \<open>The calls the library makes to libunwind about address spaces, in order. What
  \<^verbatim>\<open>unw_create_addr_space\<close> returns is a function of the calls before it, a parameter of the model.\<close>

datatype unw_call = Create_addr_space addr | Set_caching_policy addr | Flush_cache addr | Destroy_addr_space addr

type_synonym unw_create = "unw_call list \<Rightarrow> addr"

record machine_state = map_state +
  thread_st :: "addr \<rightharpoonup> thread_obj"
  tab :: "nat \<Rightarrow> threads"
  unw_log :: "unw_call list"

definition upd_thread :: "addr \<Rightarrow> (thread_obj \<Rightarrow> thread_obj) \<Rightarrow> 'a machine_state_scheme \<Rightarrow> 'a machine_state_scheme option" where
  "upd_thread a f s = (case thread_st s a of Some t \<Rightarrow> Some (s\<lparr>thread_st := (thread_st s)(a \<mapsto> f t)\<rparr>) | None \<Rightarrow> None)"

definition upd_tab :: "nat \<Rightarrow> (threads \<Rightarrow> threads) \<Rightarrow> 'a machine_state_scheme \<Rightarrow> 'a machine_state_scheme" where
  "upd_tab b f s = s\<lparr>tab := (tab s)(b := f (tab s b))\<rparr>"

definition TASK_COMM_LEN :: nat where "TASK_COMM_LEN = 16"
definition THREADS__TABLE_SIZE :: nat where "THREADS__TABLE_SIZE = 256"
definition ENOMEM :: int where "ENOMEM = 12"

section \<open>Address spaces (unwind_libunwind.c)\<close>

definition u_prepare_access :: "unw_create \<Rightarrow> 'a machine_state_scheme \<Rightarrow> addr \<Rightarrow> (int \<times> 'a machine_state_scheme) option" where
  "u_prepare_access lib s thread = do {
     let as = lib (unw_log s);
     s \<leftarrow> upd_thread thread (\<lambda>t. t\<lparr>t_addr_space := as\<rparr>) (s\<lparr>unw_log := unw_log s @ [Create_addr_space as]\<rparr>);
     if as = 0 then Some (- ENOMEM, s)
     else Some (0, s\<lparr>unw_log := unw_log s @ [Set_caching_policy as]\<rparr>) }"

definition u_flush_access :: "'a machine_state_scheme \<Rightarrow> addr \<Rightarrow> 'a machine_state_scheme option" where
  "u_flush_access s thread = do {
     t \<leftarrow> thread_st s thread;
     Some (s\<lparr>unw_log := unw_log s @ [Flush_cache (t_addr_space t)]\<rparr>) }"

definition u_finish_access :: "'a machine_state_scheme \<Rightarrow> addr \<Rightarrow> 'a machine_state_scheme option" where
  "u_finish_access s thread = do {
     t \<leftarrow> thread_st s thread;
     Some (s\<lparr>unw_log := unw_log s @ [Destroy_addr_space (t_addr_space t)]\<rparr>) }"

definition unwind_register_ops :: "'a machine_state_scheme \<Rightarrow> addr \<Rightarrow> 'a machine_state_scheme option" where
  "unwind_register_ops s thread = upd_thread thread (\<lambda>t. t\<lparr>t_ulops := True\<rparr>) s"

definition unwind__prepare_access :: "unw_create \<Rightarrow> 'a machine_state_scheme \<Rightarrow> addr \<Rightarrow> (int \<times> 'a machine_state_scheme) option" where
  "unwind__prepare_access lib s thread = do {
     t \<leftarrow> thread_st s thread;
     if t_addr_space t \<noteq> 0 then Some (0, s)
     else do {
       s \<leftarrow> unwind_register_ops s thread;
       u_prepare_access lib s thread } }"

definition unwind__flush_access :: "'a machine_state_scheme \<Rightarrow> addr \<Rightarrow> 'a machine_state_scheme option" where
  "unwind__flush_access s thread = do { t \<leftarrow> thread_st s thread; if t_ulops t then u_flush_access s thread else Some s }"

definition unwind__finish_access :: "'a machine_state_scheme \<Rightarrow> addr \<Rightarrow> 'a machine_state_scheme option" where
  "unwind__finish_access s thread = do { t \<leftarrow> thread_st s thread; if t_ulops t then u_finish_access s thread else Some s }"

section \<open>Threads (thread.c)\<close>

definition thread__new :: "'a machine_state_scheme \<Rightarrow> int \<Rightarrow> int \<Rightarrow> addr \<times> 'a machine_state_scheme" where
  "thread__new s tgid tid = (next_addr s, s\<lparr>next_addr := next_addr s + 1, thread_st := (thread_st s)(next_addr s \<mapsto>
     \<lparr>t_node = Cleared, t_maps = 0, t_tgid = tgid, t_tid = tid, t_name = [], t_addr_space = 0, t_ulops = False,
       t_refcnt = refcount_set 1\<rparr>)\<rparr>)"

definition thread__delete :: "'a machine_state_scheme \<Rightarrow> addr \<Rightarrow> 'a machine_state_scheme option" where
  "thread__delete s thread = do {
     t \<leftarrow> thread_st s thread;
     if \<not> node_RB_EMPTY (t_node t) then None
     else do {
       s \<leftarrow> (if t_maps t \<noteq> 0 then do {
              s \<leftarrow> maps__put s (t_maps t);
              upd_thread thread (\<lambda>t. t\<lparr>t_maps := 0\<rparr>) s }
            else Some s);
       s \<leftarrow> unwind__finish_access s thread;
       Some (s\<lparr>thread_st := (thread_st s)(thread := None)\<rparr>) } }"

definition thread__get :: "'a machine_state_scheme \<Rightarrow> addr \<Rightarrow> (addr \<times> 'a machine_state_scheme) option" where
  "thread__get s thread =
     (if thread \<noteq> 0 then do { s \<leftarrow> upd_thread thread (\<lambda>t. t\<lparr>t_refcnt := refcount_inc (t_refcnt t)\<rparr>) s; Some (thread, s) }
      else Some (thread, s))"

text \<open>\<^verbatim>\<open>list_del_init(&thread->node)\<close>. On a union whose last use was as a tree node, the previous pointer is a
  child pointer, and the write through it is a wild one.\<close>

definition thread_list_del_init :: "'a machine_state_scheme \<Rightarrow> addr \<Rightarrow> 'a machine_state_scheme option" where
  "thread_list_del_init s thread = do {
     t \<leftarrow> thread_st s thread;
     (case t_node t of
        Dead b \<Rightarrow> upd_thread thread (\<lambda>t. t\<lparr>t_node := Self\<rparr>) (upd_tab b (\<lambda>T. T\<lparr>th_dead := remove1 thread (th_dead T)\<rparr>) s)
      | Self \<Rightarrow> Some s
      | Cleared \<Rightarrow> None
      | In_tree \<Rightarrow> None) }"

definition thread__put :: "'a machine_state_scheme \<Rightarrow> addr \<Rightarrow> 'a machine_state_scheme option" where
  "thread__put s thread =
     (if thread = 0 then Some s
      else do {
        t \<leftarrow> thread_st s thread;
        let (zero, n) = refcount_dec_and_test (t_refcnt t);
        s \<leftarrow> upd_thread thread (\<lambda>t. t\<lparr>t_refcnt := n\<rparr>) s;
        if zero then do { s \<leftarrow> thread_list_del_init s thread; thread__delete s thread } else Some s })"

text \<open>\<^verbatim>\<open>thread__init_maps\<close>; \<open>findnew\<close> is \<^verbatim>\<open>__machine__findnew_thread\<close>, with which it is mutually recursive.\<close>

type_synonym 'a findnew = "'a machine_state_scheme \<Rightarrow> int \<Rightarrow> int \<Rightarrow> (addr \<times> 'a machine_state_scheme) option"

definition thread__init_maps :: "'a findnew \<Rightarrow> 'a machine_state_scheme \<Rightarrow> addr \<Rightarrow> (int \<times> 'a machine_state_scheme) option" where
  "thread__init_maps findnew s thread = do {
     t \<leftarrow> thread_st s thread;
     let tgid = t_tgid t;
     s \<leftarrow> (if tgid = t_tid t then
            (case maps__new s of (maps, s) \<Rightarrow> upd_thread thread (\<lambda>t. t\<lparr>t_maps := maps\<rparr>) s)
          else do {
            (leader, s) \<leftarrow> findnew s tgid tgid;
            if leader \<noteq> 0 then do {
              l \<leftarrow> thread_st s leader;
              (maps, s) \<leftarrow> maps__get s (t_maps l);
              s \<leftarrow> upd_thread thread (\<lambda>t. t\<lparr>t_maps := maps\<rparr>) s;
              thread__put s leader }
            else Some s });
     t \<leftarrow> thread_st s thread;
     Some (if t_maps t \<noteq> 0 then 0 else - 1, s) }"

definition thread__insert_map :: "unw_create \<Rightarrow> 'a machine_state_scheme \<Rightarrow> addr \<Rightarrow> addr \<Rightarrow> (int \<times> 'a machine_state_scheme) option" where
  "thread__insert_map lib s thread mp = do {
     (ret, s) \<leftarrow> unwind__prepare_access lib s thread;
     if ret \<noteq> 0 then Some (ret, s)
     else do {
       t \<leftarrow> thread_st s thread;
       s \<leftarrow> maps__insert s (t_maps t) mp;
       Some (0, s) } }"

definition strncmp :: "string \<Rightarrow> string \<Rightarrow> nat \<Rightarrow> int" where
  "strncmp a b n = strcmp (take n a) (take n b)"

definition thread__set_comm :: "'a machine_state_scheme \<Rightarrow> addr \<Rightarrow> string \<Rightarrow> 'a machine_state_scheme option" where
  "thread__set_comm s thread str = do {
     t \<leftarrow> thread_st s thread;
     if strncmp str (t_name t) TASK_COMM_LEN = 0 then do {
       s \<leftarrow> upd_thread thread (\<lambda>t. t\<lparr>t_name := take TASK_COMM_LEN str\<rparr>) s;
       unwind__flush_access s thread }
     else Some s }"

section \<open>The machine (machine.c)\<close>

definition threads_zero :: threads where
  "threads_zero = \<lparr>th_entries = Leaf, th_lock = snd (init_rwsem Free), th_nr = 0, th_dead = [], th_last_match = 0\<rparr>"

definition machine__threads_init :: "'a machine_state_scheme \<Rightarrow> 'a machine_state_scheme" where
  "machine__threads_init s = s\<lparr>tab := (\<lambda>i. if i < THREADS__TABLE_SIZE then threads_zero else tab s i)\<rparr>"

definition machine__init :: "'a machine_state_scheme \<Rightarrow> 'a machine_state_scheme" where
  "machine__init s = machine__threads_init (dsos__init s)"

text \<open>\<^verbatim>\<open>xmalloc\<close> returns memory or fails its assertion; \<^verbatim>\<open>machine__init\<close> clears all of it.\<close>

definition machine__new :: "'a machine_state_scheme \<Rightarrow> 'a machine_state_scheme" where
  "machine__new s = machine__init s"

definition machine__threads :: "int \<Rightarrow> nat" where
  "machine__threads tid = unat (word_of_int tid :: u32) mod THREADS__TABLE_SIZE"

definition uu_machine__remove_thread :: "'a machine_state_scheme \<Rightarrow> addr \<Rightarrow> bool \<Rightarrow> 'a machine_state_scheme option" where
  "uu_machine__remove_thread s th lock = do {
     t \<leftarrow> thread_st s th;
     let b = machine__threads (t_tid t);
     let s = (if th_last_match (tab s b) = th then upd_tab b (\<lambda>T. T\<lparr>th_last_match := 0\<rparr>) s else s);
     if refcount_read (t_refcnt t) = 0 then None
     else do {
       s \<leftarrow> (if lock then do {
              (_, l) \<leftarrow> down_write (singlethreaded s) (th_lock (tab s b));
              Some (upd_tab b (\<lambda>T. T\<lparr>th_lock := l\<rparr>) s) }
            else Some s);
       e \<leftarrow> rbt_erase th (th_entries (tab s b));
       let s = upd_tab b (\<lambda>T. T\<lparr>th_entries := e, th_nr := th_nr T - 1, th_dead := th_dead T @ [th]\<rparr>) s;
       s \<leftarrow> upd_thread th (\<lambda>t. t\<lparr>t_node := Dead b\<rparr>) s;
       s \<leftarrow> (if lock then do {
              (_, l) \<leftarrow> up_write (singlethreaded s) (th_lock (tab s b));
              Some (upd_tab b (\<lambda>T. T\<lparr>th_lock := l\<rparr>) s) }
            else Some s);
       thread__put s th } }"

text \<open>The inner loop of \<^verbatim>\<open>machine__delete_threads\<close>.\<close>

partial_function (option) delete_threads_loop :: "'a machine_state_scheme \<Rightarrow> nat \<Rightarrow> addr \<Rightarrow> 'a machine_state_scheme option" where
  "delete_threads_loop s b nd =
     (if nd = 0 then Some s
      else do {
        let t = nd;
        let nd = rbt_next (th_entries (tab s b)) nd;
        s \<leftarrow> uu_machine__remove_thread s t False;
        delete_threads_loop s b nd })"

declare delete_threads_loop.simps [code]

definition delete_bucket :: "'a machine_state_scheme \<Rightarrow> nat \<Rightarrow> 'a machine_state_scheme option" where
  "delete_bucket s b = do {
     (_, l) \<leftarrow> down_write (singlethreaded s) (th_lock (tab s b));
     let s = upd_tab b (\<lambda>T. T\<lparr>th_lock := l\<rparr>) s;
     s \<leftarrow> delete_threads_loop s b (rbt_first (th_entries (tab s b)));
     (_, l) \<leftarrow> up_write (singlethreaded s) (th_lock (tab s b));
     Some (upd_tab b (\<lambda>T. T\<lparr>th_lock := l\<rparr>) s) }"

fun delete_buckets :: "'a machine_state_scheme \<Rightarrow> nat list \<Rightarrow> 'a machine_state_scheme option" where
  "delete_buckets s [] = Some s"
| "delete_buckets s (b # bs) = do { s \<leftarrow> delete_bucket s b; delete_buckets s bs }"

definition machine__delete_threads :: "'a machine_state_scheme \<Rightarrow> 'a machine_state_scheme option" where
  "machine__delete_threads s = delete_buckets s [0..<THREADS__TABLE_SIZE]"

definition machine__exit :: "'a machine_state_scheme \<Rightarrow> 'a machine_state_scheme option" where
  "machine__exit s = do {
     s \<leftarrow> dsos__exit s;
     let _ = map (\<lambda>i. exit_rwsem (th_lock (tab s i))) [0..<THREADS__TABLE_SIZE];
     Some s }"

text \<open>The machine is the state itself; freeing its memory at the end has no further effect here.\<close>

definition machine__delete :: "'a machine_state_scheme \<Rightarrow> 'a machine_state_scheme option" where
  "machine__delete s = do { s \<leftarrow> machine__delete_threads s; machine__exit s }"

definition machine__update_thread_tgid :: "'a findnew \<Rightarrow> 'a machine_state_scheme \<Rightarrow> addr \<Rightarrow> int \<Rightarrow> 'a machine_state_scheme option" where
  "machine__update_thread_tgid findnew s th tgid = do {
     t \<leftarrow> thread_st s th;
     if tgid = t_tgid t then Some s
     else do {
       s \<leftarrow> upd_thread th (\<lambda>t. t\<lparr>t_tgid := tgid\<rparr>) s;
       if tgid = t_tid t then Some s
       else do {
         (leader, s) \<leftarrow> findnew s tgid tgid;
         if leader = 0 then None
         else do {
           l \<leftarrow> thread_st s leader;
           s \<leftarrow> (if t_maps l = 0 then
                  (case maps__new s of (maps, s) \<Rightarrow> upd_thread leader (\<lambda>t. t\<lparr>t_maps := maps\<rparr>) s)
                else Some s);
           l \<leftarrow> thread_st s leader;
           t \<leftarrow> thread_st s th;
           if t_maps l = 0 then None
           else if t_maps t = t_maps l then Some s
           else do {
             s \<leftarrow> (if t_maps t \<noteq> 0 then do {
                    e \<leftarrow> maps__empty s (t_maps t);
                    if \<not> e then None else maps__put s (t_maps t) }
                  else Some s);
             (maps, s) \<leftarrow> maps__get s (t_maps l);
             s \<leftarrow> upd_thread th (\<lambda>t. t\<lparr>t_maps := maps\<rparr>) s;
             thread__put s leader } } } } }"

definition tid_decide :: "(addr \<rightharpoonup> thread_obj) \<Rightarrow> int \<Rightarrow> addr \<Rightarrow> dir" where
  "tid_decide st tid a = (case st a of
     None \<Rightarrow> Stop
   | Some t \<Rightarrow> if t_tid t = tid then Stop else if tid < t_tid t then Go_left else Go_right)"

text \<open>The two ways \<^verbatim>\<open>____machine__findnew_thread\<close> ends: with a thread that exists, and with a new one.\<close>

definition findnew_found :: "'a findnew \<Rightarrow> 'a machine_state_scheme \<Rightarrow> addr \<Rightarrow> int \<Rightarrow> (addr \<times> 'a machine_state_scheme) option" where
  "findnew_found findnew s th tgid = do {
     s \<leftarrow> machine__update_thread_tgid findnew s th tgid;
     thread__get s th }"

definition findnew_create ::
  "'a findnew \<Rightarrow> 'a machine_state_scheme \<Rightarrow> nat \<Rightarrow> int \<Rightarrow> int \<Rightarrow> (addr \<times> 'a machine_state_scheme) option" where
  "findnew_create findnew s b tgid tid = do {
     let (th, s) = thread__new s tgid tid;
     r \<leftarrow> rbt_insert (tid_decide (thread_st s) tid) th (th_entries (tab s b));
     (case r of
        Inl a \<Rightarrow> None
      | Inr e \<Rightarrow> do {
          s \<leftarrow> upd_thread th (\<lambda>t. t\<lparr>t_node := In_tree\<rparr>) (upd_tab b (\<lambda>T. T\<lparr>th_entries := e\<rparr>) s);
          (rc, s) \<leftarrow> thread__init_maps findnew s th;
          if rc \<noteq> 0 then do {
            e \<leftarrow> rbt_erase th (th_entries (tab s b));
            s \<leftarrow> upd_thread th (\<lambda>t. t\<lparr>t_node := Cleared\<rparr>) (upd_tab b (\<lambda>T. T\<lparr>th_entries := e\<rparr>) s);
            s \<leftarrow> thread__put s th;
            Some (0, s) }
          else do {
            (_, s) \<leftarrow> thread__get s th;
            Some (th, upd_tab b (\<lambda>T. T\<lparr>th_last_match := th, th_nr := th_nr T + 1\<rparr>) s) } }) }"

definition uuuu_machine__findnew_thread ::
  "'a findnew \<Rightarrow> 'a machine_state_scheme \<Rightarrow> nat \<Rightarrow> int \<Rightarrow> int \<Rightarrow> bool \<Rightarrow> (addr \<times> 'a machine_state_scheme) option" where
  "uuuu_machine__findnew_thread findnew s b tgid tid create = do {
     let last = th_last_match (tab s b);
     hit \<leftarrow> (if last \<noteq> 0 then do { t \<leftarrow> thread_st s last; Some (t_tid t = tid) } else Some False);
     if hit then findnew_found findnew s last tgid
     else do {
       let s = upd_tab b (\<lambda>T. T\<lparr>th_last_match := 0\<rparr>) s;
       (case rbt_find (tid_decide (thread_st s) tid) (th_entries (tab s b)) of
          Some th \<Rightarrow>
            if thread_st s th = None then None
            else findnew_found findnew (upd_tab b (\<lambda>T. T\<lparr>th_last_match := th\<rparr>) s) th tgid
        | None \<Rightarrow> if \<not> create then Some (0, s) else findnew_create findnew s b tgid tid) } }"

text \<open>\<^verbatim>\<open>__machine__findnew_thread\<close> with a bound on the depth of the recursion; two levels are always enough
  (\<open>findnew_depth\<close>), so \<open>uu_machine__findnew_thread\<close> is the whole function.\<close>

primrec findnew_fuel :: "nat \<Rightarrow> 'a findnew" where
  "findnew_fuel 0 s tgid tid = None"
| "findnew_fuel (Suc n) s tgid tid =
     uuuu_machine__findnew_thread (findnew_fuel n) s (machine__threads tid) tgid tid True"

definition uu_machine__findnew_thread :: "'a findnew" where
  "uu_machine__findnew_thread = findnew_fuel 2"

definition machine__findnew_thread :: "'a findnew" where
  "machine__findnew_thread s tgid tid = do {
     let b = machine__threads tid;
     (_, l) \<leftarrow> down_write (singlethreaded s) (th_lock (tab s b));
     (th, s) \<leftarrow> uu_machine__findnew_thread (upd_tab b (\<lambda>T. T\<lparr>th_lock := l\<rparr>) s) tgid tid;
     (_, l) \<leftarrow> up_write (singlethreaded s) (th_lock (tab s b));
     Some (th, upd_tab b (\<lambda>T. T\<lparr>th_lock := l\<rparr>) s) }"

section \<open>Depth of the recursion\<close>

lemma bind_ext: "(\<And>x. f x = g x) \<Longrightarrow> Option.bind m f = Option.bind m g"
  by (cases m) simp_all

lemma init_maps_cong:
  "\<lbrakk>\<And>s t. \<lbrakk>thread_st s0 th = Some t; t_tgid t \<noteq> t_tid t\<rbrakk> \<Longrightarrow> f s (t_tgid t) (t_tgid t) = g s (t_tgid t) (t_tgid t)\<rbrakk> \<Longrightarrow>
   thread__init_maps f s0 th = thread__init_maps g s0 th"
  by (cases "thread_st s0 th") (simp_all add: thread__init_maps_def Let_def)

lemma update_tgid_cong:
  "\<lbrakk>\<And>s t. \<lbrakk>thread_st s0 th = Some t; tgid \<noteq> t_tid t\<rbrakk> \<Longrightarrow> f s tgid tgid = g s tgid tgid\<rbrakk> \<Longrightarrow>
   machine__update_thread_tgid f s0 th tgid = machine__update_thread_tgid g s0 th tgid"
  by (cases "thread_st s0 th") (simp_all add: machine__update_thread_tgid_def upd_thread_def)

lemma descend_found: "descend f t fs = Inl a \<Longrightarrow> a \<in> set (inorder t) \<and> f a = Stop"
  by (induction t arbitrary: fs) (auto split: dir.splits)

lemma rbt_find_stop: "rbt_find f t = Some a \<Longrightarrow> a \<in> set (inorder t) \<and> f a = Stop"
  by (auto simp: rbt_find_def dest: descend_found split: sum.splits)

lemma findnew_found_cong:
  assumes "\<And>s. tgid \<noteq> tid \<Longrightarrow> f s tgid tgid = g s tgid tgid" "\<And>t. thread_st s th = Some t \<Longrightarrow> t_tid t = tid"
  shows "findnew_found f s th tgid = findnew_found g s th tgid"
proof -
  have "machine__update_thread_tgid f s th tgid = machine__update_thread_tgid g s th tgid"
    by (rule update_tgid_cong) (use assms in auto)
  then show ?thesis by (simp add: findnew_found_def)
qed

lemma findnew_create_cong:
  assumes "\<And>s. tgid \<noteq> tid \<Longrightarrow> f s tgid tgid = g s tgid tgid"
  shows "findnew_create f s b tgid tid = findnew_create g s b tgid tid"
proof -
  have "thread__init_maps f s' th = thread__init_maps g s' th"
    if "map_option (\<lambda>t. (t_tid t, t_tgid t)) (thread_st s' th) = Some (tid, tgid)" for s' th
    by (rule init_maps_cong) (use that assms in auto)
  then show ?thesis
    by (simp add: findnew_create_def thread__new_def upd_thread_def upd_tab_def cong: Option.bind_cong sum.case_cong)
qed

lemma findnew_thread_cong:
  assumes fg: "\<And>s. tgid \<noteq> tid \<Longrightarrow> f s tgid tgid = g s tgid tgid"
  shows "uuuu_machine__findnew_thread f s b tgid tid create = uuuu_machine__findnew_thread g s b tgid tid create"
proof -
  let ?s = "upd_tab b (\<lambda>T. T\<lparr>th_last_match := 0\<rparr>) s"
  have create: "findnew_create f ?s b tgid tid = findnew_create g ?s b tgid tid" by (rule findnew_create_cong) (rule fg)
  have found: "findnew_found f (upd_tab b (\<lambda>T. T\<lparr>th_last_match := th\<rparr>) ?s) th tgid =
      findnew_found g (upd_tab b (\<lambda>T. T\<lparr>th_last_match := th\<rparr>) ?s) th tgid"
    if "rbt_find (tid_decide (thread_st ?s) tid) (th_entries (tab ?s b)) = Some th" for th
  proof (rule findnew_found_cong [of tgid tid f g, OF fg])
    fix t
    assume "thread_st (upd_tab b (\<lambda>T. T\<lparr>th_last_match := th\<rparr>) ?s) th = Some t"
    then show "t_tid t = tid"
      using rbt_find_stop [OF that] by (simp add: tid_decide_def upd_tab_def split: if_splits)
  qed
  have last: "findnew_found f s (th_last_match (tab s b)) tgid = findnew_found g s (th_last_match (tab s b)) tgid"
    if "thread_st s (th_last_match (tab s b)) = Some t" "t_tid t = tid" for t
    by (rule findnew_found_cong [of tgid tid f g, OF fg]) (use that in auto)
  have rest: "(case rbt_find (tid_decide (thread_st ?s) tid) (th_entries (tab ?s b)) of
      Some th \<Rightarrow> if thread_st ?s th = None then None else findnew_found f (upd_tab b (\<lambda>T. T\<lparr>th_last_match := th\<rparr>) ?s) th tgid
    | None \<Rightarrow> if \<not> create then Some (0, ?s) else findnew_create f ?s b tgid tid) =
    (case rbt_find (tid_decide (thread_st ?s) tid) (th_entries (tab ?s b)) of
      Some th \<Rightarrow> if thread_st ?s th = None then None else findnew_found g (upd_tab b (\<lambda>T. T\<lparr>th_last_match := th\<rparr>) ?s) th tgid
    | None \<Rightarrow> if \<not> create then Some (0, ?s) else findnew_create g ?s b tgid tid)"
    using create found by (simp split: option.split)
  show ?thesis
    unfolding uuuu_machine__findnew_thread_def Let_def rest
    using last by (cases "thread_st s (th_last_match (tab s b))") simp_all
qed

theorem findnew_depth: "findnew_fuel (Suc (Suc n)) s tgid tid = uu_machine__findnew_thread s tgid tid"
proof -
  have leader: "findnew_fuel (Suc m) s' g g = findnew_fuel (Suc k) s' g g" for m k s' g
    unfolding findnew_fuel.simps(2) by (rule findnew_thread_cong) simp
  have "findnew_fuel (Suc (Suc n)) s tgid tid = findnew_fuel (Suc (Suc 0)) s tgid tid"
    unfolding findnew_fuel.simps(2) [of "Suc _"] by (rule findnew_thread_cong) (rule leader)
  then show ?thesis by (simp only: uu_machine__findnew_thread_def numeral_2_eq_2)
qed

end
