(* ===== verification/Machine_Lookup.thy ===== *)
theory Machine_Lookup
  imports Machine
begin

text \<open>
  Finding threads: the table of threads is a partial map from thread ids to threads, whatever the one-entry caches
  hold, and \<^verbatim>\<open>machine__findnew_thread\<close> returns the thread of that id, creating it and the leader of its
  thread group when they do not exist. The reference counts of the maps count the threads that use them.
\<close>

section \<open>The invariant\<close>

definition tid_of :: "(addr \<rightharpoonup> thread_obj) \<Rightarrow> addr \<Rightarrow> int" where
  "tid_of st a = (case st a of Some t \<Rightarrow> t_tid t | None \<Rightarrow> 0)"

definition members :: "threads \<Rightarrow> addr set" where
  "members T = set (inorder (th_entries T))"

definition tree_ok :: "(addr \<rightharpoonup> thread_obj) \<Rightarrow> nat \<Rightarrow> threads \<Rightarrow> bool" where
  "tree_ok st b T \<longleftrightarrow> rb_ok (th_entries T) \<and> sorted (map (tid_of st) (inorder (th_entries T))) \<and>
     distinct (map (tid_of st) (inorder (th_entries T))) \<and> (th_last_match T = 0 \<or> th_last_match T \<in> members T) \<and>
     (\<forall>a\<in>members T. a \<noteq> 0 \<and> (\<exists>t. st a = Some t \<and> t_node t = In_tree \<and> machine__threads (t_tid t) = b))"

definition fresh_ok :: "'a machine_state_scheme \<Rightarrow> bool" where
  "fresh_ok s \<longleftrightarrow> 0 < next_addr s \<and> (\<forall>a\<ge>next_addr s. thread_st s a = None \<and> maps_st s a = None) \<and> maps_st s 0 = None \<and>
     (\<forall>a t. thread_st s a = Some t \<longrightarrow> t_maps t < next_addr s)"

definition thread_live :: "'a machine_state_scheme \<Rightarrow> addr \<Rightarrow> bool" where
  "thread_live s a \<longleftrightarrow> (\<exists>t. thread_st s a = Some t \<and> t_refcnt t \<noteq> 0 \<and> t_maps t \<noteq> 0 \<and> maps_st s (t_maps t) \<noteq> None)"

text \<open>The threads that use a collection of maps; its reference count is their number.\<close>

definition users :: "(addr \<rightharpoonup> thread_obj) \<Rightarrow> addr \<Rightarrow> addr set" where
  "users st m = {a. \<exists>t. st a = Some t \<and> t_maps t = m}"

definition maps_counted :: "'a machine_state_scheme \<Rightarrow> bool" where
  "maps_counted s \<longleftrightarrow> (\<forall>m ms. maps_st s m = Some ms \<longrightarrow> ms_refcnt ms = of_nat (card (users (thread_st s) m)))"

text \<open>The invariant of the table, with a set of threads that are linked but not complete yet: they have no maps
  and are not counted.\<close>

definition table_ok :: "'a machine_state_scheme \<Rightarrow> addr set \<Rightarrow> bool" where
  "table_ok s P \<longleftrightarrow> fresh_ok s \<and> maps_counted s \<and>
     (\<forall>b. tree_ok (thread_st s) b (tab s b) \<and> (\<forall>a\<in>members (tab s b). a \<notin> P \<longrightarrow> thread_live s a) \<and>
        th_nr (tab s b) + of_nat (card (P \<inter> members (tab s b))) = of_nat (length (inorder (th_entries (tab s b)))))"

definition machine_ok :: "'a machine_state_scheme \<Rightarrow> bool" where
  "machine_ok s \<longleftrightarrow> table_ok s {}"

definition thread_at :: "'a machine_state_scheme \<Rightarrow> int \<Rightarrow> addr \<Rightarrow> bool" where
  "thread_at s tid a \<longleftrightarrow> a \<in> members (tab s (machine__threads tid)) \<and> tid_of (thread_st s) a = tid"

section \<open>Searching a bucket\<close>

interpretation tids: keyed_search "\<lambda>a. st a \<noteq> None" "tid_of st" "tid_decide st" for st
  by unfold_locales (auto simp: tid_decide_def tid_of_def split: if_splits)

lemma tree_ok_stored: "tree_ok st b T \<Longrightarrow> \<forall>a\<in>set (inorder (th_entries T)). st a \<noteq> None"
  by (auto simp: tree_ok_def members_def)

lemma tid_decide_Stop: "st a \<noteq> None \<Longrightarrow> tid_decide st tid a = Stop \<longleftrightarrow> tid_of st a = tid"
  by (auto simp: tid_decide_def tid_of_def split: if_splits)

lemma bucket_find:
  assumes ok: "tree_ok st b T"
  shows "case rbt_find (tid_decide st tid) (th_entries T) of
      Some a \<Rightarrow> a \<in> members T \<and> tid_of st a = tid
    | None \<Rightarrow> \<forall>a\<in>members T. tid_of st a \<noteq> tid"
proof -
  have s: "sorted (map (tid_of st) (inorder (th_entries T)))" using ok by (simp add: tree_ok_def)
  note v = tree_ok_stored [OF ok]
  show ?thesis
  proof (cases "rbt_find (tid_decide st tid) (th_entries T)")
    case None
    have "tid_of st a \<noteq> tid" if a: "a \<in> members T" for a
    proof -
      have "st a \<noteq> None" "tid_decide st tid a \<noteq> Stop" using a v tids.find_missing [OF s v None, of a] by (simp_all add: members_def)
      then show ?thesis using tid_decide_Stop [of st a tid] by blast
    qed
    with None show ?thesis by simp
  next
    case (Some a)
    have a: "a \<in> set (inorder (th_entries T))" "tid_decide st tid a = Stop" using tids.find_found [OF s v Some] by auto
    then have "st a \<noteq> None" using v by blast
    with a Some show ?thesis by (simp add: members_def tid_decide_Stop)
  qed
qed

lemma members_unique: "\<lbrakk>tree_ok st b T; a \<in> members T; a' \<in> members T; tid_of st a = tid_of st a'\<rbrakk> \<Longrightarrow> a = a'"
  by (auto simp: tree_ok_def members_def distinct_map dest: inj_onD)

lemma tree_ok_member:
  "\<lbrakk>tree_ok st b T; a \<in> members T\<rbrakk> \<Longrightarrow> a \<noteq> 0 \<and> (\<exists>t. st a = Some t \<and> t_node t = In_tree \<and> machine__threads (t_tid t) = b)"
  by (simp add: tree_ok_def)

lemma tree_ok_cong:
  assumes "tree_ok st b T" "\<And>a. a \<in> members T \<Longrightarrow> map_option (\<lambda>t. (t_tid t, t_node t)) (st' a) = map_option (\<lambda>t. (t_tid t, t_node t)) (st a)"
    and "th_entries T' = th_entries T" "th_last_match T' = 0 \<or> th_last_match T' \<in> members T"
  shows "tree_ok st' b T'"
proof -
  have m: "members T' = members T" using assms(3) by (simp add: members_def)
  have k: "tid_of st' a = tid_of st a" if "a \<in> members T" for a
    using assms(2) [OF that] by (auto simp: tid_of_def split: option.splits)
  then have keys: "map (tid_of st') (inorder (th_entries T)) = map (tid_of st) (inorder (th_entries T))" by (simp add: members_def)
  have "\<exists>t. st' a = Some t \<and> t_node t = In_tree \<and> machine__threads (t_tid t) = b" if a: "a \<in> members T" for a
  proof -
    obtain t where "st a = Some t" "t_node t = In_tree" "machine__threads (t_tid t) = b" using tree_ok_member [OF assms(1) a] by blast
    with assms(2) [OF a] show ?thesis by (cases "st' a") auto
  qed
  then show ?thesis using assms(1,4) unfolding tree_ok_def m assms(3) keys by simp
qed

lemma tree_ok_insert:
  assumes ok: "tree_ok st b T" and t: "st' a = Some t" "t_node t = In_tree" "machine__threads (t_tid t) = b" "a \<noteq> 0" "a \<notin> members T"
    and st: "\<And>x. x \<in> members T \<Longrightarrow> st' x = st x" and new: "\<forall>x\<in>members T. tid_of st x \<noteq> t_tid t"
  shows "\<exists>e. rbt_insert (tid_decide st' (t_tid t)) a (th_entries T) = Some (Inr e) \<and> set (inorder e) = insert a (members T) \<and>
    length (inorder e) = Suc (length (inorder (th_entries T))) \<and>
    (\<forall>T'. th_entries T' = e \<longrightarrow> th_last_match T' = 0 \<or> th_last_match T' \<in> insert a (members T) \<longrightarrow> tree_ok st' b T')"
proof -
  have ok': "tree_ok st' b T" by (rule tree_ok_cong [OF ok]) (use ok st in \<open>auto simp: tree_ok_def\<close>)
  have s: "rb_ok (th_entries T)" "sorted (map (tid_of st') (inorder (th_entries T)))" using ok' by (simp_all add: tree_ok_def)
  have key: "tid_of st' a = t_tid t" by (simp add: tid_of_def t)
  have ne: "tid_of st' x \<noteq> t_tid t" if "x \<in> members T" for x using new that st by (simp add: tid_of_def)
  have go: "tid_decide st' (t_tid t) x \<noteq> Stop" if "x \<in> set (inorder (th_entries T))" for x
    using that tree_ok_stored [OF ok'] ne by (simp add: tid_decide_Stop members_def)
  obtain e xs ys where e: "rbt_insert (tid_decide st' (t_tid t)) a (th_entries T) = Some (Inr e)" "rb_ok e"
    "sorted (map (tid_of st') (inorder e))" "inorder (th_entries T) = xs @ ys" "inorder e = xs @ a # ys"
    using tids.insert_sorted [OF s tree_ok_stored [OF ok'], of a] go unfolding key by blast
  have m: "members T = set xs \<union> set ys" by (simp add: members_def e(4))
  have "distinct (map (tid_of st') (xs @ ys))" using ok' e(4) by (simp add: tree_ok_def)
  moreover have "t_tid t \<notin> tid_of st' ` set xs" "t_tid t \<notin> tid_of st' ` set ys" using ne m by (metis UnCI imageE)+
  ultimately have "distinct (map (tid_of st') (inorder e))" by (simp add: e(5) key)
  moreover have "set (inorder e) = insert a (members T)" by (auto simp: m e(5))
  moreover have "\<exists>t. st' x = Some t \<and> t_node t = In_tree \<and> machine__threads (t_tid t) = b" "x \<noteq> 0" if "x \<in> insert a (members T)" for x
    using that t ok' by (auto simp: tree_ok_def)
  ultimately have "tree_ok st' b T'" if "th_entries T' = e" "th_last_match T' = 0 \<or> th_last_match T' \<in> insert a (members T)" for T'
    using that e(2,3) unfolding tree_ok_def members_def by simp
  then show ?thesis using e \<open>set (inorder e) = insert a (members T)\<close> by (intro exI [of _ e]) simp
qed

section \<open>The three outcomes of a lookup\<close>

definition thread_obj0 :: "int \<Rightarrow> int \<Rightarrow> thread_node \<Rightarrow> addr \<Rightarrow> u32 \<Rightarrow> thread_obj" where
  "thread_obj0 tgid tid nd maps rc = \<lparr>t_node = nd, t_maps = maps, t_tgid = tgid, t_tid = tid, t_name = [], t_addr_space = 0,
     t_ulops = False, t_refcnt = rc\<rparr>"

lemma thread_obj0_simps [simp]:
  "t_node (thread_obj0 g i n m r) = n" "t_maps (thread_obj0 g i n m r) = m" "t_tgid (thread_obj0 g i n m r) = g"
  "t_tid (thread_obj0 g i n m r) = i" "t_refcnt (thread_obj0 g i n m r) = r" "t_addr_space (thread_obj0 g i n m r) = 0"
  "(thread_obj0 g i n m r)\<lparr>t_node := n'\<rparr> = thread_obj0 g i n' m r" "(thread_obj0 g i n m r)\<lparr>t_maps := m'\<rparr> = thread_obj0 g i n m' r"
  "(thread_obj0 g i n m r)\<lparr>t_refcnt := r'\<rparr> = thread_obj0 g i n m r'"
  by (simp_all add: thread_obj0_def)

lemma thread__new_eq: "thread__new s tgid tid = (next_addr s, s\<lparr>next_addr := next_addr s + 1,
    thread_st := (thread_st s)(next_addr s \<mapsto> thread_obj0 tgid tid Cleared 0 1)\<rparr>)"
  by (simp add: thread__new_def thread_obj0_def refcount_set_def)

lemma tid_decide_upd: "t_tid t = t_tid t' \<Longrightarrow> tid_decide (st(a \<mapsto> t)) = tid_decide (st(a \<mapsto> t'))"
  by (intro ext) (simp add: tid_decide_def)

lemma lookup_existing:
  assumes ok: "tree_ok (thread_st s) b (tab s b)" and a: "a \<in> members (tab s b)" "thread_st s a = Some t"
    and t: "t_tid t = tid" "t_tgid t = tgid"
  shows "uuuu_machine__findnew_thread f s b tgid tid create = Some (a, s\<lparr>tab := (tab s)(b := (tab s b)\<lparr>th_last_match := a\<rparr>),
    thread_st := (thread_st s)(a \<mapsto> t\<lparr>t_refcnt := t_refcnt t + 1\<rparr>)\<rparr>)"
proof -
  let ?last = "th_last_match (tab s b)"
  have a0: "a \<noteq> 0" using tree_ok_member [OF ok a(1)] by blast
  have tid: "tid_of (thread_st s) a = tid" using a t by (simp add: tid_of_def)
  show ?thesis
  proof (cases "?last \<noteq> 0 \<and> tid_of (thread_st s) ?last = tid")
    case True
    then have "?last \<in> members (tab s b)" using ok by (simp add: tree_ok_def)
    then have la: "?last = a" using members_unique [OF ok _ a(1)] True tid by simp
    have "(tab s)(b := (tab s b)\<lparr>th_last_match := a\<rparr>) = tab s" by (rule fun_upd_idem) (simp flip: la)
    then have e: "s\<lparr>tab := (tab s)(b := (tab s b)\<lparr>th_last_match := a\<rparr>), thread_st := X\<rparr> = s\<lparr>thread_st := X\<rparr>" for X by simp
    show ?thesis unfolding e using a0 a t
      by (simp add: Let_def uuuu_machine__findnew_thread_def la findnew_found_def machine__update_thread_tgid_def thread__get_def
          upd_thread_def refcount_inc_def)
  next
    case False
    have stored: "?last = 0 \<or> thread_st s ?last \<noteq> None" using ok tree_ok_member [OF ok, of ?last] by (auto simp: tree_ok_def)
    have f: "rbt_find (tid_decide (thread_st s) tid) (th_entries (tab s b)) = Some a"
    proof -
      have "rbt_find (tid_decide (thread_st s) tid) (th_entries (tab s b)) \<noteq> None"
        using bucket_find [OF ok, of tid] a(1) tid by (auto split: option.splits)
      then obtain a' where a': "rbt_find (tid_decide (thread_st s) tid) (th_entries (tab s b)) = Some a'" by blast
      with bucket_find [OF ok, of tid] have "a' \<in> members (tab s b)" "tid_of (thread_st s) a' = tid" by simp_all
      with members_unique [OF ok _ a(1)] tid a' show ?thesis by simp
    qed
    show ?thesis using False stored f a0 a t
      by (auto simp: Let_def uuuu_machine__findnew_thread_def upd_tab_def findnew_found_def machine__update_thread_tgid_def thread__get_def
          upd_thread_def refcount_inc_def tid_of_def)
  qed
qed

lemma lookup_missing:
  assumes ok: "tree_ok (thread_st s) b (tab s b)" and new: "\<forall>a\<in>members (tab s b). tid_of (thread_st s) a \<noteq> tid"
  shows "uuuu_machine__findnew_thread f s b tgid tid True =
    findnew_create f (upd_tab b (\<lambda>T. T\<lparr>th_last_match := 0\<rparr>) s) b tgid tid"
proof -
  let ?last = "th_last_match (tab s b)"
  have "\<exists>t. thread_st s ?last = Some t \<and> t_tid t \<noteq> tid" if "?last \<noteq> 0"
  proof -
    have m: "?last \<in> members (tab s b)" using ok that by (simp add: tree_ok_def)
    then obtain t where "thread_st s ?last = Some t" using tree_ok_member [OF ok m] by blast
    with new m show ?thesis by (force simp: tid_of_def)
  qed
  moreover have "rbt_find (tid_decide (thread_st s) tid) (th_entries (tab s b)) = None"
    using bucket_find [OF ok, of tid] new by (auto split: option.splits)
  ultimately show ?thesis by (auto simp: Let_def uuuu_machine__findnew_thread_def upd_tab_def)
qed

text \<open>Linking a new thread into its bucket: the tree \<open>e\<close> is fine for any later state of the thread object that
  keeps its id and its tree node.\<close>

definition linked :: "(addr \<rightharpoonup> thread_obj) \<Rightarrow> nat \<Rightarrow> threads \<Rightarrow> addr \<Rightarrow> int \<Rightarrow> addr rbt \<Rightarrow> bool" where
  "linked st b T a tid e \<longleftrightarrow> set (inorder e) = insert a (members T) \<and>
     length (inorder e) = Suc (length (inorder (th_entries T))) \<and>
     (\<forall>t T'. t_tid t = tid \<longrightarrow> t_node t = In_tree \<longrightarrow> th_entries T' = e \<longrightarrow>
        th_last_match T' = 0 \<or> th_last_match T' \<in> insert a (members T) \<longrightarrow> tree_ok (st(a \<mapsto> t)) b T')"

lemma link_new:
  assumes ok: "tree_ok st b T" and a: "st a = None" "a \<noteq> 0" and b: "machine__threads tid = b"
    and new: "\<forall>x\<in>members T. tid_of st x \<noteq> tid"
  shows "\<exists>e. rbt_insert (tid_decide (st(a \<mapsto> thread_obj0 tgid tid Cleared 0 1)) tid) a (th_entries T) = Some (Inr e) \<and> linked st b T a tid e"
proof -
  have am: "a \<notin> members T" using tree_ok_member [OF ok, of a] a(1) by auto
  let ?t = "thread_obj0 tgid tid In_tree 0 1"
  obtain e where e: "rbt_insert (tid_decide (st(a \<mapsto> ?t)) tid) a (th_entries T) = Some (Inr e)"
      "set (inorder e) = insert a (members T)" "length (inorder e) = Suc (length (inorder (th_entries T)))"
      "\<And>T'. \<lbrakk>th_entries T' = e; th_last_match T' = 0 \<or> th_last_match T' \<in> insert a (members T)\<rbrakk> \<Longrightarrow> tree_ok (st(a \<mapsto> ?t)) b T'"
  proof -
    have "(st(a \<mapsto> ?t)) a = Some ?t" "t_node ?t = In_tree" "machine__threads (t_tid ?t) = b" "\<forall>x\<in>members T. tid_of st x \<noteq> t_tid ?t"
      "\<And>x. x \<in> members T \<Longrightarrow> (st(a \<mapsto> ?t)) x = st x" using b new am by auto
    from tree_ok_insert [OF ok this(1-3) a(2) am this(5,4)] show ?thesis using that by (simp only: thread_obj0_simps) blast
  qed
  have "tree_ok (st(a \<mapsto> t)) b T'"
    if t: "t_tid t = tid" "t_node t = In_tree" "th_entries T' = e" "th_last_match T' = 0 \<or> th_last_match T' \<in> insert a (members T)" for t T'
  proof (rule tree_ok_cong [OF e(4) [OF t(3,4)]])
    have "members T' = insert a (members T)" using t(3) e(2) by (simp add: members_def)
    then show "th_last_match T' = 0 \<or> th_last_match T' \<in> members T'" using t(4) by simp
  qed (use t in auto)
  then have "linked st b T a tid e" using e(2,3) by (simp add: linked_def)
  then show ?thesis using e(1) tid_decide_upd [of "thread_obj0 tgid tid Cleared 0 1" ?t st a] by auto
qed

lemma create_leader:
  assumes ok: "tree_ok (thread_st s) b (tab s b)" and a: "thread_st s (next_addr s) = None" "next_addr s \<noteq> 0"
    and b: "machine__threads g = b" and new: "\<forall>x\<in>members (tab s b). tid_of (thread_st s) x \<noteq> g"
  defines "a \<equiv> next_addr s"
  shows "\<exists>e. findnew_create f (upd_tab b (\<lambda>T. T\<lparr>th_last_match := 0\<rparr>) s) b g g =
      Some (a, s\<lparr>next_addr := a + 2, thread_st := (thread_st s)(a \<mapsto> thread_obj0 g g In_tree (a + 1) 2),
        maps_st := (maps_st s)(a + 1 \<mapsto> maps__init\<lparr>ms_refcnt := 1\<rparr>),
        tab := (tab s)(b := (tab s b)\<lparr>th_entries := e, th_last_match := a, th_nr := th_nr (tab s b) + 1\<rparr>)\<rparr>) \<and>
    linked (thread_st s) b (tab s b) a g e"
proof -
  obtain e where e: "rbt_insert (tid_decide ((thread_st s)(a \<mapsto> thread_obj0 g g Cleared 0 1)) g) a (th_entries (tab s b)) = Some (Inr e)"
      "linked (thread_st s) b (tab s b) a g e"
    using link_new [OF ok a b new, of g] unfolding a_def by blast
  then show ?thesis using a
    by (intro exI [of _ e]) (cases s, simp add: findnew_create_def thread__new_eq upd_tab_def upd_thread_def thread__init_maps_def maps__new_def
        thread__get_def a_def refcount_set_def refcount_inc_def)
qed

section \<open>The invariant is kept\<close>

lemma finite_threads: "fresh_ok s \<Longrightarrow> finite (dom (thread_st s))"
  by (rule finite_subset [of _ "{..<next_addr s}"]) (auto simp: fresh_ok_def, metis leI option.distinct(1))

lemma finite_users: "fresh_ok s \<Longrightarrow> finite (users (thread_st s) m)"
  by (rule finite_subset [OF _ finite_threads]) (auto simp: users_def)

lemma users_upd: "st a = Some t \<Longrightarrow> t_maps t' = t_maps t \<Longrightarrow> users (st(a \<mapsto> t')) m = users st m"
  by (auto simp: users_def)

lemma users_new: "st a = None \<Longrightarrow> users (st(a \<mapsto> t)) m = (if t_maps t = m then insert a (users st m) else users st m)"
  by (auto simp: users_def)

text \<open>A write to a thread that keeps its id, node and maps, and moves of the one-entry caches.\<close>

lemma table_ok_upd:
  assumes ok: "table_ok s P" and c: "thread_st s c = Some t" "t_tid t' = t_tid t" "t_node t' = t_node t" "t_maps t' = t_maps t"
      "c \<in> P \<or> t_refcnt t' \<noteq> 0"
    and T: "\<And>b. th_entries (T b) = th_entries (tab s b)" "\<And>b. th_nr (T b) = th_nr (tab s b)"
      "\<And>b. th_last_match (T b) = 0 \<or> th_last_match (T b) \<in> members (tab s b)"
  shows "table_ok (s\<lparr>tab := T, thread_st := (thread_st s)(c \<mapsto> t')\<rparr>) P"
proof -
  let ?s = "s\<lparr>tab := T, thread_st := (thread_st s)(c \<mapsto> t')\<rparr>"
  have m: "members (T b) = members (tab s b)" for b by (simp add: members_def T(1))
  have "fresh_ok ?s" using ok c(1,4) by (auto simp: table_ok_def fresh_ok_def)
  moreover have "maps_counted ?s" using ok users_upd [of "thread_st s" c t t'] c(1,4) by (simp add: table_ok_def maps_counted_def)
  moreover have "tree_ok ((thread_st s)(c \<mapsto> t')) b (T b)" for b
  proof -
    have "tree_ok (thread_st s) b (tab s b)" using ok by (simp add: table_ok_def)
    then show ?thesis by (rule tree_ok_cong) (use c T in auto)
  qed
  moreover have "thread_live ?s a" if "a \<in> members (tab s b)" "a \<notin> P" for a b
  proof -
    have "thread_live s a" using ok that by (auto simp: table_ok_def)
    then show ?thesis using c(1,4,5) that(2) by (auto simp: thread_live_def)
  qed
  ultimately show ?thesis using ok by (simp add: table_ok_def m T(1,2))
qed

text \<open>A new thread that is linked into its bucket.\<close>

lemma new_not_member:
  assumes "table_ok s P" shows "next_addr s \<notin> members (tab s b)"
proof -
  have "tree_ok (thread_st s) b (tab s b)" "thread_st s (next_addr s) = None" using assms by (auto simp: table_ok_def fresh_ok_def)
  then show ?thesis using tree_ok_member [of "thread_st s" b "tab s b" "next_addr s"] by auto
qed

lemma link_trees:
  assumes ok: "table_ok s P" and a: "a = next_addr s" and e: "linked (thread_st s) b (tab s b) a tid e"
    and t: "t_tid t = tid" "t_node t = In_tree" and T: "th_entries T = e" "th_last_match T = 0 \<or> th_last_match T = a"
  shows "tree_ok ((thread_st s)(a \<mapsto> t)) x (((tab s)(b := T)) x)"
proof (cases "x = b")
  case True
  then show ?thesis using e t T by (auto simp: linked_def)
next
  case False
  have k: "tree_ok (thread_st s) x (tab s x)" using ok by (simp add: table_ok_def)
  have "y \<noteq> a" if "y \<in> members (tab s x)" for y using new_not_member [OF ok] that a by auto
  then have "tree_ok ((thread_st s)(a \<mapsto> t)) x (tab s x)" using k
    by (intro tree_ok_cong [OF k]) (auto simp: tree_ok_def)
  with False show ?thesis by simp
qed

lemma link_pending:
  assumes ok: "table_ok s {}" and a: "a = next_addr s" and e: "linked (thread_st s) b (tab s b) a tid e"
    and t: "t_tid t = tid" "t_node t = In_tree" "t_maps t = 0"
    and T: "th_entries T = e" "th_last_match T = 0" "th_nr T = th_nr (tab s b)"
  shows "table_ok (s\<lparr>next_addr := a + 1, tab := (tab s)(b := T), thread_st := (thread_st s)(a \<mapsto> t)\<rparr>) {a}"
proof -
  let ?s = "s\<lparr>next_addr := a + 1, tab := (tab s)(b := T), thread_st := (thread_st s)(a \<mapsto> t)\<rparr>"
  have fr: "fresh_ok s" and mc: "maps_counted s" using ok by (simp_all add: table_ok_def)
  have a0: "thread_st s a = None" using fr a by (auto simp: fresh_ok_def)
  have mT: "members T = insert a (members (tab s b))" using e T(1) by (simp add: members_def linked_def)
  note am = new_not_member [OF ok, folded a]
  have "fresh_ok ?s" using fr a t(3) by (auto simp: fresh_ok_def less_Suc_eq)
  moreover have "maps_counted ?s" using fr mc users_new [of "thread_st s" a t] a0 t(3) by (auto simp: maps_counted_def fresh_ok_def)
  moreover have "thread_live ?s c" if "c \<in> members (((tab s)(b := T)) x)" "c \<noteq> a" for c x
  proof -
    have "c \<in> members (tab s x)" using that mT by (auto split: if_splits)
    then have "thread_live s c" using ok by (auto simp: table_ok_def)
    then show ?thesis using that(2) by (auto simp: thread_live_def)
  qed
  moreover have "th_nr (((tab s)(b := T)) x) + of_nat (card ({a} \<inter> members (((tab s)(b := T)) x))) =
      of_nat (length (inorder (th_entries (((tab s)(b := T)) x))))" for x
    using ok e T am mT by (auto simp: table_ok_def linked_def)
  ultimately show ?thesis using link_trees [OF ok a e t(1,2), of T] T(1,2) by (simp add: table_ok_def)
qed

lemma link_complete:
  assumes ok: "table_ok s P" and a: "a = next_addr s" and e: "linked (thread_st s) b (tab s b) a tid e"
    and t: "t_tid t = tid" "t_node t = In_tree" "t_maps t = a + 1" "t_refcnt t \<noteq> 0" and ms: "ms_refcnt ms = 1"
    and T: "th_entries T = e" "th_last_match T = a" "th_nr T = th_nr (tab s b) + 1" and P: "\<forall>p\<in>P. p < a"
  shows "table_ok (s\<lparr>next_addr := a + 2, thread_st := (thread_st s)(a \<mapsto> t), maps_st := (maps_st s)(a + 1 \<mapsto> ms), tab := (tab s)(b := T)\<rparr>) P"
proof -
  let ?s = "s\<lparr>next_addr := a + 2, thread_st := (thread_st s)(a \<mapsto> t), maps_st := (maps_st s)(a + 1 \<mapsto> ms), tab := (tab s)(b := T)\<rparr>"
  have fr: "fresh_ok s" and mc: "maps_counted s" using ok by (simp_all add: table_ok_def)
  have a0: "thread_st s a = None" using fr a by (auto simp: fresh_ok_def)
  have mT: "members T = insert a (members (tab s b))" using e T(1) by (simp add: members_def linked_def)
  note am = new_not_member [OF ok, folded a]
  have "fresh_ok ?s" using fr a t(3) by (fastforce simp: fresh_ok_def)
  moreover have "maps_counted ?s"
  proof -
    have "users (thread_st s) (a + 1) = {}" using fr a by (fastforce simp: users_def fresh_ok_def)
    moreover have "maps_st s (a + 1) = None" using fr a by (simp add: fresh_ok_def)
    ultimately show ?thesis using mc users_new [of "thread_st s" a t] a0 t(3) ms by (auto simp: maps_counted_def)
  qed
  moreover have "thread_live ?s c" if "c \<in> members (((tab s)(b := T)) x)" "c \<notin> P" for c x
  proof (cases "c = a")
    case True
    then show ?thesis using t by (simp add: thread_live_def)
  next
    case False
    then have "c \<in> members (tab s x)" using that mT by (auto split: if_splits)
    then have "thread_live s c" using ok that(2) by (auto simp: table_ok_def)
    then show ?thesis using False by (auto simp: thread_live_def)
  qed
  moreover have "th_nr (((tab s)(b := T)) x) + of_nat (card (P \<inter> members (((tab s)(b := T)) x))) =
      of_nat (length (inorder (th_entries (((tab s)(b := T)) x))))" for x
  proof (cases "x = b")
    case True
    have "P \<inter> members T = P \<inter> members (tab s b)" using P mT by auto
    moreover have "th_nr (tab s b) + of_nat (card (P \<inter> members (tab s b))) = of_nat (length (inorder (th_entries (tab s b))))"
      using ok by (simp add: table_ok_def)
    ultimately show ?thesis using True e T(1,3) by (simp add: linked_def algebra_simps)
  qed (use ok in \<open>simp add: table_ok_def\<close>)
  ultimately show ?thesis using link_trees [OF ok a e t(1,2), of T] T(1,2) by (simp add: table_ok_def)
qed

lemma complete_pending:
  assumes ok: "table_ok s {a}" and a: "thread_st s a = Some t" "t_maps t = 0" "a \<in> members (tab s b)"
    and l: "l \<noteq> a" "thread_st s l = Some ld" "t_maps ld = m" "m \<noteq> 0" "maps_st s m = Some ms"
    and t': "t_tid t' = t_tid t" "t_node t' = t_node t" "t_maps t' = m" "t_refcnt t' \<noteq> 0"
    and ld': "t_tid ld' = t_tid ld" "t_node ld' = t_node ld" "t_maps ld' = m" "t_refcnt ld' \<noteq> 0"
  shows "table_ok (s\<lparr>maps_st := (maps_st s)(m \<mapsto> ms\<lparr>ms_refcnt := ms_refcnt ms + 1\<rparr>), thread_st := (thread_st s)(l \<mapsto> ld', a \<mapsto> t'),
    tab := (tab s)(b := (tab s b)\<lparr>th_last_match := a, th_nr := th_nr (tab s b) + 1\<rparr>)\<rparr>) {}"
proof -
  let ?st = "(thread_st s)(l \<mapsto> ld', a \<mapsto> t')" and ?T = "(tab s)(b := (tab s b)\<lparr>th_last_match := a, th_nr := th_nr (tab s b) + 1\<rparr>)"
  let ?s = "s\<lparr>maps_st := (maps_st s)(m \<mapsto> ms\<lparr>ms_refcnt := ms_refcnt ms + 1\<rparr>), thread_st := ?st, tab := ?T\<rparr>"
  have fr: "fresh_ok s" and mc: "maps_counted s" using ok by (simp_all add: table_ok_def)
  have tr: "tree_ok (thread_st s) x (tab s x)" for x using ok by (simp add: table_ok_def)
  have mem: "members (?T x) = members (tab s x)" for x by (simp add: members_def)
  have bx: "a \<in> members (tab s x) \<longleftrightarrow> x = b" for x
    using tree_ok_member [OF tr a(3)] tree_ok_member [OF tr, of a x] a by auto
  have "fresh_ok ?s" using fr a(1) l t'(3) ld'(3) by (auto simp: fresh_ok_def)
  moreover have "maps_counted ?s"
  proof -
    have u: "users ?st x = (if x = m then insert a (users (thread_st s) m) else users (thread_st s) x)" if "maps_st s x \<noteq> None" for x
    proof -
      have "x \<noteq> 0" using that fr by (metis fresh_ok_def)
      then show ?thesis using a(1,2) l t'(3) ld'(3) by (auto simp: users_def)
    qed
    have am: "a \<notin> users (thread_st s) m" using a(1,2) l(4) by (simp add: users_def)
    have "ms' = ms\<lparr>ms_refcnt := ms_refcnt ms + 1\<rparr> \<and> x = m \<or> x \<noteq> m \<and> maps_st s x = Some ms'" if "maps_st ?s x = Some ms'" for x ms'
      using that by (auto split: if_splits)
    then show ?thesis using mc l(5) finite_users [OF fr, of m] am u by (fastforce simp: maps_counted_def)
  qed
  moreover have "tree_ok ?st x (?T x)" for x
    by (rule tree_ok_cong [OF tr]) (use a l t' ld' tr [of x] in \<open>auto simp: tree_ok_def\<close>)
  moreover have "thread_live ?s c" if "c \<in> members (tab s x)" for c x
  proof -
    have "c = a \<or> thread_live s c" using ok that by (auto simp: table_ok_def)
    then show ?thesis using l(4) t' ld' by (auto simp: thread_live_def)
  qed
  moreover have "th_nr (?T x) = of_nat (length (inorder (th_entries (?T x))))" for x
  proof -
    have n: "th_nr (tab s x) + of_nat (card ({a} \<inter> members (tab s x))) = of_nat (length (inorder (th_entries (tab s x))))"
      using ok by (simp add: table_ok_def)
    show ?thesis
    proof (cases "x = b")
      case True
      then show ?thesis using n bx [of b] by simp
    next
      case False
      then show ?thesis using n bx [of x] by simp
    qed
  qed
  ultimately show ?thesis using mem by (simp add: table_ok_def)
qed

text \<open>What a lookup leaves alone: everything but threads, reference counts of maps, trees and caches; a new collection
  of maps is empty.\<close>

definition maps_body :: "'a map_state_scheme \<Rightarrow> addr \<Rightarrow> maps_obj" where
  "maps_body s m = (case maps_st s m of Some ms \<Rightarrow> ms | None \<Rightarrow> maps__init)\<lparr>ms_refcnt := 0\<rparr>"

definition same_rest :: "'a machine_state_scheme \<Rightarrow> 'a machine_state_scheme \<Rightarrow> bool" where
  "same_rest s s' \<longleftrightarrow> dso_st s' = dso_st s \<and> singlethreaded s' = singlethreaded s \<and> dsos_head s' = dsos_head s \<and>
     dsos_root s' = dsos_root s \<and> dsos_lock s' = dsos_lock s \<and> map_st s' = map_st s \<and> unw_log s' = unw_log s \<and>
     next_addr s \<le> next_addr s' \<and> (\<forall>x. th_lock (tab s' x) = th_lock (tab s x) \<and> th_dead (tab s' x) = th_dead (tab s x)) \<and>
     (\<forall>m. maps_body s' m = maps_body s m)"

lemma same_rest_trans: "\<lbrakk>same_rest s s'; same_rest s' s''\<rbrakk> \<Longrightarrow> same_rest s s''"
  by (simp add: same_rest_def)

text \<open>The lookup of a leader.\<close>

definition leader_fits :: "'a machine_state_scheme \<Rightarrow> int \<Rightarrow> bool" where
  "leader_fits s g \<longleftrightarrow> (\<forall>a t. thread_at s g a \<longrightarrow> thread_st s a = Some t \<longrightarrow> t_tgid t = g \<and> t_refcnt t + 1 \<noteq> 0)"

lemma leader_step:
  assumes ok: "table_ok s P" and fit: "leader_fits s g" and P: "\<forall>p\<in>P. p < next_addr s \<and> \<not> thread_at s g p"
  shows "\<exists>l s' ld. findnew_fuel (Suc n) s g g = Some (l, s') \<and> table_ok s' P \<and> thread_at s' g l \<and> l \<notin> P \<and>
    thread_st s' l = Some ld \<and> same_rest s s' \<and> t_tgid ld = g \<and> t_refcnt ld \<noteq> 0 \<and> t_refcnt ld - 1 \<noteq> 0 \<and> thread_live s' l \<and>
    (\<forall>c. c \<noteq> l \<longrightarrow> thread_st s' c = thread_st s c) \<and> (\<forall>x. members (tab s x) \<subseteq> members (tab s' x)) \<and>
    (\<forall>x. members (tab s' x) \<subseteq> insert (next_addr s) (members (tab s x))) \<and>
    (\<forall>m. maps_st s m = None \<longrightarrow> maps_st s' m \<noteq> None \<longrightarrow> m = t_maps ld) \<and>
    (if thread_at s g l then thread_st s l = Some (ld\<lparr>t_refcnt := t_refcnt ld - 1\<rparr>) else l = next_addr s \<and> t_refcnt ld = 2 \<and> next_addr s \<le> t_maps ld \<and> t_addr_space ld = 0)"
proof -
  let ?b = "machine__threads g"
  have tr: "tree_ok (thread_st s) ?b (tab s ?b)" using ok by (simp add: table_ok_def)
  have fr: "fresh_ok s" using ok by (simp add: table_ok_def)
  show ?thesis
  proof (cases "\<exists>l. thread_at s g l")
    case True
    then obtain l where l: "l \<in> members (tab s ?b)" "tid_of (thread_st s) l = g" by (auto simp: thread_at_def)
    then have at: "thread_at s g l" by (simp add: thread_at_def)
    have lP: "l \<notin> P" using P at by auto
    then have "thread_live s l" using ok l(1) by (auto simp: table_ok_def)
    then obtain t where t: "thread_st s l = Some t" "t_refcnt t \<noteq> 0" "t_maps t \<noteq> 0" "maps_st s (t_maps t) \<noteq> None" by (auto simp: thread_live_def)
    have tt: "t_tid t = g" "t_tgid t = g" "t_refcnt t + 1 \<noteq> 0" using l(2) t(1) fit at by (auto simp: tid_of_def leader_fits_def)
    let ?t = "t\<lparr>t_refcnt := t_refcnt t + 1\<rparr>"
    let ?s = "s\<lparr>tab := (tab s)(?b := (tab s ?b)\<lparr>th_last_match := l\<rparr>), thread_st := (thread_st s)(l \<mapsto> ?t)\<rparr>"
    have r: "findnew_fuel (Suc n) s g g = Some (l, ?s)"
      unfolding findnew_fuel.simps by (rule lookup_existing [OF tr l(1) t(1) tt(1,2)])
    have ok': "table_ok ?s P"
    proof (rule table_ok_upd [OF ok t(1)])
      fix b
      have "tree_ok (thread_st s) b (tab s b)" using ok by (simp add: table_ok_def)
      then show "th_last_match (((tab s)(?b := (tab s ?b)\<lparr>th_last_match := l\<rparr>)) b) = 0 \<or>
        th_last_match (((tab s)(?b := (tab s ?b)\<lparr>th_last_match := l\<rparr>)) b) \<in> members (tab s b)"
        using l(1) by (auto simp: tree_ok_def)
    qed (use tt in auto)
    have "thread_at ?s g l" using l tt(1) by (simp add: thread_at_def members_def tid_of_def)
    moreover have "thread_live ?s l" using t tt by (simp add: thread_live_def)
    moreover have "same_rest s ?s" by (simp add: same_rest_def maps_body_def)
    ultimately show ?thesis using r ok' lP t tt at
      by (intro exI [of _ l] exI [of _ ?s] exI [of _ ?t]) (auto simp: members_def)
  next
    case False
    then have new: "\<forall>x\<in>members (tab s ?b). tid_of (thread_st s) x \<noteq> g" by (auto simp: thread_at_def)
    let ?a = "next_addr s"
    have a: "thread_st s ?a = None" "?a \<noteq> 0" using fr by (auto simp: fresh_ok_def)
    let ?s = "\<lambda>e. s\<lparr>next_addr := ?a + 2, thread_st := (thread_st s)(?a \<mapsto> thread_obj0 g g In_tree (?a + 1) 2),
        maps_st := (maps_st s)(?a + 1 \<mapsto> maps__init\<lparr>ms_refcnt := 1\<rparr>),
        tab := (tab s)(?b := (tab s ?b)\<lparr>th_entries := e, th_last_match := ?a, th_nr := th_nr (tab s ?b) + 1\<rparr>)\<rparr>"
    obtain e where e: "findnew_create (findnew_fuel n) (upd_tab ?b (\<lambda>T. T\<lparr>th_last_match := 0\<rparr>) s) ?b g g = Some (?a, ?s e)"
      "linked (thread_st s) ?b (tab s ?b) ?a g e"
      using create_leader [OF tr a refl new] by blast
    have r: "findnew_fuel (Suc n) s g g = Some (?a, ?s e)"
      unfolding findnew_fuel.simps lookup_missing [OF tr new] by (rule e(1))
    have ok': "table_ok (?s e) P"
      by (rule link_complete [OF ok refl e(2)]) (use P in \<open>auto simp: maps__init_def\<close>)
    have m: "set (inorder e) = insert ?a (members (tab s ?b))" using e(2) by (simp add: linked_def)
    have "thread_at (?s e) g ?a" using m by (simp add: thread_at_def members_def tid_of_def)
    moreover have "thread_live (?s e) ?a" by (simp add: thread_live_def)
    moreover have "members (tab s x) \<subseteq> members (tab (?s e) x)" "members (tab (?s e) x) \<subseteq> insert ?a (members (tab s x))" for x
      using m by (auto simp: members_def)
    moreover have "same_rest s (?s e)" using fr by (auto simp: same_rest_def fresh_ok_def maps_body_def)
    ultimately show ?thesis using r ok' P False
      by (intro exI [of _ ?a] exI [of _ "?s e"] exI [of _ "thread_obj0 g g In_tree (?a + 1) 2"]) auto
  qed
qed

lemma create_member:
  assumes ins: "rbt_insert (tid_decide ((thread_st s)(a \<mapsto> thread_obj0 tgid tid Cleared 0 1)) tid) a (th_entries (tab s b)) = Some (Inr e)"
    and a: "a = next_addr s" "a \<noteq> 0" and ne: "tgid \<noteq> tid"
    and f: "f (s\<lparr>next_addr := a + 1, tab := (tab s)(b := (tab s b)\<lparr>th_last_match := 0, th_entries := e\<rparr>),
        thread_st := (thread_st s)(a \<mapsto> thread_obj0 tgid tid In_tree 0 1)\<rparr>) tgid tgid = Some (l, s2)"
    and l: "l \<noteq> 0" "l \<noteq> a" "thread_st s2 l = Some ld" "t_maps ld \<noteq> 0" "maps_st s2 (t_maps ld) = Some ms" "t_refcnt ld - 1 \<noteq> 0"
    and a2: "thread_st s2 a = Some (thread_obj0 tgid tid In_tree 0 1)"
  shows "findnew_create f (upd_tab b (\<lambda>T. T\<lparr>th_last_match := 0\<rparr>) s) b tgid tid =
    Some (a, s2\<lparr>maps_st := (maps_st s2)(t_maps ld \<mapsto> ms\<lparr>ms_refcnt := ms_refcnt ms + 1\<rparr>),
      thread_st := (thread_st s2)(l \<mapsto> ld\<lparr>t_refcnt := t_refcnt ld - 1\<rparr>, a \<mapsto> thread_obj0 tgid tid In_tree (t_maps ld) 2),
      tab := (tab s2)(b := (tab s2 b)\<lparr>th_last_match := a, th_nr := th_nr (tab s2 b) + 1\<rparr>)\<rparr>)"
proof -
  let ?s1 = "s\<lparr>next_addr := a + 1, tab := (tab s)(b := (tab s b)\<lparr>th_last_match := 0, th_entries := e\<rparr>),
        thread_st := (thread_st s)(a \<mapsto> thread_obj0 tgid tid In_tree 0 1)\<rparr>"
  let ?s3 = "s2\<lparr>maps_st := (maps_st s2)(t_maps ld \<mapsto> ms\<lparr>ms_refcnt := ms_refcnt ms + 1\<rparr>),
      thread_st := (thread_st s2)(a \<mapsto> thread_obj0 tgid tid In_tree (t_maps ld) 1, l \<mapsto> ld\<lparr>t_refcnt := t_refcnt ld - 1\<rparr>)\<rparr>"
  have ini: "thread__init_maps f ?s1 a = Some (0, ?s3)"
    using ne f l a2
    by (simp add: thread__init_maps_def maps__get_def upd_maps_def upd_thread_def thread__put_def refcount_dec_and_test_def
        refcount_inc_def del: not_gr_zero)
  have "findnew_create f (upd_tab b (\<lambda>T. T\<lparr>th_last_match := 0\<rparr>) s) b tgid tid =
      (thread__init_maps f ?s1 a \<bind> (\<lambda>(rc, s).
          if rc \<noteq> 0 then do {
            e \<leftarrow> rbt_erase a (th_entries (tab s b));
            s \<leftarrow> upd_thread a (\<lambda>t. t\<lparr>t_node := Cleared\<rparr>) (upd_tab b (\<lambda>T. T\<lparr>th_entries := e\<rparr>) s);
            s \<leftarrow> thread__put s a;
            Some (0, s) }
          else do {
            (_, s) \<leftarrow> thread__get s a;
            Some (a, upd_tab b (\<lambda>T. T\<lparr>th_last_match := a, th_nr := th_nr T + 1\<rparr>) s) }))"
    using ins unfolding a(1) by (simp add: findnew_create_def thread__new_eq upd_tab_def upd_thread_def)
  then show ?thesis unfolding ini using a(2) l(2)
    by (simp add: thread__get_def upd_thread_def refcount_inc_def upd_tab_def)
qed

section \<open>The lookup\<close>

definition thread_fits :: "'a machine_state_scheme \<Rightarrow> int \<Rightarrow> int \<Rightarrow> bool" where
  "thread_fits s tgid tid \<longleftrightarrow>
     (\<forall>a t. thread_at s tid a \<longrightarrow> thread_st s a = Some t \<longrightarrow> t_tgid t = tgid \<and> t_refcnt t + 1 \<noteq> 0) \<and> leader_fits s tgid"

text \<open>A new thread other than the one looked up has the table's reference only, new threads are in the table, and new
  collections of maps are in use.\<close>

definition new_owned :: "'a machine_state_scheme \<Rightarrow> 'a machine_state_scheme \<Rightarrow> addr \<Rightarrow> bool" where
  "new_owned s s' th \<longleftrightarrow>
     (\<forall>c t. thread_st s c = None \<longrightarrow> thread_st s' c = Some t \<longrightarrow> (c = th \<or> t_refcnt t = 1) \<and> (\<exists>b. c \<in> members (tab s' b))) \<and>
     (\<forall>m. maps_st s m = None \<longrightarrow> maps_st s' m \<noteq> None \<longrightarrow> users (thread_st s') m \<noteq> {})"

definition found :: "'a machine_state_scheme \<Rightarrow> 'a machine_state_scheme \<Rightarrow> int \<Rightarrow> int \<Rightarrow> addr \<Rightarrow> thread_obj \<Rightarrow> bool" where
  "found s s' tgid tid th t \<longleftrightarrow> machine_ok s' \<and> same_rest s s' \<and> thread_at s' tid th \<and> thread_st s' th = Some t \<and> t_tgid t = tgid \<and>
     (\<forall>i a. thread_at s i a \<longrightarrow> thread_at s' i a) \<and> new_owned s s' th \<and>
     (\<forall>x. \<forall>c\<in>members (tab s' x). c \<in> members (tab s x) \<or> thread_st s c = None) \<and>
     (\<forall>c. c \<noteq> th \<longrightarrow> thread_st s c \<noteq> None \<longrightarrow> thread_st s' c = thread_st s c) \<and>
     (\<forall>c t'. thread_st s c = None \<longrightarrow> thread_st s' c = Some t' \<longrightarrow> t_tgid t' = tgid \<and> (t_refcnt t' = 1 \<or> t_refcnt t' = 2) \<and> t_addr_space t' = 0) \<and>
     (if thread_at s tid th then thread_st s th = Some (t\<lparr>t_refcnt := t_refcnt t - 1\<rparr>)
      else th = next_addr s \<and> t_refcnt t = 2 \<and>
        (\<exists>l ld. thread_at s' tgid l \<and> thread_st s' l = Some ld \<and> t_tgid ld = tgid \<and> t_maps ld = t_maps t \<and>
           (thread_at s tgid l \<or> next_addr s \<le> t_maps t)))"

lemma thread_at_frame:
  assumes "thread_at s i a" "\<And>x. members (tab s x) \<subseteq> members (tab s' x)"
    "map_option t_tid (thread_st s' a) = map_option t_tid (thread_st s a)"
  shows "thread_at s' i a"
  using assms by (auto simp: thread_at_def tid_of_def split: option.splits)

lemma findnew_leader:
  assumes ok: "machine_ok s" and fit: "thread_fits s tgid tid" and leader: "tgid = tid"
  shows "\<exists>th s' t. uu_machine__findnew_thread s tgid tid = Some (th, s') \<and> found s s' tgid tid th t"
proof -
  let ?b = "machine__threads tid"
  have ok0: "table_ok s {}" using ok by (simp add: machine_ok_def)
  have tr: "tree_ok (thread_st s) ?b (tab s ?b)" and fr: "fresh_ok s" using ok0 by (simp_all add: table_ok_def)
  have lf: "leader_fits s tgid" using fit by (simp add: thread_fits_def)
  have fuel: "uu_machine__findnew_thread s tgid tid = findnew_fuel (Suc (Suc 0)) s tgid tid"
    by (simp add: uu_machine__findnew_thread_def numeral_2_eq_2)
  have nm: "next_addr s \<notin> members (tab s x)" for x by (rule new_not_member [OF ok0])
  obtain l s' ld where l: "findnew_fuel (Suc (Suc 0)) s tid tid = Some (l, s')" "table_ok s' {}" "thread_at s' tid l"
    "thread_st s' l = Some ld" "t_tgid ld = tid" "same_rest s s'" "\<forall>c. c \<noteq> l \<longrightarrow> thread_st s' c = thread_st s c"
    "\<forall>x. members (tab s x) \<subseteq> members (tab s' x)" "\<forall>x. members (tab s' x) \<subseteq> insert (next_addr s) (members (tab s x))"
    "if thread_at s tid l then thread_st s l = Some (ld\<lparr>t_refcnt := t_refcnt ld - 1\<rparr>) else l = next_addr s \<and> t_refcnt ld = 2 \<and> next_addr s \<le> t_maps ld \<and> t_addr_space ld = 0"
    "\<forall>m. maps_st s m = None \<longrightarrow> maps_st s' m \<noteq> None \<longrightarrow> m = t_maps ld"
    using leader_step [OF ok0 lf, of "Suc 0"] leader by blast
  have new_a: "thread_st s (next_addr s) = None" using fr by (simp add: fresh_ok_def)
  have "thread_at s' i a" if "thread_at s i a" for i a
  proof (rule thread_at_frame [OF that])
    show "map_option t_tid (thread_st s' a) = map_option t_tid (thread_st s a)"
      using l(4,7,10) that nm by (cases "a = l") (auto simp: thread_at_def split: if_splits)
  qed (use l(8) in auto)
  moreover have "t_tgid t' = tgid \<and> (t_refcnt t' = 1 \<or> t_refcnt t' = 2) \<and> t_addr_space t' = 0" if "thread_st s c = None" "thread_st s' c = Some t'" for c t'
    using that l(4,5,7,10) leader by (cases "c = l") (auto split: if_splits)
  moreover have "c \<in> members (tab s x) \<or> thread_st s c = None" if "c \<in> members (tab s' x)" for c x
  proof -
    have "c = next_addr s \<or> c \<in> members (tab s x)" using that l(9) by blast
    then show ?thesis using new_a by auto
  qed
  moreover have "new_owned s s' l"
  proof -
    have "users (thread_st s') (t_maps ld) \<noteq> {}" using l(4) by (auto simp: users_def)
    then have "users (thread_st s') m \<noteq> {}" if "maps_st s m = None" "maps_st s' m \<noteq> None" for m using that l(11) by blast
    moreover have "c = l" if "thread_st s c = None" "thread_st s' c = Some u" for c u using that l(7) by (cases "c = l") auto
    ultimately show ?thesis using l(3) unfolding new_owned_def thread_at_def by blast
  qed
  ultimately have "found s s' tgid tid l ld" using l(2-7,10) leader unfolding found_def machine_ok_def by auto
  then show ?thesis using l(1) fuel leader by auto
qed

lemma findnew_existing:
  assumes ok: "machine_ok s" and fit: "thread_fits s tgid tid" and old: "thread_at s tid a"
  shows "\<exists>th s' t. uu_machine__findnew_thread s tgid tid = Some (th, s') \<and> found s s' tgid tid th t"
proof -
  let ?b = "machine__threads tid"
  have ok0: "table_ok s {}" using ok by (simp add: machine_ok_def)
  have tr: "tree_ok (thread_st s) ?b (tab s ?b)" and fr: "fresh_ok s" using ok0 by (simp_all add: table_ok_def)
  have lf: "leader_fits s tgid" using fit by (simp add: thread_fits_def)
  have fuel: "uu_machine__findnew_thread s tgid tid = findnew_fuel (Suc (Suc 0)) s tgid tid"
    by (simp add: uu_machine__findnew_thread_def numeral_2_eq_2)
  have nm: "next_addr s \<notin> members (tab s x)" for x by (rule new_not_member [OF ok0])
  have a: "a \<in> members (tab s ?b)" "tid_of (thread_st s) a = tid" using old by (auto simp: thread_at_def)
  then have "thread_live s a" using ok0 by (auto simp: table_ok_def)
  then obtain t where t: "thread_st s a = Some t" "t_refcnt t \<noteq> 0" by (auto simp: thread_live_def)
  have tt: "t_tid t = tid" "t_tgid t = tgid" "t_refcnt t + 1 \<noteq> 0" using a(2) t(1) fit old by (auto simp: tid_of_def thread_fits_def)
  let ?t = "t\<lparr>t_refcnt := t_refcnt t + 1\<rparr>"
  let ?s = "s\<lparr>tab := (tab s)(?b := (tab s ?b)\<lparr>th_last_match := a\<rparr>), thread_st := (thread_st s)(a \<mapsto> ?t)\<rparr>"
  have r: "findnew_fuel (Suc (Suc 0)) s tgid tid = Some (a, ?s)"
    unfolding findnew_fuel.simps(2) [of "Suc 0"] by (rule lookup_existing [OF tr a(1) t(1) tt(1,2)])
  have "table_ok ?s {}"
  proof (rule table_ok_upd [OF ok0 t(1)])
    fix b
    have "tree_ok (thread_st s) b (tab s b)" using ok0 by (simp add: table_ok_def)
    then show "th_last_match (((tab s)(?b := (tab s ?b)\<lparr>th_last_match := a\<rparr>)) b) = 0 \<or>
      th_last_match (((tab s)(?b := (tab s ?b)\<lparr>th_last_match := a\<rparr>)) b) \<in> members (tab s b)"
      using a(1) by (auto simp: tree_ok_def)
  qed (use tt in auto)
  moreover have "thread_at ?s i c" if "thread_at s i c" for i c
    by (rule thread_at_frame [OF that]) (use t in \<open>auto simp: members_def\<close>)
  moreover have "same_rest s ?s" by (simp add: same_rest_def maps_body_def)
  moreover have "members (tab ?s x) = members (tab s x)" for x by (simp add: members_def)
  moreover have "new_owned s ?s a" using t(1) by (auto simp: new_owned_def)
  ultimately have "found s ?s tgid tid a ?t" using old t tt by (auto simp: found_def machine_ok_def)
  then show ?thesis unfolding fuel r by blast
qed

lemma findnew_member:
  assumes ok: "machine_ok s" and fit: "thread_fits s tgid tid" and new: "tgid \<noteq> tid" "\<And>a. \<not> thread_at s tid a"
  shows "\<exists>th s' t. uu_machine__findnew_thread s tgid tid = Some (th, s') \<and> found s s' tgid tid th t"
proof -
  let ?b = "machine__threads tid"
  have ok0: "table_ok s {}" using ok by (simp add: machine_ok_def)
  have tr: "tree_ok (thread_st s) ?b (tab s ?b)" and fr: "fresh_ok s" using ok0 by (simp_all add: table_ok_def)
  have lf: "leader_fits s tgid" using fit by (simp add: thread_fits_def)
  have fuel: "uu_machine__findnew_thread s tgid tid = findnew_fuel (Suc (Suc 0)) s tgid tid"
    by (simp add: uu_machine__findnew_thread_def numeral_2_eq_2)
  have nm: "next_addr s \<notin> members (tab s x)" for x by (rule new_not_member [OF ok0])
  let ?a = "next_addr s" and ?g = "machine__threads tgid"
  have a: "thread_st s ?a = None" "?a \<noteq> 0" using fr by (auto simp: fresh_ok_def)
  have none: "\<forall>x\<in>members (tab s ?b). tid_of (thread_st s) x \<noteq> tid" using new(2) by (auto simp: thread_at_def)
  obtain e where e: "rbt_insert (tid_decide ((thread_st s)(?a \<mapsto> thread_obj0 tgid tid Cleared 0 1)) tid) ?a (th_entries (tab s ?b)) = Some (Inr e)"
      "linked (thread_st s) ?b (tab s ?b) ?a tid e"
    using link_new [OF tr a refl none] by blast
  let ?s1 = "s\<lparr>next_addr := ?a + 1, tab := (tab s)(?b := (tab s ?b)\<lparr>th_last_match := 0, th_entries := e\<rparr>),
      thread_st := (thread_st s)(?a \<mapsto> thread_obj0 tgid tid In_tree 0 1)\<rparr>"
  have ok1: "table_ok ?s1 {?a}" by (rule link_pending [OF ok0 refl e(2)]) simp_all
  have at1: "thread_at ?s1 i c \<longleftrightarrow> thread_at s i c \<or> c = ?a \<and> i = tid" for i c
  proof -
    have "members ((tab s ?b)\<lparr>th_last_match := 0, th_entries := e\<rparr>) = insert ?a (members (tab s ?b))"
      using e(2) by (simp add: members_def linked_def)
    then show ?thesis using nm by (auto simp: thread_at_def tid_of_def)
  qed
  have lf1: "leader_fits ?s1 tgid" using lf new nm unfolding leader_fits_def at1 by (auto simp: thread_at_def)
  have P1: "\<forall>p\<in>{?a}. p < next_addr ?s1 \<and> \<not> thread_at ?s1 tgid p" using new(1) nm at1 by (auto simp: thread_at_def)
  obtain l s2 ld where l: "findnew_fuel (Suc 0) ?s1 tgid tgid = Some (l, s2)" "table_ok s2 {?a}" "thread_at s2 tgid l" "l \<notin> {?a}"
    "thread_st s2 l = Some ld" "t_tgid ld = tgid" "t_refcnt ld - 1 \<noteq> 0" "thread_live s2 l"
    "\<forall>c. c \<noteq> l \<longrightarrow> thread_st s2 c = thread_st ?s1 c" "\<forall>x. members (tab ?s1 x) \<subseteq> members (tab s2 x)"
    "if thread_at ?s1 tgid l then thread_st ?s1 l = Some (ld\<lparr>t_refcnt := t_refcnt ld - 1\<rparr>)
       else l = next_addr ?s1 \<and> t_refcnt ld = 2 \<and> next_addr ?s1 \<le> t_maps ld \<and> t_addr_space ld = 0"
    "same_rest ?s1 s2" "\<forall>x. members (tab s2 x) \<subseteq> insert (next_addr ?s1) (members (tab ?s1 x))"
    "\<forall>m. maps_st ?s1 m = None \<longrightarrow> maps_st s2 m \<noteq> None \<longrightarrow> m = t_maps ld"
    using leader_step [OF ok1 lf1 P1, of 0] by blast
  obtain ms where ms: "t_maps ld \<noteq> 0" "maps_st s2 (t_maps ld) = Some ms" using l(5,8) by (auto simp: thread_live_def)
  have l0: "l \<noteq> 0" using l(2,3) tree_ok_member [of "thread_st s2" _ _ l] by (auto simp: table_ok_def thread_at_def)
  have a2: "thread_st s2 ?a = Some (thread_obj0 tgid tid In_tree 0 1)" using l(4,9) by auto
  let ?ld = "ld\<lparr>t_refcnt := t_refcnt ld - 1\<rparr>" and ?t = "thread_obj0 tgid tid In_tree (t_maps ld) 2"
  let ?s = "s2\<lparr>maps_st := (maps_st s2)(t_maps ld \<mapsto> ms\<lparr>ms_refcnt := ms_refcnt ms + 1\<rparr>),
    thread_st := (thread_st s2)(l \<mapsto> ?ld, ?a \<mapsto> ?t), tab := (tab s2)(?b := (tab s2 ?b)\<lparr>th_last_match := ?a, th_nr := th_nr (tab s2 ?b) + 1\<rparr>)\<rparr>"
  have r: "findnew_fuel (Suc (Suc 0)) s tgid tid = Some (?a, ?s)"
    unfolding findnew_fuel.simps(2) [of "Suc 0"] lookup_missing [OF tr none]
    by (rule create_member [where f = "findnew_fuel (Suc 0)" and s = s and ?s2.0 = s2 and a = ?a and b = ?b and e = e and l = l and ms = ms,
          OF e(1) refl a(2) new(1) l(1) l0 _ l(5) ms l(7) a2]) (use l(4) in simp)
  have am: "?a \<in> members (tab s2 ?b)" using l(10) e(2) by (force simp: members_def linked_def)
  have ok': "table_ok ?s {}"
    by (rule complete_pending [OF l(2) a2 _ am _ l(5) refl ms]) (use l(4,7) in auto)
  have mem: "members (tab s2 x) = members (tab ?s x)" for x by (simp add: members_def)
  have at2: "thread_at ?s i c" if "thread_at s2 i c" for i c
    by (rule thread_at_frame [OF that]) (use l(4,5) a2 mem in auto)
  have at: "thread_at ?s i c" if c: "thread_at s i c" for i c
  proof (rule at2, rule thread_at_frame [of ?s1])
    show "thread_at ?s1 i c" using c at1 by simp
    show "map_option t_tid (thread_st s2 c) = map_option t_tid (thread_st ?s1 c)"
    proof (cases "c = l")
      case True
      have "c \<noteq> next_addr ?s1" using c ok0 fr tree_ok_member [of "thread_st s" _ _ c] by (force simp: thread_at_def table_ok_def fresh_ok_def)
      then show ?thesis using True l(4,5,11) by (auto split: if_splits)
    qed (use l(9) in auto)
  qed (use l(10) in auto)
  have f1: "thread_at ?s tid ?a" using am mem by (simp add: thread_at_def tid_of_def)
  have f2: "thread_at ?s tgid l" by (rule at2 [OF l(3)])
  have f3: "thread_st ?s l = Some ?ld" using l(4) by simp
  have f4: "t_tgid ?ld = tgid" using l(6) by simp
  have "same_rest s ?s1" by (simp add: same_rest_def maps_body_def)
  moreover have "same_rest s2 ?s" using ms(2) by (auto simp: same_rest_def maps_body_def)
  ultimately have f5: "same_rest s ?s" using l(12) same_rest_trans by blast
  have l1: "thread_st s l = Some ?ld \<or> thread_st s l = None \<and> t_refcnt ?ld = 1 \<and> t_addr_space ld = 0"
    using l(4,11) fr by (auto simp: fresh_ok_def split: if_splits)
  have f6: "thread_st ?s c = thread_st s c" if "c \<noteq> ?a" "thread_st s c \<noteq> None" for c
    using that l(4,9) l1 by (cases "c = l") auto
  have f7: "t_tgid t' = tgid" "t_refcnt t' = 1 \<or> t_refcnt t' = 2" "t_addr_space t' = 0" if "thread_st s c = None" "thread_st ?s c = Some t'" for c t'
    using that l(4,6,9) l1 by (cases "c = l"; cases "c = ?a"; auto)+
  have f8: "\<forall>x. \<forall>c\<in>members (tab ?s x). c \<in> members (tab s x) \<or> thread_st s c = None"
  proof (intro allI ballI)
    fix x c assume c: "c \<in> members (tab ?s x)"
    then have c2: "c \<in> members (tab s2 x)" unfolding mem [symmetric] .
    have "c = next_addr ?s1 \<or> c \<in> members (tab ?s1 x)" using subsetD [OF l(13) [rule_format] c2] by (rule insertE) (rule disjI1 disjI2, assumption)+
    moreover have "members (tab ?s1 x) \<subseteq> insert ?a (members (tab s x))" using e(2) by (auto simp: members_def linked_def)
    ultimately show "c \<in> members (tab s x) \<or> thread_st s c = None" using fr by (auto simp: fresh_ok_def)
  qed
  have f9: "thread_at s tgid l \<or> next_addr s \<le> t_maps ?t" using l(4,11) at1 [of tgid l] by (simp split: if_splits)
  have at': "\<forall>i c. thread_at s i c \<longrightarrow> thread_at ?s i c" using at by blast
  have f6': "\<forall>c. c \<noteq> ?a \<longrightarrow> thread_st s c \<noteq> None \<longrightarrow> thread_st ?s c = thread_st s c" using f6 by blast
  have f7': "\<forall>c t'. thread_st s c = None \<longrightarrow> thread_st ?s c = Some t' \<longrightarrow> t_tgid t' = tgid \<and> (t_refcnt t' = 1 \<or> t_refcnt t' = 2) \<and> t_addr_space t' = 0"
    using f7 by blast
  have f10: "new_owned s ?s ?a"
  proof -
    have "(c = ?a \<or> t_refcnt u = 1) \<and> (\<exists>b. c \<in> members (tab ?s b))" if c: "thread_st s c = None" "thread_st ?s c = Some u" for c u
    proof -
      have "c = ?a \<or> c = l" using c l(9) by (auto split: if_splits)
      moreover have "t_refcnt u = 1" if "c = l" using that c l(4) l1 by auto
      moreover have "\<exists>b. ?a \<in> members (tab ?s b)" "\<exists>b. l \<in> members (tab ?s b)" using f1 f2 unfolding thread_at_def by blast+
      ultimately show ?thesis by blast
    qed
    moreover have "users (thread_st ?s) m \<noteq> {}" if m: "maps_st s m = None" "maps_st ?s m \<noteq> None" for m
    proof -
      have "m = t_maps ld" using m l(14) by (auto split: if_splits)
      then have "?a \<in> users (thread_st ?s) m" by (simp add: users_def)
      then show ?thesis by blast
    qed
    ultimately show ?thesis unfolding new_owned_def by blast
  qed
  have "found s ?s tgid tid ?a ?t" unfolding found_def machine_ok_def if_not_P [OF new(2)]
    by (intro conjI exI [of _ l] exI [of _ ?ld] ok' f10 f5 f1 at' f2 f3 f4 f6' f7' f8 f9) simp_all
  then show ?thesis unfolding fuel r by blast
qed

lemma findnew_ok:
  assumes "machine_ok s" "thread_fits s tgid tid"
  shows "\<exists>th s' t. uu_machine__findnew_thread s tgid tid = Some (th, s') \<and> found s s' tgid tid th t"
  using findnew_leader [OF assms] findnew_existing [OF assms] findnew_member [OF assms] by blast

text \<open>Under the lock of the bucket.\<close>

abbreviation set_lock :: "nat \<Rightarrow> rwlock \<Rightarrow> 'a machine_state_scheme \<Rightarrow> 'a machine_state_scheme" where
  "set_lock b l \<equiv> upd_tab b (\<lambda>T. T\<lparr>th_lock := l\<rparr>)"

lemma set_lock_simps [simp]:
  "members (tab (set_lock b l s) x) = members (tab s x)" "thread_st (set_lock b l s) = thread_st s"
  "maps_st (set_lock b l s) = maps_st s" "next_addr (set_lock b l s) = next_addr s" "singlethreaded (set_lock b l s) = singlethreaded s"
  "th_entries (tab (set_lock b l s) x) = th_entries (tab s x)" "th_last_match (tab (set_lock b l s) x) = th_last_match (tab s x)"
  "th_nr (tab (set_lock b l s) x) = th_nr (tab s x)" "th_lock (tab (set_lock b l s) b) = l"
  by (simp_all add: upd_tab_def members_def)

lemma machine_ok_lock [simp]: "machine_ok (set_lock b l s) = machine_ok s"
  by (simp add: machine_ok_def table_ok_def fresh_ok_def maps_counted_def tree_ok_def thread_live_def)

lemma thread_at_lock [simp]: "thread_at (set_lock b l s) i a = thread_at s i a"
  by (simp add: thread_at_def)

lemma thread_fits_lock [simp]: "thread_fits (set_lock b l s) g i = thread_fits s g i"
  by (simp add: thread_fits_def leader_fits_def)

lemma same_rest_lock: "\<lbrakk>same_rest (set_lock b l s) s'; th_lock (tab s b) = k\<rbrakk> \<Longrightarrow> same_rest s (set_lock b k s')"
  by (auto simp: same_rest_def upd_tab_def maps_body_def split: if_splits)

lemma new_owned_lock [simp]: "new_owned (set_lock b l s) s' th = new_owned s s' th" "new_owned s (set_lock b l s') th = new_owned s s' th"
  by (simp_all add: new_owned_def)

lemma machine__findnew_thread_ok:
  assumes ok: "machine_ok s" and fit: "thread_fits s tgid tid" and free: "th_lock (tab s (machine__threads tid)) = Free"
  shows "\<exists>th s' t. machine__findnew_thread s tgid tid = Some (th, s') \<and> found s s' tgid tid th t"
proof -
  let ?b = "machine__threads tid"
  obtain l where l: "down_write (singlethreaded s) Free = Some (0, l)" "up_write (singlethreaded s) l = Some (0, Free)"
    using write_lock.free [of "singlethreaded s"] write_lock.paired by blast
  obtain th s' t where f: "uu_machine__findnew_thread (set_lock ?b l s) tgid tid = Some (th, s')" "found (set_lock ?b l s) s' tgid tid th t"
    using findnew_ok [of "set_lock ?b l s" tgid tid] ok fit by auto
  have r: "same_rest (set_lock ?b l s) s'" using f(2) by (simp add: found_def)
  have "singlethreaded s' = singlethreaded s" "th_lock (tab s' ?b) = l" using r by (simp_all add: same_rest_def)
  then have "machine__findnew_thread s tgid tid = Some (th, set_lock ?b Free s')"
    using l f(1) free by (simp add: machine__findnew_thread_def)
  moreover have "found s (set_lock ?b Free s') tgid tid th t"
    using f(2) same_rest_lock [OF r free] by (cases "thread_at s tid th") (simp_all add: found_def cong: if_cong, elim conjE, simp)
  ultimately show ?thesis by blast
qed

end
