(* ===== verification/Dso_Read.thy ===== *)
theory Dso_Read
  imports Dso_Data
begin

text \<open>
  The cache of file data is transparent: \<^verbatim>\<open>dso__data_read_offset\<close> returns the bytes of the
  file whatever was read before. The file is given by its contents \<open>F\<close> and by what the system
  calls answer about it (\<open>os_has_file\<close>, the documented behaviour of \<^verbatim>\<open>stat\<close>, \<^verbatim>\<open>open\<close>,
  \<^verbatim>\<open>pread\<close> and \<^verbatim>\<open>fstat\<close> on a regular file that does not change).
\<close>

section \<open>Pages\<close>

lemma page_word: "unat (w AND DSO__DATA_CACHE_MASK) = unat w div 4096 * 4096"
proof -
  have m: "DSO__DATA_CACHE_MASK = NOT (mask 12)"
    by (simp add: DSO__DATA_CACHE_MASK_def DSO__DATA_CACHE_SIZE_def mask_eq_exp_minus_1)
  have "w AND NOT (mask 12) = push_bit 12 (drop_bit 12 w)"
    by (rule bit_word_eqI) (auto simp: bit_simps)
  then have "unat (w AND NOT (mask 12)) = take_bit 64 (push_bit 12 (drop_bit 12 (take_bit 64 (unat w))))"
    by (simp add: unsigned_push_bit_eq unsigned_drop_bit_eq)
  also have "\<dots> = unat w div 4096 * 4096"
  proof -
    have "unat w < 2 ^ 64" using unsigned_less [of w] by simp
    moreover from this have "unat w div 4096 * 4096 < 2 ^ 64" by (meson div_times_less_eq_dividend order_le_less_trans)
    ultimately show ?thesis by (simp add: push_bit_eq_mult drop_bit_eq_div take_bit_eq_mod)
  qed
  finally show ?thesis by (simp add: m)
qed

definition chunk :: "u8 list \<Rightarrow> nat \<Rightarrow> u8 list" where
  "chunk F off = take 4096 (drop off F)"

lemma length_chunk: "length (chunk F off) = min 4096 (length F - off)"
  by (simp add: chunk_def)

section \<open>The invariant\<close>

definition cache_key :: "(addr \<rightharpoonup> dso_cache) \<Rightarrow> addr \<Rightarrow> u64" where
  "cache_key cs a = (case cs a of Some c \<Rightarrow> c_offset c | None \<Rightarrow> 0)"

definition cache_valid :: "(addr \<rightharpoonup> dso_cache) \<Rightarrow> addr \<Rightarrow> bool" where
  "cache_valid cs a \<longleftrightarrow> (case cs a of Some c \<Rightarrow> unat (c_offset c) < 2 ^ 63 | None \<Rightarrow> False)"

definition entry_ok :: "u8 list \<Rightarrow> dso_cache \<Rightarrow> bool" where
  "entry_ok F c \<longleftrightarrow> 4096 dvd unat (c_offset c) \<and> unat (c_offset c) < length F \<and>
     unat (c_size c) = length (chunk F (unat (c_offset c))) \<and> length (c_data c) = 4096 \<and>
     take (unat (c_size c)) (c_data c) = chunk F (unat (c_offset c))"

definition cache_ok :: "u8 list \<Rightarrow> dso_data \<Rightarrow> bool" where
  "cache_ok F d \<longleftrightarrow> rb_ok (cache d) \<and> distinct (inorder (cache d)) \<and>
     sorted (map (cache_key (caches d)) (inorder (cache d))) \<and>
     (\<forall>a\<in>set (inorder (cache d)). \<exists>c. caches d a = Some c \<and> entry_ok F c) \<and>
     (\<forall>a\<in>dom (caches d). a < next_cache d)"

definition os_has_file :: "os \<Rightarrow> string \<Rightarrow> u8 list \<Rightarrow> bool" where
  "os_has_file E name F \<longleftrightarrow> length name < PATH_MAX \<and> is_regular_file E name \<and> os_open E name \<ge> 0 \<and>
     (\<forall>off. os_pread E (os_open E name) 4096 off =
        (int (length (chunk F (unat off))), chunk F (unat off))) \<and>
     os_fstat E (os_open E name) = (0, of_nat (length F)) \<and> length F < 2 ^ 63"

definition dso_ok :: "os \<Rightarrow> string \<Rightarrow> u8 list \<Rightarrow> dso_data \<Rightarrow> bool" where
  "dso_ok E name F d \<longleftrightarrow> cache_ok F d \<and> status d \<noteq> DSO_DATA_STATUS_ERROR \<and>
     (fd d < 0 \<or> fd d = os_open E name) \<and> (file_size d = 0 \<or> file_size d = of_nat (length F))"

section \<open>Searching the cache\<close>

lemma cache_end: "unat (c_offset c) < 2 ^ 63 \<Longrightarrow> unat (c_offset c + DSO__DATA_CACHE_SIZE) = unat (c_offset c) + 4096"
  by (simp add: DSO__DATA_CACHE_SIZE_def unat_word_ariths(1))

lemma cache_decide_nat:
  assumes "cs a = Some c" "unat (c_offset c) < 2 ^ 63"
  shows "cache_decide cs off a = (if unat off < unat (c_offset c) then Go_left
     else if unat off \<ge> unat (c_offset c) + 4096 then Go_right else Stop)"
  using assms by (simp add: cache_decide_def Let_def word_less_nat_alt word_le_nat_alt cache_end)

interpretation cache_search: keyed_search "cache_valid cs" "cache_key cs" "cache_decide cs" for cs
proof
  fix a b k
  assume "cache_valid cs a" "cache_valid cs b" "cache_key cs a \<le> cache_key cs b"
  then show "cache_decide cs k a \<le> cache_decide cs k b"
    by (auto simp: cache_valid_def cache_key_def cache_decide_nat word_le_nat_alt split: option.splits)
next
  fix a k
  assume "cache_valid cs a" "cache_decide cs k a = Go_right"
  then show "cache_key cs a \<le> k"
    by (auto simp: cache_valid_def cache_key_def cache_decide_nat word_le_nat_alt split: option.splits if_splits)
next
  fix a k
  assume "cache_valid cs a" "cache_decide cs k a = Go_left"
  then show "k \<le> cache_key cs a"
    by (auto simp: cache_valid_def cache_key_def cache_decide_nat word_le_nat_alt split: option.splits if_splits)
qed

lemma cache_ok_valid: "\<lbrakk>cache_ok F d; length F < 2 ^ 63\<rbrakk> \<Longrightarrow> \<forall>a\<in>set (inorder (cache d)). cache_valid (caches d) a"
  by (fastforce simp: cache_ok_def cache_valid_def entry_ok_def)

definition covers :: "dso_cache \<Rightarrow> nat \<Rightarrow> bool" where
  "covers c off \<longleftrightarrow> unat (c_offset c) \<le> off \<and> off < unat (c_offset c) + 4096"

lemma dso_cache__find_ok:
  assumes ok: "cache_ok F d" and F: "length F < 2 ^ 63"
  shows "(\<exists>a c. dso_cache__find d off = Some (Some a) \<and> a \<in> set (inorder (cache d)) \<and> caches d a = Some c \<and>
            entry_ok F c \<and> covers c (unat off)) \<or>
    (dso_cache__find d off = Some None \<and>
       (\<forall>a\<in>set (inorder (cache d)). \<forall>c. caches d a = Some c \<longrightarrow> \<not> covers c (unat off)))"
proof -
  have s: "sorted (map (cache_key (caches d)) (inorder (cache d)))" using ok by (simp add: cache_ok_def)
  note v = cache_ok_valid [OF ok F]
  have stop: "cache_decide (caches d) off a = Stop \<longleftrightarrow> covers c (unat off)"
    if "a \<in> set (inorder (cache d))" "caches d a = Some c" for a c
  proof -
    have "unat (c_offset c) < 2 ^ 63" using that v by (auto simp: cache_valid_def split: option.splits)
    with that show ?thesis by (auto simp: cache_decide_nat covers_def)
  qed
  show ?thesis
  proof (cases "rbt_find (cache_decide (caches d) off) (cache d)")
    case None
    then show ?thesis using cache_search.find_missing [OF s v None] stop by (auto simp: dso_cache__find_def)
  next
    case (Some a)
    with cache_search.find_found [OF s v Some] stop ok show ?thesis
      by (fastforce simp: dso_cache__find_def cache_ok_def)
  qed
qed

section \<open>Copying out of an entry\<close>

lemma unat_min: "unat (min a b) = min (unat a) (unat b)"
  by (simp add: min_def word_le_nat_alt)

lemma unat_of_int_small: "\<lbrakk>0 \<le> n; n < 2 ^ 63\<rbrakk> \<Longrightarrow> unat (word_of_int n :: u64) = nat n"
  by (simp add: unsigned_of_int take_bit_int_eq_self)

lemma sint_small: "unat w < 2 ^ 63 \<Longrightarrow> sint (w :: u64) = int (unat w)"
proof -
  assume "unat w < 2 ^ 63"
  then have "int (unat w) < int (2 ^ 63)" by (simp only: of_nat_less_iff)
  then have "uint w < 2 ^ 63" by simp
  moreover have "- (2 ^ 63) \<le> uint w" by (rule order_trans [of _ 0]) simp_all
  ultimately show ?thesis using signed_take_bit_int_eq_self [of 63 "uint w"] by (simp add: sint_uint)
qed

lemma memcpy_ok:
  assumes c: "caches d a = Some c" "entry_ok F c" "covers c (unat off)" and o: "unat off \<le> length F" and F: "length F < 2 ^ 63"
    and n: "0 \<le> n" "n < 2 ^ 63"
  shows "dso_cache__memcpy d a off (word_of_int n) =
    (let out = take (nat n) (take (4096 - unat off mod 4096) (drop (unat off) F)) in Some (int (length out), out))"
proof -
  let ?o = "unat (c_offset c)" and ?s = "unat (c_size c)"
  have e: "4096 dvd ?o" "?o < length F" "?s = min 4096 (length F - ?o)" "take ?s (c_data c) = chunk F ?o" "length (c_data c) = 4096"
    using c(2) by (auto simp: entry_ok_def length_chunk)
  have cov: "?o \<le> unat off" "unat off < ?o + 4096" using c(3) by (auto simp: covers_def)
  have mod: "unat off mod 4096 = unat off - ?o" 
  proof -
    from e(1) obtain k where k: "?o = 4096 * k" by (elim dvdE)
    have "unat off mod 4096 = ((unat off - ?o) + 4096 * k) mod 4096" using cov k by simp
    also have "\<dots> = unat off - ?o" using cov(2) by (simp only: mod_mult_self2) simp
    finally show ?thesis .
  qed
  have co: "unat (off - c_offset c) = unat off - ?o" using cov(1) by (simp add: unat_sub word_le_nat_alt)
  have avail: "unat off - ?o \<le> ?s" using e cov o by auto
  then have cs: "unat (c_size c - (off - c_offset c)) = ?s - (unat off - ?o)"
    by (simp add: unat_sub word_le_nat_alt co)
  have un: "unat (word_of_int n :: u64) = nat n" using n by (rule unat_of_int_small)
  let ?m = "min (c_size c - (off - c_offset c)) (word_of_int n :: u64)"
  have m: "unat ?m = min (?s - (unat off - ?o)) (nat n)" by (simp add: unat_min cs un)
  also have "\<dots> \<le> 4096" using e(3) by auto
  finally have sm: "sint ?m = int (unat ?m)" by (intro sint_small) simp
  let ?out = "take (nat n) (take (4096 - unat off mod 4096) (drop (unat off) F))"
  have "take (unat ?m) (drop (unat off - ?o) (c_data c)) = take (unat ?m) (drop (unat off - ?o) (chunk F ?o))"
    using m by (simp add: e(4) [symmetric] drop_take min_absorb1 del: unat_min)
  also have "\<dots> = ?out"
  proof -
    have "drop (unat off - ?o) (chunk F ?o) = take (4096 - unat off mod 4096) (drop (unat off) F)"
      using cov by (simp add: chunk_def drop_take mod)
    moreover have "length (drop (unat off - ?o) (chunk F ?o)) = ?s - (unat off - ?o)" using e(3) by (simp add: length_chunk)
    moreover have "take (min (length X) k) X = take k X" for X :: "u8 list" and k by (simp add: min_def)
    ultimately show ?thesis using m by metis
  qed
  finally have out: "take (unat ?m) (drop (unat off - ?o) (c_data c)) = ?out" .
  have "unat ?m \<le> ?s - (unat off - ?o)" "?s \<le> 4096" using m e(3) by simp_all
  then have bound: "unat off - ?o + unat ?m \<le> 4096" using avail by linarith
  have "length ?out = length (take (unat ?m) (drop (unat off - ?o) (c_data c)))" by (simp only: out)
  also have "\<dots> = unat ?m" using bound e(5) by (simp only: length_take length_drop)
  finally have len: "unat ?m = length ?out" by (rule sym)
  have sz: "unat DSO__DATA_CACHE_SIZE = 4096" by (simp add: DSO__DATA_CACHE_SIZE_def)
  have "dso_cache__memcpy d a off (word_of_int n) =
      (if unat (off - c_offset c) + unat ?m \<le> unat DSO__DATA_CACHE_SIZE
       then Some (sint ?m, take (unat ?m) (drop (unat (off - c_offset c)) (c_data c))) else None)"
    unfolding dso_cache__memcpy_def c(1) Let_def by (rule Option.bind.bind_lunit)
  also have "\<dots> = Some (sint ?m, take (unat ?m) (drop (unat off - ?o) (c_data c)))"
    unfolding co sz using bound by (simp only: if_True)
  also have "\<dots> = Some (int (length ?out), ?out)" unfolding out sm by (simp only: len)
  finally show ?thesis unfolding Let_def .
qed

section \<open>Filling the cache\<close>

lemma filename_id: "length name < PATH_MAX \<Longrightarrow> dso__read_binary_type_filename name PATH_MAX = name"
  by (simp add: dso__read_binary_type_filename_def join_symfs_short)

lemma try_to_open_ok:
  assumes "os_has_file E name F" "status d \<noteq> DSO_DATA_STATUS_ERROR" "fd d < 0 \<or> fd d = os_open E name"
  shows "\<exists>st. try_to_open_dso E name d = Some (d\<lparr>fd := os_open E name, status := st\<rparr>) \<and> st \<noteq> DSO_DATA_STATUS_ERROR"
proof (cases "fd d < 0")
  case True
  with assms show ?thesis
    by (intro exI [of _ DSO_DATA_STATUS_OK]) (simp add: try_to_open_dso_def open_dso_def os_has_file_def filename_id do_open_def Let_def)
next
  case False
  with assms have "d\<lparr>fd := os_open E name, status := status d\<rparr> = d" by simp
  with False assms show ?thesis by (metis try_to_open_dso_def linorder_not_less)
qed

text \<open>The entry a miss creates.\<close>

definition page_entry :: "u8 list \<Rightarrow> u64 \<Rightarrow> dso_cache" where
  "page_entry F off =
     (let p = off AND DSO__DATA_CACHE_MASK; bs = chunk F (unat p) in
      \<lparr>c_offset = p, c_size = word_of_int (int (length bs)), c_data = cache_buffer bs\<rparr>)"

lemma page_bounds: "unat (off AND DSO__DATA_CACHE_MASK) \<le> unat off" "unat off < unat (off AND DSO__DATA_CACHE_MASK) + 4096"
  "4096 dvd unat (off AND DSO__DATA_CACHE_MASK)"
  by (auto simp: page_word)

lemma page_entry_ok:
  assumes "unat (off AND DSO__DATA_CACHE_MASK) < length F"
  shows "entry_ok F (page_entry F off)" "covers (page_entry F off) (unat off)" "c_offset (page_entry F off) = off AND DSO__DATA_CACHE_MASK"
proof -
  let ?p = "unat (off AND DSO__DATA_CACHE_MASK)"
  have "unat (word_of_int (int (length (chunk F ?p))) :: u64) = length (chunk F ?p)"
    by (subst unat_of_int_small) (auto simp: length_chunk)
  moreover have "length (chunk F ?p) \<le> 4096" by (simp add: length_chunk)
  ultimately show "entry_ok F (page_entry F off)"
    using page_bounds [of off] assms
    by (simp add: entry_ok_def page_entry_def Let_def cache_buffer_def)
  show "covers (page_entry F off) (unat off)" "c_offset (page_entry F off) = off AND DSO__DATA_CACHE_MASK"
    using page_bounds [of off] by (auto simp: covers_def page_entry_def Let_def)
qed

lemma covers_page:
  assumes "entry_ok F c" "covers c (unat (off AND DSO__DATA_CACHE_MASK))"
  shows "covers c (unat off)"
proof -
  from assms page_bounds(3) [of off] have "unat (c_offset c) = unat (off AND DSO__DATA_CACHE_MASK)"
    by (auto simp: covers_def entry_ok_def elim!: dvdE)
  then show ?thesis using page_bounds [of off] by (simp add: covers_def)
qed

lemma insert_page:
  assumes ok: "cache_ok F d" and F: "length F < 2 ^ 63" and o: "unat (off AND DSO__DATA_CACHE_MASK) < length F"
    and miss: "\<forall>a\<in>set (inorder (cache d)). \<forall>c. caches d a = Some c \<longrightarrow> \<not> covers c (unat off)"
    and new: "a \<notin> set (inorder (cache d))" "caches d a = Some (page_entry F off)"
  shows "\<exists>t. dso_cache__insert d a = Some (None, d\<lparr>cache := t\<rparr>) \<and> cache_ok F (d\<lparr>cache := t\<rparr>) \<and> a \<in> set (inorder t)"
proof -
  let ?k = "off AND DSO__DATA_CACHE_MASK"
  have key: "cache_key (caches d) a = ?k" using new(2) page_entry_ok(3) [OF o] by (simp add: cache_key_def)
  note v = cache_ok_valid [OF ok F]
  have nostop: "cache_decide (caches d) ?k b \<noteq> Stop" if b: "b \<in> set (inorder (cache d))" for b
  proof -
    obtain c where c: "caches d b = Some c" "entry_ok F c" using ok b by (auto simp: cache_ok_def)
    then have "\<not> covers c (unat ?k)" using miss b covers_page by blast
    moreover have "unat (c_offset c) < 2 ^ 63" using c(2) F by (simp add: entry_ok_def)
    ultimately show ?thesis using c(1) by (auto simp: cache_decide_nat covers_def)
  qed
  obtain t where t: "rbt_insert (cache_decide (caches d) ?k) a (cache d) = Some (Inr t)" "rb_ok t"
    "sorted (map (cache_key (caches d)) (inorder t))" "\<exists>xs ys. inorder (cache d) = xs @ ys \<and> inorder t = xs @ a # ys"
    using cache_search.insert_sorted [of "cache d" "caches d" a] ok v nostop unfolding key by (auto simp: cache_ok_def)
  then have "dso_cache__insert d a = Some (None, d\<lparr>cache := t\<rparr>)"
    using new(2) page_entry_ok(3) [OF o] by (simp add: dso_cache__insert_def)
  moreover have "cache_ok F (d\<lparr>cache := t\<rparr>)"
    using t ok new page_entry_ok(1) [OF o] by (auto simp: cache_ok_def)
  ultimately show ?thesis using t(4) by auto
qed


text \<open>A chunk of the answer: what one \<^verbatim>\<open>dso_cache_read\<close> delivers of the \<open>n\<close> bytes wanted.\<close>

definition piece :: "u8 list \<Rightarrow> nat \<Rightarrow> int \<Rightarrow> u8 list" where
  "piece F off n = take (nat n) (take (4096 - off mod 4096) (drop off F))"

definition cached :: "dso_data \<Rightarrow> nat \<Rightarrow> bool" where
  "cached d off \<longleftrightarrow> (\<exists>a\<in>set (inorder (cache d)). \<exists>c. caches d a = Some c \<and> covers c off)"

lemma piece_nonempty: "\<lbrakk>off < length F; 0 < n\<rbrakk> \<Longrightarrow> piece F off n \<noteq> []"
  by (simp add: piece_def)

lemma cache_ok_fresh:
  assumes ok: "cache_ok F d" and d': "cache d' = cache d" "caches d' = (caches d)(next_cache d \<mapsto> c)" "next_cache d' = next_cache d + 1"
  shows "cache_ok F d'"
proof -
  have fresh: "a \<noteq> next_cache d" if "a \<in> set (inorder (cache d))" for a using that ok by (fastforce simp: cache_ok_def)
  then have key: "map (cache_key ((caches d)(next_cache d \<mapsto> c))) (inorder (cache d)) = map (cache_key (caches d)) (inorder (cache d))"
    by (intro map_cong) (simp_all add: cache_key_def)
  show ?thesis unfolding cache_ok_def d' key using ok fresh by (auto simp: cache_ok_def less_Suc_eq)
qed

lemma dso_cache__read_fill:
  assumes E: "os_has_file E name F" and ok: "dso_ok E name F d" and o: "unat (off AND DSO__DATA_CACHE_MASK) < length F" "unat off \<le> length F"
    and n: "0 < n" "n < 2 ^ 63" and miss: "\<not> cached d (unat off)"
  shows "\<exists>a d'. dso_cache__read E name d off n = Some (int (length (piece F (unat off) n)), piece F (unat off) n,
      if piece F (unat off) n = [] then free_cache a d' else d') \<and>
    dso_ok E name F d' \<and> a \<in> set (inorder (cache d')) \<and> caches d' a = Some (page_entry F off)"
proof -
  let ?a = "next_cache d" and ?p = "off AND DSO__DATA_CACHE_MASK"
  have F: "length F < 2 ^ 63" using E by (simp add: os_has_file_def)
  define d0 where "d0 = d\<lparr>caches := (caches d)(?a \<mapsto> \<lparr>c_offset = 0, c_size = 0, c_data = cache_buffer []\<rparr>), next_cache := ?a + 1\<rparr>"
  obtain st where op: "try_to_open_dso E name d0 = Some (d0\<lparr>fd := os_open E name, status := st\<rparr>)" "st \<noteq> DSO_DATA_STATUS_ERROR"
    using try_to_open_ok [OF E, of d0] ok by (auto simp: dso_ok_def d0_def)
  define d1 where "d1 = d0\<lparr>fd := os_open E name, status := st, caches := (caches d0)(?a \<mapsto> page_entry F off)\<rparr>"
  have cok: "cache_ok F d" using ok by (simp add: dso_ok_def)
  have fresh: "?a \<notin> set (inorder (cache d))" using cok by (fastforce simp: cache_ok_def)
  have ok1: "cache_ok F d1" by (rule cache_ok_fresh [OF cok]) (simp_all add: d1_def d0_def)
  have miss1: "\<forall>a\<in>set (inorder (cache d1)). \<forall>c. caches d1 a = Some c \<longrightarrow> \<not> covers c (unat off)"
    using miss fresh unfolding cached_def d1_def d0_def by (auto split: if_splits)
  obtain t where t: "dso_cache__insert d1 ?a = Some (None, d1\<lparr>cache := t\<rparr>)" "cache_ok F (d1\<lparr>cache := t\<rparr>)" "?a \<in> set (inorder t)"
    using insert_page [OF ok1 F o(1) miss1, of ?a] fresh by (auto simp: d1_def d0_def)
  let ?d = "d1\<lparr>cache := t\<rparr>"
  have cp: "dso_cache__memcpy ?d ?a off (word_of_int n) = Some (int (length (piece F (unat off) n)), piece F (unat off) n)"
    unfolding piece_def by (subst memcpy_ok [OF _ page_entry_ok(1,2) [OF o(1)] _ F]) (use o n in \<open>auto simp: d1_def Let_def\<close>)
  have bs: "chunk F (unat ?p) \<noteq> []" using page_bounds(1) [of off] o(1) by (simp add: chunk_def)
  have "dso_cache__read E name d off n = Some (int (length (piece F (unat off) n)), piece F (unat off) n,
      if piece F (unat off) n = [] then free_cache ?a ?d else ?d)"
  proof -
    have fd: "\<not> os_open E name < 0" and pr: "os_pread E (os_open E name) 4096 ?p = (int (length (chunk F (unat ?p))), chunk F (unat ?p))"
      using E by (simp_all add: os_has_file_def)
    have sz: "unat DSO__DATA_CACHE_SIZE = 4096" by (simp add: DSO__DATA_CACHE_SIZE_def)
    have d1: "d1 = d0\<lparr>fd := os_open E name, status := st,
        caches := (caches d0)(?a \<mapsto> \<lparr>c_offset = ?p, c_size = of_nat (length (chunk F (unat ?p))), c_data = cache_buffer (chunk F (unat ?p))\<rparr>)\<rparr>"
      by (simp add: d1_def page_entry_def Let_def)
    show ?thesis unfolding dso_cache__read_def Let_def d0_def [symmetric] op(1)
      using fd bs t(1) cp by (simp add: sz pr d1 [symmetric])
  qed
  moreover have "dso_ok E name F ?d"
    using ok op(2) t(2) by (auto simp: dso_ok_def d1_def d0_def)
  moreover have "?a \<in> set (inorder (cache ?d))" "caches ?d ?a = Some (page_entry F off)" using t(3) by (simp_all add: d1_def)
  ultimately show ?thesis by blast
qed


lemma dso_cache__read_miss:
  assumes E: "os_has_file E name F" and ok: "dso_ok E name F d" and o: "unat off < length F"
    and n: "0 < n" "n < 2 ^ 63" and miss: "\<not> cached d (unat off)"
  shows "\<exists>d'. dso_cache__read E name d off n = Some (int (length (piece F (unat off) n)), piece F (unat off) n, d') \<and>
    dso_ok E name F d' \<and> cached d' (unat off)"
proof -
  have p: "unat (off AND DSO__DATA_CACHE_MASK) < length F" using page_bounds(1) [of off] o by simp
  obtain a d' where "dso_cache__read E name d off n = Some (int (length (piece F (unat off) n)), piece F (unat off) n,
      if piece F (unat off) n = [] then free_cache a d' else d')"
    "dso_ok E name F d'" "a \<in> set (inorder (cache d'))" "caches d' a = Some (page_entry F off)"
    using dso_cache__read_fill [OF E ok p _ n miss] o by auto
  then show ?thesis using piece_nonempty [OF o n(1)] page_entry_ok(2) [OF p] by (auto simp: cached_def)
qed

lemma dso_cache_read_ok:
  assumes E: "os_has_file E name F" and ok: "dso_ok E name F d" and o: "unat off < length F"
    and n: "0 < n" "n < 2 ^ 63"
  shows "\<exists>d'. dso_cache_read E name d off n = Some (int (length (piece F (unat off) n)), piece F (unat off) n, d') \<and>
    dso_ok E name F d' \<and> cached d' (unat off)"
proof -
  have F: "length F < 2 ^ 63" using E by (simp add: os_has_file_def)
  have cok: "cache_ok F d" using ok by (simp add: dso_ok_def)
  consider (hit) a c where "dso_cache__find d off = Some (Some a)" "a \<in> set (inorder (cache d))" "caches d a = Some c"
      "entry_ok F c" "covers c (unat off)"
    | (miss) "dso_cache__find d off = Some None" "\<not> cached d (unat off)"
    using dso_cache__find_ok [OF cok F, of off] unfolding cached_def by blast
  then show ?thesis
  proof cases
    case hit
    then have "dso_cache_read E name d off n = Some (int (length (piece F (unat off) n)), piece F (unat off) n, d)"
      using memcpy_ok [OF hit(3-5) _ F, of n] o n by (simp add: dso_cache_read_def piece_def Let_def)
    then show ?thesis using hit ok unfolding cached_def by blast
  next
    case miss
    then show ?thesis using dso_cache__read_miss [OF E ok o n miss(2)] by (simp add: dso_cache_read_def)
  qed
qed

text \<open>At the end of the file: nothing is delivered, provided the last page is in the cache or the file
  ends on a page boundary (the other case frees an entry of the tree).\<close>

lemma dso_cache_read_eof:
  assumes E: "os_has_file E name F" and ok: "dso_ok E name F d" and o: "unat off = length F"
    and n: "0 < n" "n < 2 ^ 63" and last: "cached d (unat off) \<or> 4096 dvd length F"
  shows "\<exists>d'. dso_cache_read E name d off n = Some (0, [], d') \<and> dso_ok E name F d'"
proof -
  have F: "length F < 2 ^ 63" using E by (simp add: os_has_file_def)
  have cok: "cache_ok F d" using ok by (simp add: dso_ok_def)
  consider (hit) a c where "dso_cache__find d off = Some (Some a)" "caches d a = Some c" "entry_ok F c" "covers c (unat off)"
    | (miss) "dso_cache__find d off = Some None" "\<not> cached d (unat off)"
    using dso_cache__find_ok [OF cok F, of off] unfolding cached_def by blast
  then show ?thesis
  proof cases
    case hit
    then have "dso_cache_read E name d off n = Some (0, [], d)"
      using memcpy_ok [OF hit(2-4) _ F, of n] o n by (simp add: dso_cache_read_def Let_def)
    then show ?thesis using ok by blast
  next
    case miss
    let ?a = "next_cache d" and ?p = "off AND DSO__DATA_CACHE_MASK"
    define d0 where "d0 = d\<lparr>caches := (caches d)(?a \<mapsto> \<lparr>c_offset = 0, c_size = 0, c_data = cache_buffer []\<rparr>), next_cache := ?a + 1\<rparr>"
    obtain st where op: "try_to_open_dso E name d0 = Some (d0\<lparr>fd := os_open E name, status := st\<rparr>)" "st \<noteq> DSO_DATA_STATUS_ERROR"
      using try_to_open_ok [OF E, of d0] ok by (auto simp: dso_ok_def d0_def)
    have fd: "\<not> os_open E name < 0" and pr: "os_pread E (os_open E name) 4096 ?p = (int (length (chunk F (unat ?p))), chunk F (unat ?p))"
      using E by (simp_all add: os_has_file_def)
    have "unat ?p = length F" using miss(2) last o by (auto simp: page_word)
    then have empty: "chunk F (unat ?p) = []" by (simp add: chunk_def)
    have sz: "unat DSO__DATA_CACHE_SIZE = 4096" by (simp add: DSO__DATA_CACHE_SIZE_def)
    let ?d = "free_cache ?a (d0\<lparr>fd := os_open E name, status := st\<rparr>)"
    have "dso_cache_read E name d off n = Some (0, [], ?d)"
      using fd miss(1) unfolding dso_cache_read_def dso_cache__read_def Let_def d0_def [symmetric] op(1) by (simp add: sz pr empty)
    moreover have "cache_ok F ?d"
    proof -
      have "caches d ?a = None" using cok by (fastforce simp: cache_ok_def)
      then have "caches ?d = caches d" by (simp add: free_cache_def d0_def fun_upd_idem)
      then show ?thesis using cok by (simp add: cache_ok_def free_cache_def d0_def less_Suc_eq)
    qed
    ultimately show ?thesis using ok op(2) by (auto simp: dso_ok_def free_cache_def d0_def)
  qed
qed

section \<open>The loop\<close>

lemma page_next:
  assumes "k \<le> 4096 - off mod 4096" "0 < k"
  shows "4096 dvd (off + k) \<or> (off + k) div 4096 = off div (4096 :: nat)"
proof (cases "k = 4096 - off mod 4096")
  case True
  have "off + (4096 - off mod 4096) = (off div 4096 + 1) * 4096"
    using div_mult_mod_eq [of off 4096] mod_less_divisor [of 4096 off, OF zero_less_numeral]
    unfolding add_mult_distrib by linarith
  with True show ?thesis by (metis dvd_triv_right)
next
  case False
  with assms have "off mod 4096 + k < 4096" by linarith
  then have "(off + k) div 4096 = off div 4096"
    using div_mult_mod_eq [of off 4096] by (intro div_nat_eqI) (unfold mult_Suc_right, linarith+)
  then show ?thesis by (rule disjI2)
qed

lemma covers_same_page:
  assumes "entry_ok F c" "covers c off" "off' div 4096 = off div 4096"
  shows "covers c off'"
proof -
  from assms(1) obtain k where "unat (c_offset c) = 4096 * k" unfolding entry_ok_def by (blast elim: dvdE)
  moreover from this assms(2) have "off div 4096 = k" by (intro div_nat_eqI) (simp_all add: covers_def)
  moreover have "off' div 4096 * 4096 \<le> off'" "off' < off' div 4096 * 4096 + 4096" by simp_all
  ultimately show ?thesis using assms(3) unfolding covers_def by (simp only: mult.commute)
qed

lemma cached_same_page:
  assumes "cache_ok F d" "cached d off" "off' div 4096 = off div 4096"
  shows "cached d off'"
proof -
  from assms(2) obtain a c where ac: "a \<in> set (inorder (cache d))" "caches d a = Some c" "covers c off"
    unfolding cached_def by blast
  with assms(1) have "entry_ok F c" by (fastforce simp: cache_ok_def)
  with ac assms(3) show ?thesis unfolding cached_def using covers_same_page by blast
qed

text \<open>The position \<open>off\<close> of a read is safe when a read there does not free an entry of the tree.\<close>

definition safe_at :: "u8 list \<Rightarrow> dso_data \<Rightarrow> nat \<Rightarrow> bool" where
  "safe_at F d off \<longleftrightarrow> off < length F \<or> off = length F \<and> (cached d off \<or> 4096 dvd off)"

lemma safe_at_next:
  assumes ok: "cache_ok F d" "cached d off" and off: "off < length F" and n: "0 < n"
  shows "safe_at F d (off + length (piece F off n))"
proof -
  let ?k = "length (piece F off n)"
  have k: "?k \<le> 4096 - off mod 4096" "?k \<le> length F - off" by (simp_all add: piece_def)
  have pos: "0 < ?k" using piece_nonempty [OF off n] by simp
  show ?thesis
    using page_next [OF k(1) pos] cached_same_page [OF ok] k(2) off by (auto simp: safe_at_def)
qed

lemma piece_whole: "length (piece F off n) = nat n \<Longrightarrow> take (nat n) (drop off F) = piece F off n"
  by (auto simp: piece_def min_def split: if_splits)

lemma piece_rest:
  assumes "length (piece F off n) \<noteq> nat n" "0 \<le> n"
  shows "take (nat n) (drop off F) = piece F off n @ take (nat n - length (piece F off n)) (drop (off + length (piece F off n)) F)"
proof -
  let ?k = "length (piece F off n)"
  have "piece F off n = take ?k (take (nat n) (drop off F))"
    by (simp add: piece_def min.commute min.left_commute min_def)
  then have "take (nat n) (drop off F) = piece F off n @ drop ?k (take (nat n) (drop off F))"
    by (metis append_take_drop_id)
  then show ?thesis by (simp add: drop_take add.commute)
qed

lemma cached_read_loop_ok:
  assumes E: "os_has_file E name F"
  shows "\<lbrakk>dso_ok E name F d; safe_at F d (unat off); 0 < n; n < 2 ^ 63\<rbrakk> \<Longrightarrow>
    \<exists>d'. cached_read_loop E name d off n r acc =
        Some (r + int (length (take (nat n) (drop (unat off) F))), acc @ take (nat n) (drop (unat off) F), d') \<and>
      dso_ok E name F d'"
proof (induction "nat n" arbitrary: d off n r acc rule: less_induct)
  case less
  note ok = less.prems(1) and n = less.prems(3,4)
  show ?case
  proof (cases "unat off < length F")
    case False
    with less.prems(2) have "unat off = length F" "cached d (unat off) \<or> 4096 dvd length F" by (auto simp: safe_at_def)
    then obtain d' where d': "dso_cache_read E name d off n = Some (0, [], d')" "dso_ok E name F d'"
      using dso_cache_read_eof [OF E ok _ n] by blast
    have "take (nat n) (drop (unat off) F) = []" using False by simp
    with d' show ?thesis by (subst cached_read_loop.simps) (simp only: bind.bind_lunit, simp)
  next
    case True
    let ?p = "piece F (unat off) n"
    obtain d' where d': "dso_cache_read E name d off n = Some (int (length ?p), ?p, d')" "dso_ok E name F d'" "cached d' (unat off)"
      using dso_cache_read_ok [OF E ok True n] by blast
    have pos: "0 < length ?p" using piece_nonempty [OF True n(1)] by simp
    have le: "int (length ?p) \<le> n" using n(1) by (simp add: piece_def)
    have step: "cached_read_loop E name d off n r acc =
        (if n - int (length ?p) \<noteq> 0
         then cached_read_loop E name d' (off + word_of_int (int (length ?p))) (n - int (length ?p)) (r + int (length ?p)) (acc @ ?p)
         else Some (r + int (length ?p), acc @ ?p, d'))"
      using pos le by (subst cached_read_loop.simps) (simp add: d'(1))
    show ?thesis
    proof (cases "length ?p = nat n")
      case True
      then have "take (nat n) (drop (unat off) F) = ?p"
        by (rule piece_whole)
      with True n d'(2) step show ?thesis by simp
    next
      case False
      let ?off = "off + word_of_int (int (length ?p))" and ?n = "n - int (length ?p)"
      have F: "length F < 2 ^ 63" using E by (simp add: os_has_file_def)
      have "length ?p \<le> length F - unat off" by (simp add: piece_def)
      then have off: "unat ?off = unat off + length ?p"
        using F True by (simp add: unat_word_ariths(1) unsigned_of_nat take_bit_nat_eq_self)
      have "nat ?n < nat n" "0 < ?n" "?n < 2 ^ 63" using pos le False n by auto
      moreover have "safe_at F d' (unat ?off)" unfolding off
        using safe_at_next [OF _ d'(3) True n(1)] d'(2) by (simp add: dso_ok_def)
      ultimately obtain d'' where d'': "cached_read_loop E name d' ?off ?n (r + int (length ?p)) (acc @ ?p) =
          Some (r + int (length ?p) + int (length (take (nat ?n) (drop (unat ?off) F))), (acc @ ?p) @ take (nat ?n) (drop (unat ?off) F), d'')"
          "dso_ok E name F d''"
        using less.hyps [of ?n d' ?off "r + int (length ?p)" "acc @ ?p"] d'(2) by blast
      have nn: "nat ?n = nat n - length ?p" by simp
      have "take (nat n) (drop (unat off) F) = ?p @ take (nat ?n) (drop (unat ?off) F)"
        using piece_rest [OF False] n(1) unfolding off nn by simp
      with d'' step \<open>0 < ?n\<close> show ?thesis by simp
    qed
  qed
qed

section \<open>Reading from a DSO\<close>

lemma data_file_size_ok:
  assumes E: "os_has_file E name F" and ok: "dso_ok E name F d"
  shows "\<exists>d'. data_file_size E name d = Some (0, d') \<and> dso_ok E name F d' \<and> file_size d' = of_nat (length F) \<and>
    cache d' = cache d \<and> caches d' = caches d"
proof (cases "file_size d = 0")
  case False
  with ok show ?thesis by (simp add: data_file_size_def dso_ok_def)
next
  case True
  obtain st where op: "try_to_open_dso E name d = Some (d\<lparr>fd := os_open E name, status := st\<rparr>)" "st \<noteq> DSO_DATA_STATUS_ERROR"
    using try_to_open_ok [OF E, of d] ok by (auto simp: dso_ok_def)
  have "os_fstat E (os_open E name) = (0, of_nat (length F))" "\<not> os_open E name < 0" using E by (simp_all add: os_has_file_def)
  with True op ok show ?thesis by (auto simp: data_file_size_def dso_ok_def cache_ok_def)
qed

lemma safe_at_cache: "\<lbrakk>cache d' = cache d; caches d' = caches d\<rbrakk> \<Longrightarrow> safe_at F d' off = safe_at F d off"
  by (simp add: safe_at_def cached_def)

lemma unat_length: "length F < 2 ^ 63 \<Longrightarrow> unat (of_nat (length F) :: u64) = length F"
  by (simp add: unsigned_of_nat take_bit_nat_eq_self)

lemma no_wrap:
  assumes "unat off < 2 ^ 63" "0 \<le> n" "n < 2 ^ 63"
  shows "\<not> off + word_of_int n < (off :: u64)"
proof -
  have "unat (off + word_of_int n) = unat off + nat n"
    using assms unat_of_int_small [of n] by (simp add: unat_word_ariths(1))
  then show ?thesis by (simp add: word_less_nat_alt)
qed

lemma read_offset_ok:
  assumes E: "os_has_file E name F" and ok: "dso_ok E name F d" and safe: "safe_at F d (unat off)"
    and n: "0 < n" "n < 2 ^ 63"
  shows "\<exists>d'. dso__data_read_offset E name d off n =
      Some (int (length (take (nat n) (drop (unat off) F))), take (nat n) (drop (unat off) F), d') \<and> dso_ok E name F d'"
proof -
  have F: "length F < 2 ^ 63" using E by (simp add: os_has_file_def)
  obtain d' where d': "data_file_size E name d = Some (0, d')" "dso_ok E name F d'" "file_size d' = of_nat (length F)"
    "cache d' = cache d" "caches d' = caches d"
    using data_file_size_ok [OF E ok] by blast
  have off: "unat off \<le> length F" using safe by (auto simp: safe_at_def)
  then have "\<not> file_size d' < off" using d'(3) unat_length [OF F] by (simp add: word_less_nat_alt)
  moreover have "\<not> off + word_of_int n < off" using off F n by (intro no_wrap) auto
  moreover have "safe_at F d' (unat off)" using safe safe_at_cache [OF d'(4,5)] by simp
  ultimately show ?thesis
    using cached_read_loop_ok [OF E d'(2) _ n, of off 0 "[]"] ok d'(1)
    by (simp add: dso__data_read_offset_def data_read_offset_def cached_read_def dso_ok_def)
qed

lemma read_offset_beyond:
  assumes E: "os_has_file E name F" and ok: "dso_ok E name F d" and off: "length F < unat off"
  shows "\<exists>d'. dso__data_read_offset E name d off n = Some (-1, [], d') \<and> dso_ok E name F d'"
proof -
  obtain d' where d': "data_file_size E name d = Some (0, d')" "dso_ok E name F d'" "file_size d' = of_nat (length F)"
    using data_file_size_ok [OF E ok] by blast
  have "length F < 2 ^ 63" using E by (simp add: os_has_file_def)
  then have "file_size d' < off" using d'(3) off by (simp add: word_less_nat_alt unat_length)
  with d' ok show ?thesis by (auto simp: dso__data_read_offset_def data_read_offset_def dso_ok_def)
qed

section \<open>The end of the file\<close>

text \<open>A read at the end of a file that does not end on a page boundary, when the last page is not in the
  cache: \<^verbatim>\<open>dso_cache__read\<close> links the new entry, copies nothing and frees it.\<close>

lemma read_at_end_frees_linked:
  assumes E: "os_has_file E name F" and ok: "dso_ok E name F d" and o: "unat off = length F" "\<not> 4096 dvd length F"
    and n: "0 < n" "n < 2 ^ 63" and miss: "\<not> cached d (unat off)"
  shows "\<exists>d'. dso__data_read_offset E name d off n = Some (0, [], d') \<and> (\<exists>a\<in>set (inorder (cache d')). caches d' a = None)"
proof -
  have F: "length F < 2 ^ 63" using E by (simp add: os_has_file_def)
  obtain d1 where d1: "data_file_size E name d = Some (0, d1)" "dso_ok E name F d1" "file_size d1 = of_nat (length F)"
    "cache d1 = cache d" "caches d1 = caches d"
    using data_file_size_ok [OF E ok] by blast
  have miss1: "\<not> cached d1 (unat off)" using miss d1(4,5) by (simp add: cached_def)
  have "unat (off AND DSO__DATA_CACHE_MASK) \<noteq> length F" using o(2) page_bounds(3) [of off] by metis
  then have p: "unat (off AND DSO__DATA_CACHE_MASK) < length F" using page_bounds(1) [of off] o(1) by simp
  have none: "piece F (unat off) n = []" using o(1) by (simp add: piece_def)
  obtain a d' where r: "dso_cache__read E name d1 off n = Some (0, [], free_cache a d')" "a \<in> set (inorder (cache d'))"
    using dso_cache__read_fill [OF E d1(2) p _ n miss1] o(1) none by auto
  have "cache_ok F d1" using d1(2) by (simp add: dso_ok_def)
  from dso_cache__find_ok [OF this F, of off] miss1 have "dso_cache__find d1 off = Some None" by (auto simp: cached_def)
  with r(1) have "cached_read_loop E name d1 off n 0 [] = Some (0, [], free_cache a d')"
    by (subst cached_read_loop.simps) (simp add: dso_cache_read_def)
  moreover have "\<not> file_size d1 < off" using d1(3) o(1) by (simp add: word_less_nat_alt unat_length [OF F])
  moreover have "\<not> off + word_of_int n < off" using o F n by (intro no_wrap) auto
  ultimately have "dso__data_read_offset E name d off n = Some (0, [], free_cache a d')"
    using ok d1(1) by (simp add: dso__data_read_offset_def data_read_offset_def cached_read_def dso_ok_def)
  then show ?thesis using r(2) by (auto simp: free_cache_def)
qed

end
