(* ===== verification/Ptrace.thy ===== *)
theory Ptrace
  imports Prelude
begin

text \<open>
  The register snapshot (\<^verbatim>\<open>src/ptrace.h\<close>) and the translation of libunwind's register numbers
  (\<^verbatim>\<open>LIBUNWIND__ARCH_REG_ID\<close> of \<^verbatim>\<open>src/unwind_libunwind.c\<close>). A register is read by its number
  through a table of byte offsets into \<^verbatim>\<open>struct pt_regs\<close>; a read that is not one of the words of the
  structure, and an index the assertion refuses, are \<open>None\<close>.
\<close>

section \<open>struct pt_regs\<close>

record pt_regs =
  r15 :: u64
  r14 :: u64
  r13 :: u64
  r12 :: u64
  bp :: u64
  bx :: u64
  r11 :: u64
  r10 :: u64
  r9 :: u64
  r8 :: u64
  ax :: u64
  cx :: u64
  dx :: u64
  si :: u64
  di :: u64
  orig_ax :: u64
  ip :: u64
  cs :: u64
  flags :: u64
  sp :: u64
  ss :: u64

text \<open>The words of the structure in memory order, eight bytes each, and a load of a word at a byte
  offset from its start.\<close>

definition pt_regs_words :: "pt_regs \<Rightarrow> u64 list" where
  "pt_regs_words r = [r15 r, r14 r, r13 r, r12 r, bp r, bx r, r11 r, r10 r, r9 r, r8 r, ax r, cx r, dx r,
     si r, di r, orig_ax r, ip r, cs r, flags r, sp r, ss r]"

definition pt_regs_load :: "pt_regs \<Rightarrow> u32 \<Rightarrow> u64 option" where
  "pt_regs_load r off =
     (if unat off mod 8 = 0 \<and> unat off div 8 < length (pt_regs_words r) then Some (pt_regs_words r ! (unat off div 8))
      else None)"

section \<open>Register numbers\<close>

datatype x86_regs = X86_AX | X86_BX | X86_CX | X86_DX | X86_SI | X86_DI | X86_BP | X86_SP | X86_IP | X86_FLAGS | X86_CS
  | X86_SS | X86_DS | X86_ES | X86_FS | X86_GS | X86_R8 | X86_R9 | X86_R10 | X86_R11 | X86_R12 | X86_R13 | X86_R14 | X86_R15

primrec x86_num :: "x86_regs \<Rightarrow> int" where
  "x86_num X86_AX = 0"
| "x86_num X86_BX = 1"
| "x86_num X86_CX = 2"
| "x86_num X86_DX = 3"
| "x86_num X86_SI = 4"
| "x86_num X86_DI = 5"
| "x86_num X86_BP = 6"
| "x86_num X86_SP = 7"
| "x86_num X86_IP = 8"
| "x86_num X86_FLAGS = 9"
| "x86_num X86_CS = 10"
| "x86_num X86_SS = 11"
| "x86_num X86_DS = 12"
| "x86_num X86_ES = 13"
| "x86_num X86_FS = 14"
| "x86_num X86_GS = 15"
| "x86_num X86_R8 = 16"
| "x86_num X86_R9 = 17"
| "x86_num X86_R10 = 18"
| "x86_num X86_R11 = 19"
| "x86_num X86_R12 = 20"
| "x86_num X86_R13 = 21"
| "x86_num X86_R14 = 22"
| "x86_num X86_R15 = 23"

definition X86_MAX :: int where "X86_MAX = x86_num X86_R15 + 1"

text \<open>\<^verbatim>\<open>pt_regs_offset\<close>, in the order of the register numbers: the offset of the word, all ones for the
  four segment registers the structure does not hold.\<close>

definition pt_regs_offset :: "u32 list" where
  "pt_regs_offset = [80, 40, 88, 96, 104, 112, 32, 152, 128, 144, 136, 160,
     -1, -1, -1, -1, 72, 64, 56, 48, 24, 16, 8, 0]"

text \<open>The assertion compares the index with an unsigned array size, so a negative index fails it too.\<close>

definition reg_value :: "pt_regs \<Rightarrow> int \<Rightarrow> u64 option" where
  "reg_value regs idx =
     (if \<not> (word_of_int idx :: u64) < of_nat (length pt_regs_offset) then None
      else pt_regs_load regs (pt_regs_offset ! nat idx))"

section \<open>libunwind's register numbers\<close>

text \<open>The enumeration constants of libunwind's header, which the library only compares with.\<close>

record unw_regs =
  UNW_X86_64_RAX :: int
  UNW_X86_64_RDX :: int
  UNW_X86_64_RCX :: int
  UNW_X86_64_RBX :: int
  UNW_X86_64_RSI :: int
  UNW_X86_64_RDI :: int
  UNW_X86_64_RBP :: int
  UNW_X86_64_RSP :: int
  UNW_X86_64_R8 :: int
  UNW_X86_64_R9 :: int
  UNW_X86_64_R10 :: int
  UNW_X86_64_R11 :: int
  UNW_X86_64_R12 :: int
  UNW_X86_64_R13 :: int
  UNW_X86_64_R14 :: int
  UNW_X86_64_R15 :: int
  UNW_X86_64_RIP :: int

definition EINVAL :: int where "EINVAL = 22"

definition LIBUNWIND__ARCH_REG_ID :: "unw_regs \<Rightarrow> int \<Rightarrow> int" where
  "LIBUNWIND__ARCH_REG_ID U regnum =
     (if regnum = UNW_X86_64_RAX U then x86_num X86_AX
      else if regnum = UNW_X86_64_RDX U then x86_num X86_DX
      else if regnum = UNW_X86_64_RCX U then x86_num X86_CX
      else if regnum = UNW_X86_64_RBX U then x86_num X86_BX
      else if regnum = UNW_X86_64_RSI U then x86_num X86_SI
      else if regnum = UNW_X86_64_RDI U then x86_num X86_DI
      else if regnum = UNW_X86_64_RBP U then x86_num X86_BP
      else if regnum = UNW_X86_64_RSP U then x86_num X86_SP
      else if regnum = UNW_X86_64_R8 U then x86_num X86_R8
      else if regnum = UNW_X86_64_R9 U then x86_num X86_R9
      else if regnum = UNW_X86_64_R10 U then x86_num X86_R10
      else if regnum = UNW_X86_64_R11 U then x86_num X86_R11
      else if regnum = UNW_X86_64_R12 U then x86_num X86_R12
      else if regnum = UNW_X86_64_R13 U then x86_num X86_R13
      else if regnum = UNW_X86_64_R14 U then x86_num X86_R14
      else if regnum = UNW_X86_64_R15 U then x86_num X86_R15
      else if regnum = UNW_X86_64_RIP U then x86_num X86_IP
      else - EINVAL)"

section \<open>Lemmas\<close>

text \<open>What each register number should deliver.\<close>

primrec reg_spec :: "x86_regs \<Rightarrow> pt_regs \<Rightarrow> u64 option" where
  "reg_spec X86_AX r = Some (ax r)"
| "reg_spec X86_BX r = Some (bx r)"
| "reg_spec X86_CX r = Some (cx r)"
| "reg_spec X86_DX r = Some (dx r)"
| "reg_spec X86_SI r = Some (si r)"
| "reg_spec X86_DI r = Some (di r)"
| "reg_spec X86_BP r = Some (bp r)"
| "reg_spec X86_SP r = Some (sp r)"
| "reg_spec X86_IP r = Some (ip r)"
| "reg_spec X86_FLAGS r = Some (flags r)"
| "reg_spec X86_CS r = Some (cs r)"
| "reg_spec X86_SS r = Some (ss r)"
| "reg_spec X86_DS r = None"
| "reg_spec X86_ES r = None"
| "reg_spec X86_FS r = None"
| "reg_spec X86_GS r = None"
| "reg_spec X86_R8 r = Some (r8 r)"
| "reg_spec X86_R9 r = Some (r9 r)"
| "reg_spec X86_R10 r = Some (r10 r)"
| "reg_spec X86_R11 r = Some (r11 r)"
| "reg_spec X86_R12 r = Some (r12 r)"
| "reg_spec X86_R13 r = Some (r13 r)"
| "reg_spec X86_R14 r = Some (r14 r)"
| "reg_spec X86_R15 r = Some (r15 r)"

lemma unat_minus_one: "unat (- 1 :: u32) = 4294967295"
  by (simp add: unsigned_minus_1_eq_mask mask_eq_exp_minus_1)

lemma reg_value_spec: "reg_value regs (x86_num k) = reg_spec k regs"
  by (cases k) (simp_all add: reg_value_def pt_regs_offset_def pt_regs_load_def pt_regs_words_def unat_minus_one)

lemma reg_value_out: "\<lbrakk>idx < 0 \<or> X86_MAX \<le> idx; -(2 ^ 31) \<le> idx; idx < 2 ^ 31\<rbrakk> \<Longrightarrow> reg_value regs idx = None"
proof -
  assume a: "idx < 0 \<or> X86_MAX \<le> idx" "-(2 ^ 31) \<le> idx" "idx < 2 ^ 31"
  have "24 \<le> uint (word_of_int idx :: u64)"
  proof (cases "idx < 0")
    case True
    have "idx mod 2 ^ 64 = (idx + 2 ^ 64) mod 2 ^ 64" by simp
    also have "\<dots> = idx + 2 ^ 64" using True a(2) by (intro mod_pos_pos_trivial) simp_all
    finally have "idx mod 2 ^ 64 = idx + 2 ^ 64" .
    with a(2) show ?thesis by (simp add: uint_word_of_int)
  next
    case False
    with a show ?thesis by (simp add: uint_word_of_int X86_MAX_def)
  qed
  then have "\<not> (word_of_int idx :: u64) < 24" by (simp add: word_less_def)
  then show ?thesis by (simp add: reg_value_def pt_regs_offset_def)
qed

definition unw_regs_list :: "unw_regs \<Rightarrow> (int \<times> x86_regs) list" where
  "unw_regs_list U = [(UNW_X86_64_RAX U, X86_AX), (UNW_X86_64_RDX U, X86_DX), (UNW_X86_64_RCX U, X86_CX), (UNW_X86_64_RBX U, X86_BX),
     (UNW_X86_64_RSI U, X86_SI), (UNW_X86_64_RDI U, X86_DI), (UNW_X86_64_RBP U, X86_BP), (UNW_X86_64_RSP U, X86_SP),
     (UNW_X86_64_R8 U, X86_R8), (UNW_X86_64_R9 U, X86_R9), (UNW_X86_64_R10 U, X86_R10), (UNW_X86_64_R11 U, X86_R11),
     (UNW_X86_64_R12 U, X86_R12), (UNW_X86_64_R13 U, X86_R13), (UNW_X86_64_R14 U, X86_R14), (UNW_X86_64_R15 U, X86_R15),
     (UNW_X86_64_RIP U, X86_IP)]"

lemma reg_id_spec:
  "LIBUNWIND__ARCH_REG_ID U n = (case map_of (unw_regs_list U) n of Some k \<Rightarrow> x86_num k | None \<Rightarrow> - EINVAL)"
  by (simp add: LIBUNWIND__ARCH_REG_ID_def unw_regs_list_def)

end
