(* ===== verification/Unwind.thy ===== *)
theory Unwind
  imports Machine_Lookup Dso_Read Ptrace
begin

text \<open>
  The callbacks the library gives to libunwind and the walk over the frames (\<^verbatim>\<open>src/unwind_libunwind.c\<close>,
  \<^verbatim>\<open>src/symbol_elf.c\<close>). libunwind and libelf are parameters: what an ELF file contains, what the search in an
  unwind table answers, and what a step of the cursor does.
\<close>

section \<open>Data\<close>

definition STACK_SIZE :: nat where "STACK_SIZE = 8192"

record unwind_ctx =
  uc_ts :: u64
  uc_tid :: u32
  uc_tgid :: u32
  uc_uregs :: pt_regs
  uc_name :: string
  uc_size :: int
  uc_data :: "u8 list"

record stacktrace =
  st_depth :: int
  st_ips :: "u64 list option"

text \<open>An ELF file as libelf shows it: whether the header can be read, whether the section name table can be read, and for
  each section its name (\<open>None\<close> when \<^verbatim>\<open>elf_strptr\<close> fails) and its offset in the file.\<close>

record elf =
  elf_ehdr :: bool
  elf_names :: bool
  elf_scns :: "(string option \<times> u64) list"

record unw_dyn_info =
  di_start_ip :: u64
  di_end_ip :: u64
  di_segbase :: u64
  di_table_data :: u64
  di_table_len :: u64

section \<open>Encoded values\<close>

text \<open>A little-endian word of the bytes.\<close>

definition le_word :: "u8 list \<Rightarrow> u64" where
  "le_word bs = foldr (\<lambda>b acc. push_bit 8 acc OR ucast b) bs 0"

text \<open>\<^verbatim>\<open>dw_read\<close>: \<open>n\<close> bytes at \<open>pos\<close> of the buffer, refused beyond \<open>lim\<close>.\<close>

definition dw_read :: "u8 list \<Rightarrow> nat \<Rightarrow> nat \<Rightarrow> nat \<Rightarrow> (u64 \<times> nat) option" where
  "dw_read buf lim n pos = (if pos + n > lim then None else Some (le_word (take n (drop pos buf)), pos + n))"

definition sext32 :: "u64 \<Rightarrow> u64" where
  "sext32 v = scast (ucast v :: 32 word)"

text \<open>\<open>Inl\<close> is the error the function returns; \<open>base\<close> is the address of the buffer, which a pc-relative value
  is relative to.\<close>

definition uu_dw_read_encoded_value :: "u64 \<Rightarrow> u8 list \<Rightarrow> nat \<Rightarrow> nat \<Rightarrow> u8 \<Rightarrow> int + (u64 \<times> nat)" where
  "uu_dw_read_encoded_value base buf lim pos encoding =
     (if encoding = 0xff then Inr (0, pos)
      else if encoding = 0 then (case dw_read buf lim 8 pos of Some r \<Rightarrow> Inr r | None \<Rightarrow> Inl (- EINVAL))
      else
        let appl = encoding AND 0x70 in
        if appl \<noteq> 0 \<and> appl \<noteq> 0x10 then Inl (- EINVAL)
        else
          let val = (if appl = 0x10 then base + of_nat pos else 0);
              encoding = (if encoding AND 0x07 = 0 then encoding OR 0x03 else encoding);
              fmt = encoding AND 0x0f;
              add = (\<lambda>n f. case dw_read buf lim n pos of Some (v, pos) \<Rightarrow> Inr (val + f v, pos) | None \<Rightarrow> Inl (- EINVAL))
          in
          if fmt = 0x0b then add 4 sext32
          else if fmt = 0x03 then add 4 (\<lambda>v. v)
          else if fmt = 0x0c then add 8 (\<lambda>v. v)
          else if fmt = 0x04 then add 8 (\<lambda>v. v)
          else Inl (- EINVAL))"

section \<open>Sections\<close>

fun section_loop :: "string \<Rightarrow> nat \<Rightarrow> (string option \<times> u64) list \<Rightarrow> (nat \<times> u64) option" where
  "section_loop name cnt [] = None"
| "section_loop name cnt ((str, off) # scns) =
     (case str of
        Some nm \<Rightarrow> if strcmp name nm = 0 then Some (cnt, off) else section_loop name (cnt + 1) scns
      | None \<Rightarrow> section_loop name (cnt + 1) scns)"

definition elf_section_by_name :: "elf \<Rightarrow> string \<Rightarrow> (nat \<times> u64) option" where
  "elf_section_by_name e name = (if \<not> elf_names e then None else section_loop name 1 (elf_scns e))"

definition elf_section_offset :: "(int \<Rightarrow> elf option) \<Rightarrow> int \<Rightarrow> string \<Rightarrow> u64" where
  "elf_section_offset elf_begin fd0 name = (case elf_begin fd0 of
     None \<Rightarrow> 0
   | Some e \<Rightarrow> if \<not> elf_ehdr e then 0 else (case elf_section_by_name e name of None \<Rightarrow> 0 | Some (_, off) \<Rightarrow> off))"

section \<open>The unwind table of a DSO\<close>

text \<open>The outside world of the callbacks.\<close>

record env =
  env_os :: os
  env_elf :: "int \<Rightarrow> elf option"
  env_hdr_addr :: u64
  env_search :: "u64 \<Rightarrow> unw_dyn_info \<Rightarrow> int"
  env_regs :: unw_regs

definition unwind_spec_ehframe ::
  "env \<Rightarrow> string \<Rightarrow> dso_data \<Rightarrow> u64 \<Rightarrow> ((int + (u64 \<times> u64 \<times> u64)) \<times> dso_data) option" where
  "unwind_spec_ehframe V long_name d off = do {
     (r, hdr, d) \<leftarrow> dso__data_read_offset (env_os V) long_name d off 20;
     if r \<noteq> 20 then Some (Inl (- EINVAL), d)
     else (case uu_dw_read_encoded_value (env_hdr_addr V) hdr 20 4 (hdr ! 1) of
         Inl e \<Rightarrow> Some (Inl (- EINVAL), d)
       | Inr (_, enc) \<Rightarrow>
           (case uu_dw_read_encoded_value (env_hdr_addr V) hdr 20 enc (hdr ! 2) of
              Inl e \<Rightarrow> Some (Inl (- EINVAL), d)
            | Inr (fde_count, enc) \<Rightarrow> Some (Inr (of_nat enc + off, off, fde_count), d))) }"

definition read_unwind_spec_eh_frame ::
  "env \<Rightarrow> string \<Rightarrow> dso_data \<Rightarrow> ((int + (u64 \<times> u64 \<times> u64)) \<times> dso_data) option" where
  "read_unwind_spec_eh_frame V long_name d = do {
     let off = eh_frame_hdr_offset d;
     (fd', off, d) \<leftarrow> (if off = 0 then do {
          (fd', d) \<leftarrow> dso__data_get_fd (env_os V) long_name d;
          if fd' < 0 then Some (fd', off, d)
          else do {
            let off = elf_section_offset (env_elf V) fd' ''.eh_frame_hdr'';
            Some (fd', off, dso__data_put_fd (d\<lparr>eh_frame_hdr_offset := off\<rparr>)) } }
        else Some (0, off, d));
     if fd' < 0 then Some (Inl (- EINVAL), d)
     else if off \<noteq> 0 then unwind_spec_ehframe V long_name d off
     else Some (Inl (- EINVAL), d) }"

section \<open>Callbacks\<close>

definition dso__data_read_addr :: "os \<Rightarrow> string \<Rightarrow> dso_data \<Rightarrow> map_obj \<Rightarrow> u64 \<Rightarrow> int \<Rightarrow> (int \<times> u8 list \<times> dso_data) option" where
  "dso__data_read_addr E long_name d m addr sz = dso__data_read_offset E long_name d (map_ip m addr) sz"

definition find_map :: "'a machine_state_scheme \<Rightarrow> addr \<Rightarrow> u64 \<Rightarrow> (addr \<times> 'a machine_state_scheme) option" where
  "find_map s thread pc = do { t \<leftarrow> thread_st s thread; maps__find s (t_maps t) pc }"

definition find_proc_info :: "env \<Rightarrow> 'a machine_state_scheme \<Rightarrow> addr \<Rightarrow> u64 \<Rightarrow> (int \<times> 'a machine_state_scheme) option" where
  "find_proc_info V s thread pc = do {
     (mp, s) \<leftarrow> find_map s thread pc;
     if mp = 0 then Some (- EINVAL, s)
     else do {
       m \<leftarrow> map_st s mp;
       if m_dso m = 0 then Some (- EINVAL, s)
       else do {
         d \<leftarrow> dso_st s (m_dso m);
         (r, data) \<leftarrow> read_unwind_spec_eh_frame V (d_long_name d) (d_data d);
         s \<leftarrow> upd_dso (m_dso m) (\<lambda>d. d\<lparr>d_data := data\<rparr>) s;
         (case r of
            Inl e \<Rightarrow> Some (- EINVAL, s)
          | Inr (table_data, segbase, fde_count) \<Rightarrow>
              Some (env_search V pc \<lparr>di_start_ip = m_start m, di_end_ip = m_end m,
                di_segbase = m_start m + segbase - m_pgoff m, di_table_data = m_start m + table_data - m_pgoff m,
                di_table_len = fde_count * 8 div 8\<rparr>, s)) } } }"

definition access_dso_mem :: "env \<Rightarrow> 'a machine_state_scheme \<Rightarrow> addr \<Rightarrow> u64 \<Rightarrow> (int \<times> u64 \<times> 'a machine_state_scheme) option" where
  "access_dso_mem V s thread addr = do {
     (mp, s) \<leftarrow> find_map s thread addr;
     if mp = 0 then Some (- 1, 0, s)
     else do {
       m \<leftarrow> map_st s mp;
       if m_dso m = 0 then Some (- 1, 0, s)
       else do {
         d \<leftarrow> dso_st s (m_dso m);
         (r, bytes, data) \<leftarrow> dso__data_read_addr (env_os V) (d_long_name d) (d_data d) m addr 8;
         s \<leftarrow> upd_dso (m_dso m) (\<lambda>d. d\<lparr>d_data := data\<rparr>) s;
         Some (if r = 8 then 0 else 1, le_word bytes, s) } } }"

text \<open>\<^verbatim>\<open>access_mem\<close>: the value is \<open>None\<close> when the call does not store one.\<close>

definition access_mem ::
  "env \<Rightarrow> 'a machine_state_scheme \<Rightarrow> addr \<Rightarrow> unwind_ctx \<Rightarrow> u64 \<Rightarrow> bool \<Rightarrow> (int \<times> u64 option \<times> 'a machine_state_scheme) option" where
  "access_mem V s thread uc addr write =
     (if write \<or> uc_size uc \<le> 0 then Some (0, Some 0, s)
      else do {
        start \<leftarrow> reg_value (uc_uregs uc) (x86_num X86_SP);
        let end' = start + word_of_int (uc_size uc);
        if addr + 8 < addr then Some (- EINVAL, None, s)
        else if addr < start \<or> addr + 8 \<ge> end' then do {
          (ret, v, s) \<leftarrow> access_dso_mem V s thread addr;
          if ret \<noteq> 0 then Some (ret, Some 0, s) else Some (0, Some v, s) }
        else do {
          let off = unat (addr - start);
          if off + 8 \<le> length (uc_data uc) then Some (0, Some (le_word (take 8 (drop off (uc_data uc)))), s) else None } })"

definition access_reg :: "env \<Rightarrow> unwind_ctx \<Rightarrow> int \<Rightarrow> bool \<Rightarrow> (int \<times> u64 option) option" where
  "access_reg V uc regnum write =
     (if write then Some (0, None)
      else do {
        let idx = LIBUNWIND__ARCH_REG_ID (env_regs V) regnum;
        v \<leftarrow> reg_value (uc_uregs uc) idx;
        Some (0, Some v) })"

text \<open>The callbacks without a body; the error numbers are constants of libunwind.\<close>

definition get_dyn_info_list_addr :: "int \<Rightarrow> int" where "get_dyn_info_list_addr UNW_ENOINFO = - UNW_ENOINFO"
definition access_fpreg :: "int \<Rightarrow> int" where "access_fpreg UNW_EINVAL = - UNW_EINVAL"
definition resume :: "int \<Rightarrow> int" where "resume UNW_EINVAL = - UNW_EINVAL"
definition get_proc_name :: "int \<Rightarrow> int" where "get_proc_name UNW_EINVAL = - UNW_EINVAL"

section \<open>Walking the frames\<close>

text \<open>The cursor of libunwind: its steps run the callbacks, so they also act on the state.\<close>

record ('c, 's) cursor_ops =
  unw_init_remote :: "'s \<Rightarrow> int \<times> 'c \<times> 's"
  unw_step :: "'c \<Rightarrow> 's \<Rightarrow> int \<times> 'c \<times> 's"
  unw_get_ip :: "'c \<Rightarrow> u64"
  unw_is_signal_frame :: "'c \<Rightarrow> int"

text \<open>The loop of \<^verbatim>\<open>get_entries\<close>: a store beyond the array is \<open>None\<close>.\<close>

function frames_loop ::
  "('c, 's) cursor_ops \<Rightarrow> int \<Rightarrow> 'c \<Rightarrow> 's \<Rightarrow> u64 list \<Rightarrow> int \<Rightarrow> (int \<times> u64 list \<times> 's) option" where
  "frames_loop U depth c s ips i =
     (case unw_step U c s of (r, c, s) \<Rightarrow>
        if r > 0 \<and> i < depth then
          (if nat i < length ips then
             frames_loop U depth c s (ips[nat i := (if unw_is_signal_frame U c \<le> 0 then unw_get_ip U c - 1 else unw_get_ip U c)]) (i + 1)
           else None)
        else Some (i, ips, s))"
  by pat_completeness auto
termination by (relation "measure (\<lambda>(U, depth, c, s, ips, i). nat (depth - i))") auto

definition get_entries ::
  "('c, 'a machine_state_scheme) cursor_ops \<Rightarrow> 'a machine_state_scheme \<Rightarrow> addr \<Rightarrow> unwind_ctx \<Rightarrow> stacktrace option \<Rightarrow>
   (int \<times> stacktrace option \<times> 'a machine_state_scheme) option" where
  "get_entries U s thread uc st = (case st of
     None \<Rightarrow> Some (EINVAL, st, s)
   | Some tr \<Rightarrow>
       (case st_ips tr of
          None \<Rightarrow> Some (EINVAL, st, s)
        | Some ips \<Rightarrow>
            if st_depth tr < 1 then Some (EINVAL, st, s)
            else do {
              val \<leftarrow> reg_value (uc_uregs uc) (x86_num X86_IP);
              if ips = [] then None
              else do {
                let ips = ips[0 := val];
                t \<leftarrow> thread_st s thread;
                if t_addr_space t = 0 then Some (- 1, Some (tr\<lparr>st_ips := Some ips\<rparr>), s)
                else (case unw_init_remote U s of (ret, c, s) \<Rightarrow>
                  if ret \<noteq> 0 then Some (ret, Some (tr\<lparr>st_ips := Some ips, st_depth := 1\<rparr>), s)
                  else do {
                    (i, ips, s) \<leftarrow> frames_loop U (st_depth tr) c s ips 1;
                    Some (ret, Some (tr\<lparr>st_ips := Some ips, st_depth := i\<rparr>), s) }) } }))"

definition u_get_entries ::
  "('c, 'a machine_state_scheme) cursor_ops \<Rightarrow> 'a machine_state_scheme \<Rightarrow> addr \<Rightarrow> unwind_ctx \<Rightarrow> stacktrace option \<Rightarrow>
   (int \<times> stacktrace option \<times> 'a machine_state_scheme) option" where
  "u_get_entries U s thread uc st = do {
     t \<leftarrow> thread_st s thread;
     _ \<leftarrow> maps_st s (t_maps t);
     get_entries U s thread uc st }"

definition unwind__get_entries ::
  "('c, 'a machine_state_scheme) cursor_ops \<Rightarrow> 'a machine_state_scheme \<Rightarrow> addr \<Rightarrow> unwind_ctx \<Rightarrow> stacktrace option \<Rightarrow>
   (int \<times> stacktrace option \<times> 'a machine_state_scheme) option" where
  "unwind__get_entries U s thread uc st = do {
     t \<leftarrow> thread_st s thread;
     if t_ulops t then u_get_entries U s thread uc st else Some (0, st, s) }"

end
