(* ===== verification/Parallel_Example.thy ===== *)
theory Parallel_Example
  imports Unwind
begin

text \<open>
  The example that resolves call chains in parallel (\<^verbatim>\<open>examples/syscall_parallel.cc\<close>): one thread polls the perf buffer
  and pushes the snapshots of the traced process into a queue, several threads pop and resolve them, and a signal asks all of them to
  stop. The queue (\<^verbatim>\<open>examples/queue.h\<close>) is a \<^verbatim>\<open>std::queue\<close> under a mutex with a condition variable; the request to
  stop (\<^verbatim>\<open>examples/stoppable.h\<close>) is a future that becomes ready. A step is one access to shared state by one thread; the steps of
  the threads interleave in any order. A condition variable may wake a waiting thread for no reason, as the C++ standard allows.
\<close>

section \<open>Threads\<close>

datatype poller = Poll_idle | Polling | Push_lock unwind_ctx | Push_put unwind_ctx | Push_unlock | Push_notify | Poll_done

datatype resolver = Loop_head | Pop_lock | Pop_test | Pop_wait | Pop_woken | Resolving unwind_ctx | Resolver_done

datatype holder = Held_by_poller | Held_by nat

text \<open>\<open>pl_events\<close> are the events still to come, \<open>pl_handled\<close> those delivered to the handler and \<open>pl_taken\<close> the
  items popped, both in order; \<open>pl_stopped\<close> counts the calls of \<^verbatim>\<open>stop\<close> that the signal handler has made.\<close>

record pipeline =
  pl_events :: "unwind_ctx list"
  pl_handled :: "unwind_ctx list"
  pl_taken :: "unwind_ctx list"
  pl_queue :: "unwind_ctx list"
  pl_mutex :: "holder option"
  pl_stopped :: nat
  pl_poller :: poller
  pl_resolvers :: "resolver list"

definition set_resolver :: "nat \<Rightarrow> resolver \<Rightarrow> pipeline \<Rightarrow> pipeline" where
  "set_resolver i r s = s\<lparr>pl_resolvers := (pl_resolvers s)[i := r]\<rparr>"

section \<open>stoppable.h\<close>

text \<open>The handler stops the poller first and then the resolvers one by one; number 0 is the poller and \<open>i + 1\<close> the resolver \<open>i\<close>.
  The handler runs once: a second \<^verbatim>\<open>set_value\<close> on the same promise throws.\<close>

definition stopRequested :: "nat \<Rightarrow> pipeline \<Rightarrow> bool" where
  "stopRequested k s \<longleftrightarrow> k < pl_stopped s"

definition stop_step :: "pipeline \<Rightarrow> pipeline option" where
  "stop_step s = (if pl_stopped s \<le> length (pl_resolvers s) then Some (s\<lparr>pl_stopped := Suc (pl_stopped s)\<rparr>) else None)"

section \<open>queue.h\<close>

text \<open>\<^verbatim>\<open>push\<close>: lock, append, unlock, notify one.\<close>

definition push_step :: "pipeline \<Rightarrow> pipeline option" where
  "push_step s = (case pl_poller s of
     Push_lock uc \<Rightarrow> if pl_mutex s = None then Some (s\<lparr>pl_mutex := Some Held_by_poller, pl_poller := Push_put uc\<rparr>) else None
   | Push_put uc \<Rightarrow> Some (s\<lparr>pl_queue := pl_queue s @ [uc], pl_poller := Push_unlock\<rparr>)
   | Push_unlock \<Rightarrow> Some (s\<lparr>pl_mutex := None, pl_poller := Push_notify\<rparr>)
   | _ \<Rightarrow> None)"

text \<open>\<^verbatim>\<open>notify_one\<close> wakes one of the waiting threads if there is any.\<close>

definition notify_step :: "nat option \<Rightarrow> pipeline \<Rightarrow> pipeline option" where
  "notify_step who s =
     (if pl_poller s \<noteq> Push_notify then None
      else (case who of
          Some i \<Rightarrow> if i < length (pl_resolvers s) \<and> pl_resolvers s ! i = Pop_wait
            then Some ((set_resolver i Pop_woken s)\<lparr>pl_poller := Polling\<rparr>) else None
        | None \<Rightarrow> if Pop_wait \<in> set (pl_resolvers s) then None else Some (s\<lparr>pl_poller := Polling\<rparr>)))"

text \<open>\<^verbatim>\<open>pop\<close>: lock; while the queue is empty, wait (which releases the mutex, and takes it again after the wake-up); then
  remove the front. The mutex is released on return.\<close>

definition pop_step :: "nat \<Rightarrow> pipeline \<Rightarrow> pipeline option" where
  "pop_step i s =
     (if \<not> i < length (pl_resolvers s) then None
      else (case pl_resolvers s ! i of
          Pop_lock \<Rightarrow> if pl_mutex s = None then Some ((set_resolver i Pop_test s)\<lparr>pl_mutex := Some (Held_by i)\<rparr>) else None
        | Pop_woken \<Rightarrow> if pl_mutex s = None then Some ((set_resolver i Pop_test s)\<lparr>pl_mutex := Some (Held_by i)\<rparr>) else None
        | Pop_test \<Rightarrow> (case pl_queue s of
              [] \<Rightarrow> Some ((set_resolver i Pop_wait s)\<lparr>pl_mutex := None\<rparr>)
            | uc # q \<Rightarrow> Some ((set_resolver i (Resolving uc) s)\<lparr>pl_queue := q, pl_taken := pl_taken s @ [uc], pl_mutex := None\<rparr>))
        | _ \<Rightarrow> None))"

definition spurious_step :: "nat \<Rightarrow> pipeline \<Rightarrow> pipeline option" where
  "spurious_step i s =
     (if i < length (pl_resolvers s) \<and> pl_resolvers s ! i = Pop_wait then Some (set_resolver i Pop_woken s) else None)"

section \<open>syscall_parallel.cc\<close>

text \<open>The handler passes on the snapshots of the traced process.\<close>

definition traced :: "int \<Rightarrow> unwind_ctx \<Rightarrow> bool" where
  "traced tgid uc \<longleftrightarrow> uc_tgid uc = word_of_int tgid"

definition unwind_ctx_handler :: "int \<Rightarrow> unwind_ctx \<Rightarrow> poller" where
  "unwind_ctx_handler tgid uc = (if traced tgid uc then Push_lock uc else Polling)"

text \<open>\<^verbatim>\<open>EventPollTask::run\<close>: the loop test, an event that \<^verbatim>\<open>poll_perf_buffer\<close> delivers, and its return.\<close>

definition poll_loop_step :: "pipeline \<Rightarrow> pipeline option" where
  "poll_loop_step s =
     (if pl_poller s = Poll_idle then Some (s\<lparr>pl_poller := (if stopRequested 0 s then Poll_done else Polling)\<rparr>) else None)"

definition poll_deliver_step :: "int \<Rightarrow> pipeline \<Rightarrow> pipeline option" where
  "poll_deliver_step tgid s = (case pl_events s of
     uc # es \<Rightarrow> if pl_poller s = Polling
       then Some (s\<lparr>pl_events := es, pl_handled := pl_handled s @ [uc], pl_poller := unwind_ctx_handler tgid uc\<rparr>) else None
   | [] \<Rightarrow> None)"

definition poll_return_step :: "pipeline \<Rightarrow> pipeline option" where
  "poll_return_step s = (if pl_poller s = Polling then Some (s\<lparr>pl_poller := Poll_idle\<rparr>) else None)"

text \<open>\<^verbatim>\<open>ResolveCallchainTask::run\<close>: the loop test, and the return from resolving (whose failure ends the whole program).\<close>

definition resolver_step :: "nat \<Rightarrow> pipeline \<Rightarrow> pipeline option" where
  "resolver_step i s =
     (if \<not> i < length (pl_resolvers s) then None
      else (case pl_resolvers s ! i of
          Loop_head \<Rightarrow> Some (set_resolver i (if stopRequested (Suc i) s then Resolver_done else Pop_lock) s)
        | Resolving uc \<Rightarrow> Some (set_resolver i Loop_head s)
        | _ \<Rightarrow> None))"

text \<open>\<^verbatim>\<open>main\<close> starts four resolvers; \<^verbatim>\<open>join\<close> returns when all threads are done.\<close>

definition pipeline_start :: "nat \<Rightarrow> unwind_ctx list \<Rightarrow> pipeline" where
  "pipeline_start n evs = \<lparr>pl_events = evs, pl_handled = [], pl_taken = [], pl_queue = [], pl_mutex = None, pl_stopped = 0,
     pl_poller = Poll_idle, pl_resolvers = replicate n Loop_head\<rparr>"

definition joined :: "pipeline \<Rightarrow> bool" where
  "joined s \<longleftrightarrow> pl_poller s = Poll_done \<and> (\<forall>r\<in>set (pl_resolvers s). r = Resolver_done)"

inductive pl_step :: "int \<Rightarrow> pipeline \<Rightarrow> pipeline \<Rightarrow> bool" for tgid where
  signal: "stop_step s = Some s' \<Longrightarrow> pl_step tgid s s'"
| poll_loop: "poll_loop_step s = Some s' \<Longrightarrow> pl_step tgid s s'"
| poll_deliver: "poll_deliver_step tgid s = Some s' \<Longrightarrow> pl_step tgid s s'"
| poll_return: "poll_return_step s = Some s' \<Longrightarrow> pl_step tgid s s'"
| push: "push_step s = Some s' \<Longrightarrow> pl_step tgid s s'"
| notify: "notify_step who s = Some s' \<Longrightarrow> pl_step tgid s s'"
| spurious: "spurious_step i s = Some s' \<Longrightarrow> pl_step tgid s s'"
| pop: "pop_step i s = Some s' \<Longrightarrow> pl_step tgid s s'"
| resolver: "resolver_step i s = Some s' \<Longrightarrow> pl_step tgid s s'"

inductive pl_steps :: "int \<Rightarrow> pipeline \<Rightarrow> pipeline \<Rightarrow> bool" for tgid where
  none: "pl_steps tgid s s"
| more: "\<lbrakk>pl_steps tgid s s'; pl_step tgid s' s''\<rbrakk> \<Longrightarrow> pl_steps tgid s s''"

text \<open>A run given by the list of its steps.\<close>

primrec pl_run :: "(pipeline \<Rightarrow> pipeline option) list \<Rightarrow> pipeline \<Rightarrow> pipeline option" where
  "pl_run [] s = Some s"
| "pl_run (f # fs) s = do { s \<leftarrow> f s; pl_run fs s }"

lemma pl_run_steps_from:
  assumes "pl_run fs s = Some s'" "\<forall>f\<in>set fs. \<forall>a b. f a = Some b \<longrightarrow> pl_step tgid a b" "pl_steps tgid s0 s"
  shows "pl_steps tgid s0 s'"
  using assms
proof (induction fs arbitrary: s)
  case (Cons f fs)
  then obtain s1 where s1: "f s = Some s1" "pl_run fs s1 = Some s'" by (auto simp: bind_eq_Some)
  have "pl_step tgid s s1" using s1(1) Cons.prems(2) by simp
  with Cons.prems(3) have "pl_steps tgid s0 s1" by (rule pl_steps.more)
  then show ?case using Cons.IH [OF s1(2)] Cons.prems(2) by simp
qed simp

lemmas pl_run_steps = pl_run_steps_from [OF _ _ pl_steps.none]

section \<open>Nothing is lost\<close>

fun pending :: "poller \<Rightarrow> unwind_ctx list" where
  "pending (Push_lock uc) = [uc]"
| "pending (Push_put uc) = [uc]"
| "pending _ = []"

text \<open>The items in the order of the events, the ones taken first.\<close>

definition conserved :: "int \<Rightarrow> unwind_ctx list \<Rightarrow> pipeline \<Rightarrow> bool" where
  "conserved tgid evs s \<longleftrightarrow> pl_taken s @ pl_queue s @ pending (pl_poller s) = filter (traced tgid) (pl_handled s) \<and>
     pl_handled s @ pl_events s = evs"

lemma conserved_step:
  assumes "conserved tgid evs s" "pl_step tgid s s'"
  shows "conserved tgid evs s'"
  using assms(2)
proof cases
  case poll_deliver
  then show ?thesis using assms(1)
    by (auto simp: conserved_def poll_deliver_step_def unwind_ctx_handler_def split: list.splits if_splits)
qed (use assms(1) in \<open>auto simp: conserved_def stop_step_def poll_loop_step_def poll_return_step_def push_step_def notify_step_def spurious_step_def
    pop_step_def resolver_step_def set_resolver_def split: poller.splits resolver.splits list.splits option.splits if_splits\<close>)

section \<open>Mutual exclusion\<close>

fun in_push :: "poller \<Rightarrow> bool" where
  "in_push (Push_put uc) = True"
| "in_push Push_unlock = True"
| "in_push _ = False"

definition exclusive :: "pipeline \<Rightarrow> bool" where
  "exclusive s \<longleftrightarrow> (\<forall>i < length (pl_resolvers s). pl_resolvers s ! i = Pop_test \<longleftrightarrow> pl_mutex s = Some (Held_by i)) \<and>
     (in_push (pl_poller s) \<longleftrightarrow> pl_mutex s = Some Held_by_poller) \<and> (\<forall>i. pl_mutex s = Some (Held_by i) \<longrightarrow> i < length (pl_resolvers s))"

lemma exclusive_poller:
  assumes "exclusive s" "pl_resolvers s' = pl_resolvers s" "pl_mutex s' = pl_mutex s" "in_push (pl_poller s') = in_push (pl_poller s)"
  shows "exclusive s'"
  using assms by (simp add: exclusive_def)

lemma exclusive_resolver:
  assumes "exclusive s" "i < length (pl_resolvers s)" "pl_resolvers s' = (pl_resolvers s)[i := r]" "pl_mutex s' = pl_mutex s"
    "in_push (pl_poller s') = in_push (pl_poller s)" "pl_resolvers s ! i \<noteq> Pop_test" "r \<noteq> Pop_test"
  shows "exclusive s'"
  using assms by (auto simp: exclusive_def nth_list_update)

lemma notify_step_cases:
  assumes "notify_step who s = Some s'"
  obtains "pl_poller s = Push_notify" "Pop_wait \<notin> set (pl_resolvers s)" "s' = s\<lparr>pl_poller := Polling\<rparr>"
  | i where "pl_poller s = Push_notify" "i < length (pl_resolvers s)" "pl_resolvers s ! i = Pop_wait"
      "s' = (set_resolver i Pop_woken s)\<lparr>pl_poller := Polling\<rparr>"
  using assms by (auto simp: notify_step_def split: option.splits if_splits)

lemma pop_step_cases:
  assumes "pop_step i s = Some s'"
  obtains "i < length (pl_resolvers s)" "pl_resolvers s ! i = Pop_lock \<or> pl_resolvers s ! i = Pop_woken" "pl_mutex s = None"
      "s' = (set_resolver i Pop_test s)\<lparr>pl_mutex := Some (Held_by i)\<rparr>"
  | "i < length (pl_resolvers s)" "pl_resolvers s ! i = Pop_test" "pl_queue s = []" "s' = (set_resolver i Pop_wait s)\<lparr>pl_mutex := None\<rparr>"
  | uc q where "i < length (pl_resolvers s)" "pl_resolvers s ! i = Pop_test" "pl_queue s = uc # q"
      "s' = (set_resolver i (Resolving uc) s)\<lparr>pl_queue := q, pl_taken := pl_taken s @ [uc], pl_mutex := None\<rparr>"
  using assms by (auto simp: pop_step_def split: resolver.splits list.splits if_splits)

lemma resolver_step_cases:
  assumes "resolver_step i s = Some s'"
  obtains r where "i < length (pl_resolvers s)" "pl_resolvers s ! i = Loop_head \<or> (\<exists>uc. pl_resolvers s ! i = Resolving uc)"
    "r \<in> {Resolver_done, Pop_lock, Loop_head}" "s' = set_resolver i r s"
  using assms by (auto simp: resolver_step_def split: resolver.splits if_splits)

lemma push_step_cases:
  assumes "push_step s = Some s'"
  obtains uc where "pl_poller s = Push_lock uc" "pl_mutex s = None" "s' = s\<lparr>pl_mutex := Some Held_by_poller, pl_poller := Push_put uc\<rparr>"
  | uc where "pl_poller s = Push_put uc" "s' = s\<lparr>pl_queue := pl_queue s @ [uc], pl_poller := Push_unlock\<rparr>"
  | "pl_poller s = Push_unlock" "s' = s\<lparr>pl_mutex := None, pl_poller := Push_notify\<rparr>"
  using assms by (auto simp: push_step_def split: poller.splits if_splits)

text \<open>The steps of the poller outside \<^verbatim>\<open>push\<close>, and the signal.\<close>

lemma poll_step_cases:
  assumes "stop_step s = Some s' \<or> poll_loop_step s = Some s' \<or> poll_deliver_step tgid s = Some s' \<or> poll_return_step s = Some s'"
  shows "pl_resolvers s' = pl_resolvers s \<and> pl_queue s' = pl_queue s \<and> pl_mutex s' = pl_mutex s \<and> pl_taken s' = pl_taken s \<and>
    (pl_poller s' = pl_poller s \<or> pl_poller s \<in> {Poll_idle, Polling} \<and> (pl_poller s' \<in> {Poll_idle, Polling, Poll_done} \<or> (\<exists>uc. pl_poller s' = Push_lock uc)))"
  using assms by (auto simp: stop_step_def poll_loop_step_def poll_deliver_step_def poll_return_step_def unwind_ctx_handler_def split: list.splits if_splits)

lemma exclusive_step:
  assumes ex: "exclusive s" and st: "pl_step tgid s s'"
  shows "exclusive s'"
  using st
proof cases
  case (notify who)
  from notify show ?thesis
  proof (cases rule: notify_step_cases)
    case 1
    then show ?thesis by (intro exclusive_poller [OF ex]) simp_all
  next
    case (2 i)
    then show ?thesis by (intro exclusive_resolver [OF ex, of i _ Pop_woken]) (simp_all add: set_resolver_def)
  qed
next
  case (spurious i)
  then show ?thesis by (intro exclusive_resolver [OF ex, of i _ Pop_woken]) (auto simp: spurious_step_def set_resolver_def split: if_splits)
next
  case (resolver i)
  from resolver obtain r where r: "i < length (pl_resolvers s)" "pl_resolvers s ! i = Loop_head \<or> (\<exists>uc. pl_resolvers s ! i = Resolving uc)"
    "r \<in> {Resolver_done, Pop_lock, Loop_head}" "s' = set_resolver i r s" by (rule resolver_step_cases)
  then show ?thesis by (intro exclusive_resolver [OF ex, of i _ r]) (auto simp: set_resolver_def)
next
  case (pop i)
  from pop show ?thesis
  proof (cases rule: pop_step_cases)
    case 1
    then show ?thesis using ex by (auto simp: exclusive_def set_resolver_def nth_list_update)
  next
    case 2
    then show ?thesis using ex by (auto simp: exclusive_def set_resolver_def nth_list_update)
  next
    case (3 uc q)
    then show ?thesis using ex by (auto simp: exclusive_def set_resolver_def nth_list_update)
  qed
next
  case push
  then show ?thesis by (cases rule: push_step_cases) (use ex in \<open>auto simp: exclusive_def\<close>)
qed (rule exclusive_poller [OF ex]; use poll_step_cases [of s s' tgid] in auto)+

section \<open>No wake-up is lost\<close>

fun coming :: "resolver \<Rightarrow> bool" where
  "coming Pop_test = True"
| "coming Pop_woken = True"
| "coming _ = False"

definition notifying :: "poller \<Rightarrow> nat" where
  "notifying p = (if p = Push_unlock \<or> p = Push_notify then 1 else 0)"

text \<open>While a resolver waits, at least as many are on their way to the queue as it has items, counting the one that the poller is
  about to wake.\<close>

definition awake :: "pipeline \<Rightarrow> bool" where
  "awake s \<longleftrightarrow> (Pop_wait \<in> set (pl_resolvers s) \<longrightarrow>
     length (pl_queue s) \<le> length (filter coming (pl_resolvers s)) + notifying (pl_poller s))"

lemma awake_step:
  assumes a: "awake s" and st: "pl_step tgid s s'"
  shows "awake s'"
  using st
proof cases
  case (notify who)
  from notify show ?thesis
  proof (cases rule: notify_step_cases)
    case 1
    then show ?thesis by (simp add: awake_def)
  next
    case (2 i)
    then have "Pop_wait \<in> set (pl_resolvers s)" using nth_mem by metis
    then show ?thesis using a 2 filter_update [OF 2(2), of coming Pop_woken] by (simp add: awake_def notifying_def set_resolver_def)
  qed
next
  case (spurious i)
  then have i: "i < length (pl_resolvers s)" "pl_resolvers s ! i = Pop_wait" "s' = set_resolver i Pop_woken s"
    by (auto simp: spurious_step_def split: if_splits)
  then have "Pop_wait \<in> set (pl_resolvers s)" using nth_mem by metis
  then show ?thesis using a i filter_update [OF i(1), of coming Pop_woken] by (simp add: awake_def set_resolver_def)
next
  case (resolver i)
  from resolver obtain r where r0: "i < length (pl_resolvers s)" "pl_resolvers s ! i = Loop_head \<or> (\<exists>uc. pl_resolvers s ! i = Resolving uc)"
    "r \<in> {Resolver_done, Pop_lock, Loop_head}" "s' = set_resolver i r s" by (rule resolver_step_cases)
  then have r: "i < length (pl_resolvers s)" "\<not> coming (pl_resolvers s ! i)" "\<not> coming r" "r \<noteq> Pop_wait" "s' = set_resolver i r s" by auto
  have "Pop_wait \<in> set (pl_resolvers s)" if "Pop_wait \<in> set ((pl_resolvers s)[i := r])"
    using that r(4) set_update_subset_insert [of "pl_resolvers s" i r] by auto
  then show ?thesis using a r filter_update [OF r(1), of coming r] by (auto simp: awake_def set_resolver_def)
next
  case (pop i)
  from pop show ?thesis
  proof (cases rule: pop_step_cases)
    case 1
    have "Pop_wait \<in> set (pl_resolvers s)" if "Pop_wait \<in> set ((pl_resolvers s)[i := Pop_test])"
      using that set_update_subset_insert [of "pl_resolvers s" i Pop_test] by auto
    then show ?thesis using a 1 filter_update [OF 1(1), of coming Pop_test] by (auto simp: awake_def set_resolver_def split: if_splits)
  next
    case 2
    then show ?thesis by (simp add: awake_def set_resolver_def)
  next
    case (3 uc q)
    have "Pop_wait \<in> set (pl_resolvers s)" if "Pop_wait \<in> set ((pl_resolvers s)[i := Resolving uc])"
      using that set_update_subset_insert [of "pl_resolvers s" i "Resolving uc"] by auto
    then show ?thesis using a 3 filter_update [OF 3(1), of coming "Resolving uc"] by (auto simp: awake_def set_resolver_def)
  qed
next
  case push
  then show ?thesis by (cases rule: push_step_cases) (use a in \<open>auto simp: awake_def notifying_def\<close>)
qed (use a poll_step_cases [of s s' tgid] in \<open>auto simp: awake_def notifying_def\<close>)

section \<open>Reachable states\<close>

lemma pipeline_invariant:
  assumes "pl_steps tgid (pipeline_start n evs) s"
  shows "conserved tgid evs s \<and> exclusive s \<and> awake s"
  using assms
proof (induction "pipeline_start n evs" s)
  case none
  then show ?case by (auto simp: pipeline_start_def conserved_def exclusive_def awake_def)
next
  case (more s' s'')
  then show ?case using conserved_step exclusive_step awake_step by blast
qed

section \<open>Stopping\<close>

text \<open>The resolver is inside \<^verbatim>\<open>pop\<close>.\<close>

fun in_pop :: "resolver \<Rightarrow> bool" where
  "in_pop Pop_lock = True"
| "in_pop Pop_test = True"
| "in_pop Pop_wait = True"
| "in_pop Pop_woken = True"
| "in_pop _ = False"

text \<open>The poller has seen the request and left; the queue is empty and a resolver is inside \<^verbatim>\<open>pop\<close>.\<close>

definition stranded :: "nat \<Rightarrow> pipeline \<Rightarrow> bool" where
  "stranded i s \<longleftrightarrow> pl_poller s = Poll_done \<and> pl_queue s = [] \<and> i < length (pl_resolvers s) \<and> in_pop (pl_resolvers s ! i)"

lemma stranded_step:
  assumes x: "stranded i s" and st: "pl_step tgid s s'"
  shows "stranded i s'"
  using st
proof cases
  case (notify who)
  from notify show ?thesis by (rule notify_step_cases) (use x in \<open>simp_all add: stranded_def\<close>)
next
  case (spurious j)
  then show ?thesis using x by (auto simp: stranded_def spurious_step_def set_resolver_def nth_list_update split: if_splits)
next
  case (resolver j)
  from resolver show ?thesis by (rule resolver_step_cases) (use x in \<open>auto simp: stranded_def set_resolver_def nth_list_update\<close>)
next
  case (pop j)
  from pop show ?thesis by (rule pop_step_cases) (use x in \<open>auto simp: stranded_def set_resolver_def nth_list_update\<close>)
next
  case push
  then show ?thesis by (rule push_step_cases) (use x in \<open>simp_all add: stranded_def\<close>)
qed (use x poll_step_cases [of s s' tgid] in \<open>auto simp: stranded_def\<close>)

lemma stranded_steps: "pl_steps tgid s s' \<Longrightarrow> stranded i s \<Longrightarrow> stranded i s'"
  by (induction rule: pl_steps.induct) (auto intro: stranded_step)

lemma stranded_not_joined:
  assumes "stranded i s" shows "\<not> joined s"
proof
  assume "joined s"
  then have "pl_resolvers s ! i = Resolver_done" using assms nth_mem [of i "pl_resolvers s"] by (simp add: joined_def stranded_def)
  then show False using assms by (simp add: stranded_def)
qed

text \<open>The signal handler runs to its end.\<close>

lemma stop_all_steps:
  "pl_stopped s + k \<le> Suc (length (pl_resolvers s)) \<Longrightarrow> pl_steps tgid s (s\<lparr>pl_stopped := pl_stopped s + k\<rparr>)"
proof (induction k)
  case 0
  then show ?case by (simp add: pl_steps.none)
next
  case (Suc k)
  let ?s = "s\<lparr>pl_stopped := pl_stopped s + k\<rparr>"
  have "pl_step tgid ?s (?s\<lparr>pl_stopped := Suc (pl_stopped ?s)\<rparr>)" by (rule pl_step.signal) (use Suc.prems in \<open>simp add: stop_step_def\<close>)
  then show ?case using pl_steps.more [OF Suc.IH] Suc.prems by simp
qed

lemma steps_trans: "pl_steps tgid s' s'' \<Longrightarrow> pl_steps tgid s s' \<Longrightarrow> pl_steps tgid s s''"
  by (induction rule: pl_steps.induct) (auto intro: pl_steps.more)

text \<open>A run: a resolver has tested that it is not to stop, then the signal comes.\<close>

lemma stop_can_strand:
  "\<exists>s. pl_steps tgid (pipeline_start (Suc n) []) s \<and> (\<forall>k \<le> Suc n. stopRequested k s) \<and> stranded 0 s"
proof -
  let ?s = "pipeline_start (Suc n) []"
  let ?s1 = "set_resolver 0 Pop_lock ?s"
  let ?s2 = "?s1\<lparr>pl_stopped := pl_stopped ?s1 + Suc (Suc n)\<rparr>"
  let ?s3 = "?s2\<lparr>pl_poller := Poll_done\<rparr>"
  have a: "pl_step tgid ?s ?s1" by (rule pl_step.resolver [of 0]) (simp add: resolver_step_def pipeline_start_def stopRequested_def)
  have b: "pl_steps tgid ?s1 ?s2" by (rule stop_all_steps) (simp add: pipeline_start_def set_resolver_def)
  have c: "pl_step tgid ?s2 ?s3" by (rule pl_step.poll_loop) (simp add: poll_loop_step_def pipeline_start_def set_resolver_def stopRequested_def)
  have "pl_steps tgid ?s ?s3" by (rule steps_trans [OF pl_steps.more [OF b c] pl_steps.more [OF pl_steps.none a]])
  moreover have "\<forall>k \<le> Suc n. stopRequested k ?s3" "stranded 0 ?s3"
    by (simp_all add: stranded_def set_resolver_def pipeline_start_def stopRequested_def)
  ultimately show ?thesis by blast
qed

end
