(* ===== verification/Thread_Life.thy ===== *)
theory Thread_Life
  imports Machine_Lookup
begin

text \<open>
  The end of a thread's life: removal from the table, the list of dead threads, the last reference. The union of the
  tree node and the list node is what makes the assertion of \<^verbatim>\<open>thread__delete\<close> hold: unlinking the list node
  leaves a first word that points to the node itself, which is also the mark of an empty tree node.
\<close>

section \<open>Dropping references\<close>

lemma thread__put_more:
  assumes "thread_st s th = Some t" "t_refcnt t \<noteq> 1" "th \<noteq> 0"
  shows "thread__put s th = Some (s\<lparr>thread_st := (thread_st s)(th \<mapsto> t\<lparr>t_refcnt := t_refcnt t - 1\<rparr>)\<rparr>)"
  using assms by (simp add: thread__put_def refcount_dec_and_test_def upd_thread_def)

text \<open>The state in which the last reference to a dead thread is dropped, up to the release of its maps.\<close>

definition buried :: "'a machine_state_scheme \<Rightarrow> addr \<Rightarrow> thread_obj \<Rightarrow> nat \<Rightarrow> 'a machine_state_scheme" where
  "buried s th t b = s\<lparr>tab := (tab s)(b := (tab s b)\<lparr>th_dead := remove1 th (th_dead (tab s b))\<rparr>),
     thread_st := (thread_st s)(th \<mapsto> t\<lparr>t_refcnt := 0, t_node := Self\<rparr>)\<rparr>"

definition destroyed :: "thread_obj \<Rightarrow> unw_call list" where
  "destroyed t = (if t_ulops t then [Destroy_addr_space (t_addr_space t)] else [])"

lemma thread__put_last:
  assumes t: "thread_st s th = Some t" "t_refcnt t = 1" "t_node t = Dead b" "th \<noteq> 0" "t_maps t \<noteq> 0"
    and m: "maps__put (buried s th t b) (t_maps t) = Some s2" "thread_st s2 = thread_st (buried s th t b)" "unw_log s2 = unw_log s"
  shows "thread__put s th = Some (s2\<lparr>thread_st := (thread_st s)(th := None), unw_log := unw_log s @ destroyed t\<rparr>)"
proof -
  have "thread__put s th = thread__delete (buried s th t b) th"
    using t by (simp add: thread__put_def refcount_dec_and_test_def upd_thread_def thread_list_del_init_def upd_tab_def buried_def)
  also have "\<dots> = Some (s2\<lparr>thread_st := (thread_st s)(th := None), unw_log := unw_log s @ destroyed t\<rparr>)"
  proof -
    have b: "thread_st (buried s th t b) th = Some (t\<lparr>t_refcnt := 0, t_node := Self\<rparr>)" by (simp add: buried_def)
    have s2: "thread_st s2 = (thread_st s)(th \<mapsto> t\<lparr>t_refcnt := 0, t_node := Self\<rparr>)" using m(2) by (simp add: buried_def)
    show ?thesis using t(5) m(1,3)
      by (simp add: thread__delete_def b node_RB_EMPTY_def upd_thread_def s2 unwind__finish_access_def u_finish_access_def destroyed_def)
  qed
  finally show ?thesis .
qed

section \<open>Removing a thread from the table\<close>

lemma remove_thread_held:
  assumes ok: "tree_ok (thread_st s) b (tab s b)" and a: "a \<in> members (tab s b)" "thread_st s a = Some t"
    and held: "t_refcnt t \<noteq> 0" "t_refcnt t \<noteq> 1"
  shows "\<exists>e. rb_ok e \<and> inorder e = remove1 a (inorder (th_entries (tab s b))) \<and>
    uu_machine__remove_thread s a False = Some (s\<lparr>tab := (tab s)(b := (tab s b)\<lparr>
        th_last_match := (if th_last_match (tab s b) = a then 0 else th_last_match (tab s b)), th_entries := e,
        th_nr := th_nr (tab s b) - 1, th_dead := th_dead (tab s b) @ [a]\<rparr>),
      thread_st := (thread_st s)(a \<mapsto> t\<lparr>t_node := Dead b, t_refcnt := t_refcnt t - 1\<rparr>)\<rparr>)"
proof -
  have b: "machine__threads (t_tid t) = b" "a \<noteq> 0" using tree_ok_member [OF ok a(1)] a(2) by auto
  have "distinct (inorder (th_entries (tab s b)))" using ok by (auto simp: tree_ok_def distinct_map)
  then obtain e where e: "rbt_erase a (th_entries (tab s b)) = Some e" "rb_ok e" "inorder e = remove1 a (inorder (th_entries (tab s b)))"
    using rbt_erase_ok [of "th_entries (tab s b)" a] ok a(1) by (auto simp: tree_ok_def members_def)
  have "uu_machine__remove_thread s a False = Some (s\<lparr>tab := (tab s)(b := (tab s b)\<lparr>
        th_last_match := (if th_last_match (tab s b) = a then 0 else th_last_match (tab s b)), th_entries := e,
        th_nr := th_nr (tab s b) - 1, th_dead := th_dead (tab s b) @ [a]\<rparr>),
      thread_st := (thread_st s)(a \<mapsto> t\<lparr>t_node := Dead b, t_refcnt := t_refcnt t - 1\<rparr>)\<rparr>)"
    using a(2) b held e(1)
    by (auto simp: uu_machine__remove_thread_def refcount_read_def upd_tab_def upd_thread_def thread__put_more)
  with e show ?thesis by blast
qed

definition held :: "(addr \<rightharpoonup> thread_obj) \<Rightarrow> addr \<Rightarrow> bool" where
  "held st a \<longleftrightarrow> (case st a of Some t \<Rightarrow> t_refcnt t \<noteq> 0 \<and> t_refcnt t \<noteq> 1 | None \<Rightarrow> False)"

definition died :: "nat \<Rightarrow> thread_obj \<Rightarrow> thread_obj" where
  "died b t = t\<lparr>t_node := Dead b, t_refcnt := t_refcnt t - 1\<rparr>"

lemma tree_ok_remove:
  assumes ok: "tree_ok st b T" and a: "a \<in> members T" and T: "rb_ok (th_entries T')" "inorder (th_entries T') = remove1 a (inorder (th_entries T))"
    and l: "th_last_match T' = (if th_last_match T = a then 0 else th_last_match T)" and st: "\<And>x. x \<noteq> a \<Longrightarrow> st' x = st x"
  shows "tree_ok st' b T'"
proof -
  let ?xs = "inorder (th_entries T)"
  have d: "distinct ?xs" "distinct (map (tid_of st) ?xs)" "sorted (map (tid_of st) ?xs)" using ok by (auto simp: tree_ok_def distinct_map)
  have m: "members T' = members T - {a}" using T(2) d(1) by (simp add: members_def)
  have keys: "map (tid_of st') (remove1 a ?xs) = map (tid_of st) (remove1 a ?xs)" using st d(1) by (auto simp: tid_of_def)
  have "distinct (map (tid_of st) (remove1 a ?xs))" using d(1,2) by (auto simp: distinct_map inj_on_def)
  moreover have "sorted (map (tid_of st) (remove1 a ?xs))" using d(3) by (rule sorted_map_remove1)
  ultimately have "sorted (map (tid_of st') (inorder (th_entries T')))" "distinct (map (tid_of st') (inorder (th_entries T')))"
    unfolding T(2) keys by simp_all
  moreover have "th_last_match T' = 0 \<or> th_last_match T' \<in> members T'" using l ok m by (auto simp: tree_ok_def)
  moreover have "x \<noteq> 0 \<and> (\<exists>t. st' x = Some t \<and> t_node t = In_tree \<and> machine__threads (t_tid t) = b)" if "x \<in> members T'" for x
    using that m st tree_ok_member [OF ok, of x] by auto
  ultimately show ?thesis using T(1) by (simp add: tree_ok_def)
qed

lemma delete_loop_held:
  assumes "tree_ok (thread_st s) b (tab s b)" "\<forall>a\<in>members (tab s b). held (thread_st s) a" "inorder (th_entries (tab s b)) = xs"
  shows "\<exists>T. delete_threads_loop s b (rbt_first (th_entries (tab s b))) =
      Some (s\<lparr>tab := (tab s)(b := T), thread_st := (\<lambda>a. if a \<in> set xs then map_option (died b) (thread_st s a) else thread_st s a)\<rparr>) \<and>
    inorder (th_entries T) = [] \<and> th_dead T = th_dead (tab s b) @ xs \<and> th_lock T = th_lock (tab s b) \<and> th_last_match T = 0 \<and>
    th_nr T = th_nr (tab s b) - of_nat (length xs)"
  using assms
proof (induction xs arbitrary: s)
  case Nil
  then have "th_last_match (tab s b) = 0" by (simp add: tree_ok_def members_def)
  moreover have "s\<lparr>tab := (tab s)(b := tab s b), thread_st := thread_st s\<rparr> = s" by simp
  ultimately show ?case using Nil
    by (intro exI [of _ "tab s b"]) (subst delete_threads_loop.simps, simp add: rbt_first_def)
next
  case (Cons a xs)
  note ok = Cons.prems(1) and hl = Cons.prems(2) and xs = Cons.prems(3)
  have a: "a \<in> members (tab s b)" using xs by (simp add: members_def)
  obtain t where t: "thread_st s a = Some t" "t_refcnt t \<noteq> 0" "t_refcnt t \<noteq> 1"
    using hl a by (auto simp: held_def split: option.splits)
  have a0: "a \<noteq> 0" using tree_ok_member [OF ok a] by blast
  let ?T = "\<lambda>e. (tab s b)\<lparr>th_last_match := (if th_last_match (tab s b) = a then 0 else th_last_match (tab s b)), th_entries := e,
      th_nr := th_nr (tab s b) - 1, th_dead := th_dead (tab s b) @ [a]\<rparr>"
  obtain e where e: "rb_ok e" "inorder e = xs"
    "uu_machine__remove_thread s a False = Some (s\<lparr>tab := (tab s)(b := ?T e), thread_st := (thread_st s)(a \<mapsto> died b t)\<rparr>)"
    using remove_thread_held [OF ok a t] xs by (auto simp: died_def)
  let ?s = "s\<lparr>tab := (tab s)(b := ?T e), thread_st := (thread_st s)(a \<mapsto> died b t)\<rparr>"
  have nx: "rbt_next (th_entries (tab s b)) a = rbt_first (th_entries (tab ?s b))" using rbt_first_next [OF xs e(2)] by simp
  have fst: "rbt_first (th_entries (tab s b)) = a" using xs by (simp add: rbt_first_def)
  have step: "delete_threads_loop s b a = delete_threads_loop ?s b (rbt_first (th_entries (tab ?s b)))"
    by (subst delete_threads_loop.simps) (use a0 e(3) nx in simp)
  have d: "a \<notin> set xs" using ok xs by (auto simp: tree_ok_def distinct_map)
  have ok': "tree_ok (thread_st ?s) b (tab ?s b)" by (rule tree_ok_remove [OF ok a]) (use e xs in auto)
  have hl': "\<forall>x\<in>members (tab ?s b). held (thread_st ?s) x" using hl xs e(2) d by (auto simp: held_def members_def)
  have xs': "inorder (th_entries (tab ?s b)) = xs" using e(2) by simp
  obtain T where T: "delete_threads_loop ?s b (rbt_first (th_entries (tab ?s b))) =
      Some (?s\<lparr>tab := (tab ?s)(b := T), thread_st := (\<lambda>x. if x \<in> set xs then map_option (died b) (thread_st ?s x) else thread_st ?s x)\<rparr>)"
    "inorder (th_entries T) = []" "th_dead T = th_dead (tab ?s b) @ xs" "th_lock T = th_lock (tab ?s b)" "th_last_match T = 0"
    "th_nr T = th_nr (tab ?s b) - of_nat (length xs)"
    using Cons.IH [OF ok' hl' xs'] by blast
  have st: "(\<lambda>x. if x \<in> set xs then map_option (died b) (thread_st ?s x) else thread_st ?s x) =
      (\<lambda>x. if x \<in> set (a # xs) then map_option (died b) (thread_st s x) else thread_st s x)"
    using d t(1) by auto
  have "delete_threads_loop s b (rbt_first (th_entries (tab s b))) =
      Some (s\<lparr>tab := (tab s)(b := T), thread_st := (\<lambda>x. if x \<in> set (a # xs) then map_option (died b) (thread_st s x) else thread_st s x)\<rparr>)"
    unfolding fst step T(1) st by simp
  then show ?case using T(2-6) by (intro exI [of _ T]) (simp add: algebra_simps, simp add: fun_upd_def)
qed

lemma delete_bucket_held:
  assumes ok: "tree_ok (thread_st s) b (tab s b)" and hl: "\<forall>a\<in>members (tab s b). held (thread_st s) a"
    and free: "th_lock (tab s b) = Free"
  shows "\<exists>T. delete_bucket s b = Some (s\<lparr>tab := (tab s)(b := T),
        thread_st := (\<lambda>a. if a \<in> members (tab s b) then map_option (died b) (thread_st s a) else thread_st s a)\<rparr>) \<and>
    inorder (th_entries T) = [] \<and> th_dead T = th_dead (tab s b) @ inorder (th_entries (tab s b)) \<and> th_lock T = Free \<and>
    th_last_match T = 0 \<and> th_nr T = th_nr (tab s b) - of_nat (length (inorder (th_entries (tab s b))))"
proof -
  obtain l where l: "down_write (singlethreaded s) Free = Some (0, l)" "up_write (singlethreaded s) l = Some (0, Free)"
    using write_lock.free [of "singlethreaded s"] write_lock.paired by blast
  let ?s = "set_lock b l s"
  have "tree_ok (thread_st ?s) b (tab ?s b)" using ok by (simp add: tree_ok_def)
  then obtain T where T: "delete_threads_loop ?s b (rbt_first (th_entries (tab ?s b))) =
      Some (?s\<lparr>tab := (tab ?s)(b := T), thread_st := (\<lambda>a. if a \<in> members (tab s b) then map_option (died b) (thread_st s a) else thread_st s a)\<rparr>)"
    "inorder (th_entries T) = []" "th_dead T = th_dead (tab ?s b) @ inorder (th_entries (tab s b))" "th_lock T = l" "th_last_match T = 0"
    "th_nr T = th_nr (tab s b) - of_nat (length (inorder (th_entries (tab s b))))"
    using delete_loop_held [of ?s b "inorder (th_entries (tab s b))"] hl by (auto simp: members_def cong: if_cong)
  have "delete_bucket s b = Some (s\<lparr>tab := (tab s)(b := T\<lparr>th_lock := Free\<rparr>),
      thread_st := (\<lambda>a. if a \<in> members (tab s b) then map_option (died b) (thread_st s a) else thread_st s a)\<rparr>)"
    using l T(1,4) free by (simp add: delete_bucket_def) (simp add: upd_tab_def)
  then show ?thesis using T(2-6) by (intro exI [of _ "T\<lparr>th_lock := Free\<rparr>"]) (simp add: upd_tab_def)
qed

section \<open>Names\<close>

text \<open>\<^verbatim>\<open>thread__set_comm\<close> copies the name only when it equals the old one.\<close>

lemma set_comm_keeps_name:
  assumes "thread_st s th = Some t" "length (t_name t) \<le> TASK_COMM_LEN" "thread__set_comm s th str = Some s'"
  shows "thread_st s' = thread_st s"
proof -
  have "take TASK_COMM_LEN str = t_name t" if "strncmp str (t_name t) TASK_COMM_LEN = 0"
    using that assms(2) by (simp add: strncmp_def strcmp_order split: if_splits)
  then have "strncmp str (t_name t) TASK_COMM_LEN = 0 \<Longrightarrow> (thread_st s)(th \<mapsto> t\<lparr>t_name := take TASK_COMM_LEN str\<rparr>) = thread_st s"
    using assms(1) by (simp add: fun_upd_idem)
  then show ?thesis using assms(1,3)
    by (auto simp: thread__set_comm_def upd_thread_def unwind__flush_access_def u_flush_access_def split: if_splits)
qed

section \<open>The reference to the leader\<close>

text \<open>When a thread moves to a group whose maps it shares already, the reference to the leader that the lookup took is
  not given back.\<close>

lemma update_tgid_leaks:
  assumes t: "thread_st s th = Some t" "t_tgid t \<noteq> tgid" "t_tid t \<noteq> tgid"
    and f: "findnew (s\<lparr>thread_st := (thread_st s)(th \<mapsto> t\<lparr>t_tgid := tgid\<rparr>)\<rparr>) tgid tgid = Some (l, s2)" "l \<noteq> 0"
    and s2: "thread_st s2 l = Some ld" "thread_st s2 th = Some t2" "t_maps ld = t_maps t2" "t_maps ld \<noteq> 0"
  shows "machine__update_thread_tgid findnew s th tgid = Some s2"
  using assms by (simp add: machine__update_thread_tgid_def upd_thread_def)

end
