(* ===== verification/Event.thy ===== *)
theory Event
  imports Thread_Life Unwind
begin

text \<open>
  The interface of the library (\<^verbatim>\<open>src/event.c\<close>): reading \<^verbatim>\<open>/proc/<tgid>/task/<tgid>/maps\<close>, one map per
  executable line, resolving a call chain, and listing the maps of a process. The file is the text \<^verbatim>\<open>fopen\<close>
  gives access to; the scanner is \<^verbatim>\<open>sscanf\<close> with the format of the code. A field longer than its buffer is
  \<open>None\<close>.
\<close>

section \<open>Scanning a line\<close>

definition is_space :: "char \<Rightarrow> bool" where
  "is_space c \<longleftrightarrow> c \<in> {CHR '' '', CHR 0x09, CHR 0x0a, CHR 0x0b, CHR 0x0c, CHR 0x0d}"

definition digit_val :: "char \<Rightarrow> int option" where
  "digit_val c = (let n = of_char c in
     if 48 \<le> n \<and> n \<le> 57 then Some (n - 48)
     else if 97 \<le> n \<and> n \<le> 102 then Some (n - 87)
     else if 65 \<le> n \<and> n \<le> 70 then Some (n - 55)
     else None)"

definition is_digit :: "int \<Rightarrow> char \<Rightarrow> bool" where
  "is_digit base c = (case digit_val c of Some v \<Rightarrow> v < base | None \<Rightarrow> False)"

definition digits_val :: "int \<Rightarrow> string \<Rightarrow> int" where
  "digits_val base ds = foldl (\<lambda>v c. v * base + (case digit_val c of Some d \<Rightarrow> d | None \<Rightarrow> 0)) 0 ds"

text \<open>A number conversion: white space, an optional sign, an optional \<^verbatim>\<open>0x\<close>, digits; out-of-range values are the
  largest value, as for \<^verbatim>\<open>strtoul\<close>.\<close>

definition scan_num :: "int \<Rightarrow> string \<Rightarrow> (u64 \<times> string) option" where
  "scan_num base str =
     (let s = dropWhile is_space str;
          neg = (case s of c # _ \<Rightarrow> c = CHR ''-'' | [] \<Rightarrow> False);
          s = (case s of c # rest \<Rightarrow> if c = CHR ''-'' \<or> c = CHR ''+'' then rest else s | [] \<Rightarrow> s);
          s = (case s of c # x # y # _ \<Rightarrow> if base = 16 \<and> c = CHR ''0'' \<and> (x = CHR ''x'' \<or> x = CHR ''X'') \<and> is_digit 16 y then drop 2 s else s | _ \<Rightarrow> s);
          ds = takeWhile (is_digit base) s;
          v = word_of_int (min (digits_val base ds) 0xffffffffffffffff)
      in if ds = [] then None else Some (if neg then - v else v, drop (length ds) s))"

fun scan_lit :: "char \<Rightarrow> string \<Rightarrow> string option" where
  "scan_lit c [] = None"
| "scan_lit c (x # xs) = (if x = c then Some xs else None)"

definition scan_word :: "string \<Rightarrow> (string \<times> string) option" where
  "scan_word str = (let s = dropWhile is_space str; w = takeWhile (\<lambda>c. \<not> is_space c) s in
     if w = [] then None else Some (w, drop (length w) s))"

record map_line =
  l_start :: u64
  l_end :: u64
  l_prot :: string
  l_pgoff :: u64
  l_maj :: u32
  l_min :: u32
  l_ino :: u32
  l_execname :: string

text \<open>\<^verbatim>\<open>sscanf\<close> with the format of \<^verbatim>\<open>bpf_unwind_ctx_prepare_mmap\<close>: \<open>Some None\<close> when fewer than seven
  conversions succeed, \<open>None\<close> when a string overruns \<^verbatim>\<open>prot\<close> or \<^verbatim>\<open>execname\<close>.\<close>

definition scan_tail :: "u64 \<Rightarrow> u64 \<Rightarrow> string \<Rightarrow> string \<Rightarrow> map_line option" where
  "scan_tail start end' prot r = do {
     (pgoff, r) \<leftarrow> scan_num 16 r;
     (maj, r) \<leftarrow> scan_num 16 r;
     r \<leftarrow> scan_lit (CHR '':'') r;
     (min', r) \<leftarrow> scan_num 16 r;
     (ino, r) \<leftarrow> scan_num 10 r;
     let name = takeWhile (\<lambda>c. c \<noteq> CHR 0x0a) (dropWhile is_space r);
     Some \<lparr>l_start = start, l_end = end', l_prot = prot, l_pgoff = pgoff, l_maj = ucast maj, l_min = ucast min',
       l_ino = ucast ino, l_execname = name\<rparr> }"

definition scan_maps_line :: "string \<Rightarrow> map_line option option" where
  "scan_maps_line bf =
     (case (do {
          (start, r) \<leftarrow> scan_num 16 bf;
          r \<leftarrow> scan_lit (CHR ''-'') r;
          (end', r) \<leftarrow> scan_num 16 r;
          (prot, r) \<leftarrow> scan_word r;
          Some (start, end', prot, r) }) of
        None \<Rightarrow> Some None
      | Some (start, end', prot, r) \<Rightarrow>
          if length prot > 4 then None
          else (case scan_tail start end' prot r of
              None \<Rightarrow> Some None
            | Some l \<Rightarrow> if length (l_execname l) \<ge> PATH_MAX then None else Some (Some l)))"

section \<open>Reading the file\<close>

definition BUFSIZ :: nat where "BUFSIZ = 8192"

text \<open>The pieces \<^verbatim>\<open>fgets\<close> with a buffer of \<open>n + 2\<close> bytes cuts a text into.\<close>

function fgets_lines :: "nat \<Rightarrow> string \<Rightarrow> string list" where
  "fgets_lines n text =
     (if text = [] then []
      else
        let front = takeWhile (\<lambda>c. c \<noteq> CHR 0x0a) text;
            k = min (n + 1) (length front + 1)
        in take k text # fgets_lines n (drop k text))"
  by pat_completeness auto
termination by (relation "measure (\<lambda>(n, text). length text)") auto

definition PROT_READ :: u32 where "PROT_READ = 1"
definition PROT_WRITE :: u32 where "PROT_WRITE = 2"
definition PROT_EXEC :: u32 where "PROT_EXEC = 4"
definition MAP_SHARED :: u32 where "MAP_SHARED = 1"
definition MAP_PRIVATE :: u32 where "MAP_PRIVATE = 2"

text \<open>A character of the permission word. The kernel writes four; an index beyond the terminator reads as 0 here, where the
  buffer's content is indeterminate in C.\<close>

definition prot_char :: "string \<Rightarrow> nat \<Rightarrow> char" where
  "prot_char p i = (if i < length p then p ! i else CHR 0x00)"

text \<open>The event of a line; \<open>ev\<close> is the event before (the fields the code does not set stay).\<close>

definition line_event :: "mmap2_event \<Rightarrow> map_line \<Rightarrow> int \<Rightarrow> int \<Rightarrow> mmap2_event" where
  "line_event ev l tgid tid = ev\<lparr>
     e_start := l_start l, e_pgoff := l_pgoff l, e_maj := l_maj l, e_min := l_min l, e_ino := ucast (l_ino l),
     e_prot := (if prot_char (l_prot l) 0 = CHR ''r'' then PROT_READ else 0) OR
       (if prot_char (l_prot l) 1 = CHR ''w'' then PROT_WRITE else 0) OR
       (if prot_char (l_prot l) 2 = CHR ''x'' then PROT_EXEC else 0),
     e_flags := (if prot_char (l_prot l) 3 = CHR ''s'' then MAP_SHARED else MAP_PRIVATE),
     e_filename := (if strcmp (l_execname l) '''' = 0 then ''//anon'' else l_execname l),
     e_len := l_end l - l_start l, e_tgid := word_of_int tgid, e_tid := word_of_int tid\<rparr>"

definition bpf_unwind_ctx__process_mmap ::
  "unw_create \<Rightarrow> 'a machine_state_scheme \<Rightarrow> mmap2_event \<Rightarrow> (int \<times> 'a machine_state_scheme) option" where
  "bpf_unwind_ctx__process_mmap lib s event = do {
     (thread, s) \<leftarrow> machine__findnew_thread s (sint (e_tgid event)) (sint (e_tid event));
     if thread = 0 then None
     else do {
       (mp, s) \<leftarrow> map__new s event;
       (ret, s) \<leftarrow> thread__insert_map lib s thread mp;
       if ret \<noteq> 0 then None
       else do {
         s \<leftarrow> thread__put s thread;
         s \<leftarrow> map__put s mp;
         Some (0, s) } } }"

text \<open>The loop of \<^verbatim>\<open>bpf_unwind_ctx_prepare_mmap\<close> over the lines.\<close>

fun mmap_lines ::
  "unw_create \<Rightarrow> 'a machine_state_scheme \<Rightarrow> mmap2_event \<Rightarrow> int \<Rightarrow> int \<Rightarrow> string list \<Rightarrow> 'a machine_state_scheme option" where
  "mmap_lines lib s ev tgid tid [] = Some s"
| "mmap_lines lib s ev tgid tid (bf # bfs) = do {
     r \<leftarrow> scan_maps_line bf;
     (case r of
        None \<Rightarrow> mmap_lines lib s ev tgid tid bfs
      | Some l \<Rightarrow>
          if prot_char (l_prot l) 2 \<noteq> CHR ''x'' then mmap_lines lib s ev tgid tid bfs
          else do {
            let ev = line_event ev l tgid tid;
            (_, s) \<leftarrow> bpf_unwind_ctx__process_mmap lib s ev;
            mmap_lines lib s ev tgid tid bfs }) }"

definition bpf_unwind_ctx_prepare_mmap ::
  "unw_create \<Rightarrow> (int \<Rightarrow> string option) \<Rightarrow> 'a machine_state_scheme \<Rightarrow> mmap2_event \<Rightarrow> int \<Rightarrow> int \<Rightarrow> (int \<times> 'a machine_state_scheme) option" where
  "bpf_unwind_ctx_prepare_mmap lib proc_maps s ev tgid tid = (case proc_maps tgid of
     None \<Rightarrow> Some (- 1, s)
   | Some text \<Rightarrow> do { s \<leftarrow> mmap_lines lib s ev tgid tid (fgets_lines (BUFSIZ - 2) text); Some (0, s) })"

text \<open>\<open>ev\<close> is the memory \<^verbatim>\<open>xmalloc\<close> returned.\<close>

definition bpf_unwind_ctx__thread_map ::
  "unw_create \<Rightarrow> (int \<Rightarrow> string option) \<Rightarrow> mmap2_event \<Rightarrow> 'a machine_state_scheme \<Rightarrow> int \<Rightarrow> int \<Rightarrow> (int \<times> 'a machine_state_scheme) option" where
  "bpf_unwind_ctx__thread_map lib proc_maps ev s tgid tid = bpf_unwind_ctx_prepare_mmap lib proc_maps s ev tgid tid"

section \<open>Resolving a call chain\<close>

definition bpf_unwind_ctx__resolve_callchain ::
  "unw_create \<Rightarrow> (unwind_ctx \<Rightarrow> addr \<Rightarrow> ('c, 'a machine_state_scheme) cursor_ops) \<Rightarrow> stacktrace option \<Rightarrow> 'a machine_state_scheme \<Rightarrow>
   unwind_ctx \<Rightarrow> (int \<times> stacktrace option \<times> 'a machine_state_scheme) option" where
  "bpf_unwind_ctx__resolve_callchain lib U st s uc = do {
     (thread, s) \<leftarrow> machine__findnew_thread s (sint (uc_tgid uc)) (sint (uc_tid uc));
     if thread = 0 then None
     else do {
       t \<leftarrow> thread_st s thread;
       s \<leftarrow> (if t_addr_space t = 0 then do { (_, s) \<leftarrow> unwind__prepare_access lib s thread; Some s } else Some s);
       s \<leftarrow> thread__set_comm s thread (uc_name uc);
       unwind__get_entries (U uc thread) s thread uc st } }"

section \<open>Listing the maps\<close>

record dl_phdr_info =
  start_addr :: u64
  end_addr :: u64
  dlpi_name :: string

text \<open>The callback returns its result and the new value of what \<^verbatim>\<open>ctx\<close> points to.\<close>

fun phdr_loop ::
  "'a machine_state_scheme \<Rightarrow> (dl_phdr_info \<Rightarrow> 'ctx \<Rightarrow> int \<times> 'ctx) \<Rightarrow> 'ctx \<Rightarrow> addr list \<Rightarrow> (int \<times> 'ctx) option" where
  "phdr_loop s cb ctx [] = Some (0, ctx)"
| "phdr_loop s cb ctx (pos # ps) = do {
     m \<leftarrow> map_st s pos;
     d \<leftarrow> dso_st s (m_dso m);
     (case cb \<lparr>start_addr = m_start m, end_addr = m_end m, dlpi_name = d_name d\<rparr> ctx of (ret, ctx) \<Rightarrow>
        if ret < 0 then Some (- 1, ctx) else phdr_loop s cb ctx ps) }"

definition bpf_dl_iterate_phdr ::
  "'a machine_state_scheme \<Rightarrow> int \<Rightarrow> (dl_phdr_info \<Rightarrow> 'ctx \<Rightarrow> int \<times> 'ctx) \<Rightarrow> 'ctx \<Rightarrow> (int \<times> 'ctx \<times> 'a machine_state_scheme) option" where
  "bpf_dl_iterate_phdr s tgid cb ctx = do {
     (thread, s) \<leftarrow> machine__findnew_thread s tgid tgid;
     if thread = 0 then None
     else do {
       t \<leftarrow> thread_st s thread;
       ms \<leftarrow> maps_st s (t_maps t);
       (ret, ctx) \<leftarrow> phdr_loop s cb ctx (ms_head ms);
       Some (ret, ctx, s) } }"

end
