(* ===== verification/Unwind_Proofs.thy ===== *)
theory Unwind_Proofs
  imports Unwind
begin

text \<open>
  What the callbacks deliver: the registers and the stack of the snapshot, the bytes of the mapped files, the unwind table
  of a DSO, and the list of return addresses, within the bounds of the arrays the caller passed.
\<close>

section \<open>Little-endian words\<close>

lemma bit_le_word: "bit (le_word bs) k \<longleftrightarrow> k < 64 \<and> k div 8 < length bs \<and> bit (bs ! (k div 8)) (k mod 8)"
proof (induction bs arbitrary: k)
  case Nil
  then show ?case by (simp add: le_word_def)
next
  case (Cons b bs)
  have "le_word (b # bs) = push_bit 8 (le_word bs) OR ucast b" by (simp add: le_word_def)
  then have e: "bit (le_word (b # bs)) k \<longleftrightarrow> 8 \<le> k \<and> k < 64 \<and> bit (le_word bs) (k - 8) \<or> k < 64 \<and> bit b k"
    by (simp add: bit_or_iff bit_push_bit_iff bit_unsigned_iff)
  show ?case
  proof (cases "k < 8")
    case True
    then show ?thesis by (simp add: e)
  next
    case False
    then have "k div 8 = Suc ((k - 8) div 8)" "k mod 8 = (k - 8) mod 8" by (simp_all add: le_div_geq le_mod_geq)
    moreover have "\<not> bit b k" using False by (simp add: not_less bit_word.rep_eq)
    ultimately show ?thesis using False by (auto simp: e Cons.IH)
  qed
qed

definition le_bytes :: "nat \<Rightarrow> u64 \<Rightarrow> u8 list" where
  "le_bytes n w = map (\<lambda>i. ucast (drop_bit (8 * i) w)) [0..<n]"

lemma length_le_bytes [simp]: "length (le_bytes n w) = n"
  by (simp add: le_bytes_def)

lemma le_word_bytes: "le_word (le_bytes n w) = take_bit (8 * n) w"
proof (rule bit_word_eqI)
  fix k assume k: "k < LENGTH(64)"
  show "bit (le_word (le_bytes n w)) k \<longleftrightarrow> bit (take_bit (8 * n) w) k"
  proof (cases "k div 8 < n")
    case True
    then have "bit (le_bytes n w ! (k div 8)) (k mod 8) \<longleftrightarrow> bit w k"
      by (simp add: le_bytes_def bit_unsigned_iff bit_drop_bit_eq)
    moreover have "k < 8 * n" using True by (metis div_less_iff_less_mult mult.commute zero_less_numeral)
    ultimately show ?thesis using True k by (simp add: bit_le_word bit_take_bit_iff)
  next
    case False
    then have "\<not> k < 8 * n" by (metis div_less_iff_less_mult mult.commute zero_less_numeral)
    then show ?thesis using False by (simp add: bit_le_word bit_take_bit_iff)
  qed
qed

section \<open>Encoded values\<close>

lemma dw_read_bounds: "dw_read buf lim n pos = Some (v, pos') \<Longrightarrow> pos' = pos + n \<and> pos' \<le> lim"
  by (auto simp: dw_read_def split: if_splits)

lemma encoded_value_bounds:
  assumes "uu_dw_read_encoded_value base buf lim pos enc = Inr (v, pos')" "pos \<le> lim"
  shows "pos' \<in> {pos, pos + 4, pos + 8} \<and> pos' \<le> lim"
  using assms by (auto simp: uu_dw_read_encoded_value_def Let_def dest!: dw_read_bounds split: if_splits option.splits)

lemma encoded_value_error: "uu_dw_read_encoded_value base buf lim pos enc = Inl e \<Longrightarrow> e = - EINVAL"
  by (auto simp: uu_dw_read_encoded_value_def Let_def split: if_splits option.splits)

lemma dw_read_bytes:
  assumes "take n (drop pos buf) = le_bytes n w" "pos + n \<le> lim"
  shows "dw_read buf lim n pos = Some (take_bit (8 * n) w, pos + n)"
  using assms by (simp add: dw_read_def le_word_bytes)

text \<open>Decoding what an encoder of the format wrote.\<close>

lemma decode_udata4:
  "\<lbrakk>take 4 (drop pos buf) = le_bytes 4 w; pos + 4 \<le> lim\<rbrakk> \<Longrightarrow>
   uu_dw_read_encoded_value base buf lim pos 0x03 = Inr (take_bit 32 w, pos + 4)"
  by (simp add: uu_dw_read_encoded_value_def dw_read_bytes)

lemma take_bit_64: "take_bit 64 (w :: u64) = w"
  by (rule bit_word_eqI) (simp add: bit_take_bit_iff)

lemma decode_udata8:
  "\<lbrakk>take 8 (drop pos buf) = le_bytes 8 w; pos + 8 \<le> lim\<rbrakk> \<Longrightarrow>
   uu_dw_read_encoded_value base buf lim pos 0x04 = Inr (w, pos + 8)"
  by (simp add: uu_dw_read_encoded_value_def dw_read_bytes take_bit_64)

lemma decode_ptr:
  "\<lbrakk>take 8 (drop pos buf) = le_bytes 8 w; pos + 8 \<le> lim\<rbrakk> \<Longrightarrow>
   uu_dw_read_encoded_value base buf lim pos 0x00 = Inr (w, pos + 8)"
  by (simp add: uu_dw_read_encoded_value_def dw_read_bytes take_bit_64)

lemma sext32_take: "sext32 (take_bit 32 (scast (w :: 32 word))) = scast w"
proof -
  have "(ucast (take_bit 32 (scast w :: u64)) :: 32 word) = w"
    by (rule bit_word_eqI) (simp add: bit_unsigned_iff bit_take_bit_iff bit_signed_iff)
  then show ?thesis by (simp add: sext32_def)
qed

lemma decode_pcrel_sdata4:
  "\<lbrakk>take 4 (drop pos buf) = le_bytes 4 (scast (w :: 32 word)); pos + 4 \<le> lim\<rbrakk> \<Longrightarrow>
   uu_dw_read_encoded_value base buf lim pos 0x1b = Inr (base + of_nat pos + scast w, pos + 4)"
  by (simp add: uu_dw_read_encoded_value_def dw_read_bytes sext32_take)

section \<open>Registers\<close>

lemma access_reg_spec:
  "access_reg V uc n False = (case map_of (unw_regs_list (env_regs V)) n of
     Some k \<Rightarrow> map_option (\<lambda>v. (0, Some v)) (reg_spec k (uc_uregs uc))
   | None \<Rightarrow> None)"
proof (cases "map_of (unw_regs_list (env_regs V)) n")
  case None
  have "reg_value (uc_uregs uc) (- EINVAL) = None" by (rule reg_value_out) (simp_all add: EINVAL_def)
  with None show ?thesis by (simp add: access_reg_def reg_id_spec)
next
  case (Some k)
  then show ?thesis by (cases "reg_spec k (uc_uregs uc)") (simp_all add: access_reg_def reg_id_spec reg_value_spec)
qed

section \<open>Sections\<close>

lemma section_loop_first:
  "section_loop name cnt scns = Some (k, off) \<longleftrightarrow>
   (\<exists>j < length scns. k = cnt + j \<and> scns ! j = (Some name, off) \<and> (\<forall>i<j. fst (scns ! i) \<noteq> Some name))"
proof (induction scns arbitrary: cnt)
  case Nil
  then show ?case by simp
next
  case (Cons sc scns)
  obtain str o' where sc: "sc = (str, o')" by (cases sc)
  show ?case
  proof (cases "str = Some name")
    case True
    then show ?thesis by (auto simp: sc strcmp_order Ex_less_Suc2 All_less_Suc2)
  next
    case False
    then have "section_loop name cnt (sc # scns) = section_loop name (cnt + 1) scns"
      by (auto simp: sc strcmp_order split: option.splits)
    then show ?thesis using False Cons.IH [of "cnt + 1"] by (simp add: sc Ex_less_Suc2 All_less_Suc2 del: section_loop.simps)
  qed
qed

section \<open>Frames\<close>

text \<open>The addresses of the frames a cursor delivers, at most \<open>n\<close> of them, and the state after the walk.\<close>

fun frame_list :: "('c, 's) cursor_ops \<Rightarrow> nat \<Rightarrow> 'c \<Rightarrow> 's \<Rightarrow> u64 list \<times> 's" where
  "frame_list U n c s =
     (case unw_step U c s of (r, c, s) \<Rightarrow>
        if r > 0 \<and> n > 0 then
          (case frame_list U (n - 1) c s of (fs, s) \<Rightarrow>
             ((if unw_is_signal_frame U c \<le> 0 then unw_get_ip U c - 1 else unw_get_ip U c) # fs, s))
        else ([], s))"

declare frame_list.simps [simp del] frames_loop.simps [simp del]

lemma frames_loop_spec:
  assumes "0 \<le> i" "depth \<le> int (length ips)" "frame_list U (nat (depth - i)) c s = (fs, s')"
  shows "frames_loop U depth c s ips i =
    Some (i + int (length fs), take (nat i) ips @ fs @ drop (nat i + length fs) ips, s') \<and> length fs \<le> nat (depth - i)"
  using assms
proof (induction U depth c s ips i arbitrary: fs s' rule: frames_loop.induct)
  case (1 U depth c s ips i)
  obtain r c1 s1 where st: "unw_step U c s = (r, c1, s1)" by (cases "unw_step U c s") auto
  show ?case
  proof (cases "r > 0 \<and> i < depth")
    case False
    then have "fs = []" "s' = s1" using "1.prems"(3) st by (auto simp: frame_list.simps [of U "nat (depth - i)"])
    then show ?thesis using st by (subst frames_loop.simps) (simp only: prod.case False if_False, simp)
  next
    case True
    let ?ip = "if unw_is_signal_frame U c1 \<le> 0 then unw_get_ip U c1 - 1 else unw_get_ip U c1"
    have n: "nat (depth - i) - Suc 0 = nat (depth - (i + 1))" by simp
    obtain gs where gs: "frame_list U (nat (depth - (i + 1))) c1 s1 = (gs, s')" "fs = ?ip # gs"
      using "1.prems"(3) st True by (auto simp: frame_list.simps [of U "nat (depth - i)"] n split: prod.splits)
    have len: "nat i < length ips" using True "1.prems"(1,2) by linarith
    have IH: "frames_loop U depth c1 s1 (ips[nat i := ?ip]) (i + 1) =
        Some (i + 1 + int (length gs), take (nat (i + 1)) (ips[nat i := ?ip]) @ gs @ drop (nat (i + 1) + length gs) (ips[nat i := ?ip]), s') \<and>
        length gs \<le> nat (depth - (i + 1))"
      using "1.IH" [OF st [symmetric] refl True] len gs(1) "1.prems"(1,2) by simp
    have "take (nat (i + 1)) (ips[nat i := ?ip]) = take (nat i) ips @ [?ip]"
      using len "1.prems"(1) by (simp add: nat_add_distrib take_Suc_conv_app_nth)
    moreover have "drop (nat (i + 1) + length gs) (ips[nat i := ?ip]) = drop (nat i + length fs) ips"
      using "1.prems"(1) gs(2) by (simp add: nat_add_distrib drop_update_cancel)
    ultimately show ?thesis using IH True len st gs(2)
      by (subst frames_loop.simps) (simp only: prod.case if_True, auto)
  qed
qed

lemma get_entries_spec:
  assumes t: "thread_st s thread = Some t" "t_addr_space t \<noteq> 0"
    and st: "st_ips tr = Some ips" "1 \<le> st_depth tr" "st_depth tr \<le> int (length ips)"
    and init: "unw_init_remote U s = (0, c, s1)"
    and fs: "frame_list U (nat (st_depth tr - 1)) c s1 = (fs, s2)"
  shows "get_entries U s thread uc (Some tr) =
    Some (0, Some (tr\<lparr>st_ips := Some (ip (uc_uregs uc) # fs @ drop (Suc (length fs)) ips), st_depth := 1 + int (length fs)\<rparr>), s2) \<and>
    1 + int (length fs) \<le> st_depth tr"
proof -
  let ?ips = "ips[0 := ip (uc_uregs uc)]"
  have r: "reg_value (uc_uregs uc) (x86_num X86_IP) = Some (ip (uc_uregs uc))" by (simp only: reg_value_spec reg_spec.simps)
  have ne: "ips \<noteq> []" using st by auto
  have loop: "frames_loop U (st_depth tr) c s1 ?ips 1 =
      Some (1 + int (length fs), take (nat 1) ?ips @ fs @ drop (nat 1 + length fs) ?ips, s2) \<and> length fs \<le> nat (st_depth tr - 1)"
    by (rule frames_loop_spec) (use st fs in simp_all)
  obtain y ys where ips: "ips = y # ys" using ne by (cases ips) auto
  have "take (nat 1) ?ips @ fs @ drop (nat 1 + length fs) ?ips = ip (uc_uregs uc) # fs @ drop (Suc (length fs)) ips"
    by (simp add: ips)
  then show ?thesis using loop t st init ne r
    by (simp add: get_entries_def) linarith
qed

section \<open>Memory\<close>

lemma access_mem_stack:
  assumes sz: "0 < uc_size uc" "uc_size uc \<le> int (length (uc_data uc))" "length (uc_data uc) \<le> STACK_SIZE"
    and wrap: "unat (sp (uc_uregs uc)) + nat (uc_size uc) < 2 ^ 64"
    and a: "unat (sp (uc_uregs uc)) \<le> unat addr" "unat addr + 8 < unat (sp (uc_uregs uc)) + nat (uc_size uc)"
  shows "access_mem V s thread uc addr False =
    Some (0, Some (le_word (take 8 (drop (unat addr - unat (sp (uc_uregs uc))) (uc_data uc)))), s)"
proof -
  let ?sp = "sp (uc_uregs uc)"
  have small: "nat (uc_size uc) \<le> 8192" using sz by (simp add: STACK_SIZE_def)
  have e: "unat (?sp + word_of_int (uc_size uc)) = unat ?sp + nat (uc_size uc)"
    using unat_of_int_small [of "uc_size uc"] sz small wrap by (simp add: unat_word_ariths(1))
  have a8: "unat (addr + 8) = unat addr + 8" using a(2) wrap by (simp add: unat_word_ariths(1))
  have o: "unat (addr - ?sp) = unat addr - unat ?sp" using a(1) by (simp add: unat_sub word_le_nat_alt)
  have c: "\<not> addr + 8 < addr" "\<not> addr < ?sp" "\<not> ?sp + word_of_int (uc_size uc) \<le> addr + 8"
    using a by (simp_all add: word_less_nat_alt word_le_nat_alt a8 e)
  have "unat addr - unat ?sp + 8 \<le> length (uc_data uc)" using a sz by linarith
  then show ?thesis using c sz(1)
    by (simp add: access_mem_def reg_value_spec [of _ X86_SP] o del: x86_num.simps)
qed

text \<open>The last word of the snapshot is not taken from it.\<close>

lemma access_mem_last_word:
  assumes sz: "0 < uc_size uc" "uc_size uc < 2 ^ 31" and wrap: "unat (sp (uc_uregs uc)) + nat (uc_size uc) < 2 ^ 64"
    and a: "unat addr + 8 = unat (sp (uc_uregs uc)) + nat (uc_size uc)"
  shows "access_mem V s thread uc addr False = do {
     (ret, v, s) \<leftarrow> access_dso_mem V s thread addr;
     if ret \<noteq> 0 then Some (ret, Some 0, s) else Some (0, Some v, s) }"
proof -
  let ?sp = "sp (uc_uregs uc)"
  have e: "unat (?sp + word_of_int (uc_size uc)) = unat ?sp + nat (uc_size uc)"
    using unat_of_int_small [of "uc_size uc"] sz wrap by (simp add: unat_word_ariths(1))
  have a8: "unat (addr + 8) = unat addr + 8" using a wrap by (simp add: unat_word_ariths(1))
  have c: "\<not> addr + 8 < addr" "?sp + word_of_int (uc_size uc) \<le> addr + 8"
    using a by (simp_all add: word_less_nat_alt word_le_nat_alt a8 e)
  then show ?thesis using sz(1)
    by (simp add: access_mem_def reg_value_spec [of _ X86_SP] del: x86_num.simps)
qed

text \<open>Memory of the mapped files.\<close>

lemma safe_at_inside: "off < length F \<Longrightarrow> safe_at F d off"
  by (simp add: safe_at_def)

lemma read_word_ok:
  assumes E: "os_has_file E name F" and ok: "dso_ok E name F d" and o: "unat off + n \<le> length F" "0 < n"
  shows "\<exists>d'. dso__data_read_offset E name d off (int n) = Some (int n, take n (drop (unat off) F), d') \<and> dso_ok E name F d'"
proof -
  have "length F < 2 ^ 63" using E by (simp add: os_has_file_def)
  moreover have "length (take n (drop (unat off) F)) = n" using o by simp
  ultimately show ?thesis
    using read_offset_ok [OF E ok safe_at_inside, of off "int n"] o by simp
qed

lemma access_dso_mem_ok:
  assumes t: "find_map s thread addr = Some (mp, s)" "mp \<noteq> 0" "map_st s mp = Some m" "m_dso m \<noteq> 0" "dso_st s (m_dso m) = Some d"
    and E: "os_has_file (env_os V) (d_long_name d) F" "dso_ok (env_os V) (d_long_name d) F (d_data d)"
    and o: "unat (map_ip m addr) + 8 \<le> length F"
  shows "\<exists>d'. access_dso_mem V s thread addr = Some (0, le_word (take 8 (drop (unat (map_ip m addr)) F)),
      s\<lparr>dso_st := (dso_st s)(m_dso m \<mapsto> d\<lparr>d_data := d'\<rparr>)\<rparr>) \<and> dso_ok (env_os V) (d_long_name d) F d'"
proof -
  obtain d' where "dso__data_read_offset (env_os V) (d_long_name d) (d_data d) (map_ip m addr) 8 =
      Some (8, take 8 (drop (unat (map_ip m addr)) F), d')" "dso_ok (env_os V) (d_long_name d) F d'"
    using read_word_ok [OF E o] by auto
  then show ?thesis using t by (intro exI [of _ d']) (simp add: access_dso_mem_def dso__data_read_addr_def upd_dso_def)
qed

section \<open>The unwind table\<close>

text \<open>A header with the encodings compilers emit: a pc-relative frame pointer (0x1b) and a 4-byte table size (0x03).\<close>

lemma take_drop_nth: "\<lbrakk>j + k \<le> n; off + n \<le> length F\<rbrakk> \<Longrightarrow> take k (drop j (take n (drop off F))) = take k (drop (off + j) F)"
  by (simp add: drop_take min_absorb1 add.commute)

lemma spec_ehframe_ok:
  assumes E: "os_has_file (env_os V) name F" and ok: "dso_ok (env_os V) name F d" and o: "unat off + 20 \<le> length F"
    and enc: "F ! (unat off + 1) = 0x1b" "F ! (unat off + 2) = 0x03"
  shows "\<exists>d'. unwind_spec_ehframe V name d off =
      Some (Inr (12 + off, off, le_word (take 4 (drop (unat off + 8) F))), d') \<and> dso_ok (env_os V) name F d'"
proof -
  let ?h = "take 20 (drop (unat off) F)"
  obtain d' where d': "dso__data_read_offset (env_os V) name d off 20 = Some (20, ?h, d')" "dso_ok (env_os V) name F d'"
    using read_word_ok [OF E ok o] by auto
  have h: "?h ! 1 = 0x1b" "?h ! 2 = 0x03" using enc o by simp_all
  have "uu_dw_read_encoded_value (env_hdr_addr V) ?h 20 4 0x1b = Inr (env_hdr_addr V + 4 + sext32 (le_word (take 4 (drop 4 ?h))), 8)"
    by (simp add: uu_dw_read_encoded_value_def dw_read_def)
  moreover have "uu_dw_read_encoded_value (env_hdr_addr V) ?h 20 8 0x03 = Inr (le_word (take 4 (drop (unat off + 8) F)), 12)"
    using o by (simp add: uu_dw_read_encoded_value_def dw_read_def take_drop_nth [of 8 4 20 "unat off" F] del: take_drop)
  ultimately have "unwind_spec_ehframe V name d off = Some (Inr (12 + off, off, le_word (take 4 (drop (unat off + 8) F))), d')"
    using d'(1) h by (simp add: unwind_spec_ehframe_def)
  with d'(2) show ?thesis by blast
qed

lemma find_proc_info_ok:
  assumes t: "find_map s thread pc = Some (mp, s)" "mp \<noteq> 0" "map_st s mp = Some m" "m_dso m \<noteq> 0" "dso_st s (m_dso m) = Some d"
    and E: "os_has_file (env_os V) (d_long_name d) F" "dso_ok (env_os V) (d_long_name d) F (d_data d)"
    and off: "eh_frame_hdr_offset (d_data d) = off" "off \<noteq> 0" "unat off + 20 \<le> length F"
    and enc: "F ! (unat off + 1) = 0x1b" "F ! (unat off + 2) = 0x03"
  shows "\<exists>d'. find_proc_info V s thread pc = Some (env_search V pc
      \<lparr>di_start_ip = m_start m, di_end_ip = m_end m, di_segbase = unmap_ip m off, di_table_data = unmap_ip m (12 + off),
       di_table_len = le_word (take 4 (drop (unat off + 8) F))\<rparr>,
      s\<lparr>dso_st := (dso_st s)(m_dso m \<mapsto> d\<lparr>d_data := d'\<rparr>)\<rparr>) \<and> dso_ok (env_os V) (d_long_name d) F d'"
proof -
  let ?n = "le_word (take 4 (drop (unat off + 8) F))"
  obtain d' where d': "unwind_spec_ehframe V (d_long_name d) (d_data d) off = Some (Inr (12 + off, off, ?n), d')"
      "dso_ok (env_os V) (d_long_name d) F d'"
    using spec_ehframe_ok [OF E off(3) enc] by blast
  have "unat ?n < 2 ^ 32"
  proof -
    have "take_bit 32 ?n = ?n" by (rule bit_word_eqI) (auto simp: bit_take_bit_iff bit_le_word)
    then have "take_bit 32 (unat ?n) = unat ?n" by (metis unsigned_take_bit_eq)
    then show ?thesis by (simp add: take_bit_nat_eq_self_iff)
  qed
  then have "?n * 8 div 8 = ?n"
    by (intro word_unat_eq_iff [THEN iffD2]) (simp add: unat_div unat_word_ariths(2))
  then show ?thesis using t d' off
    by (intro exI [of _ d']) (simp add: find_proc_info_def read_unwind_spec_eh_frame_def upd_dso_def unmap_ip_def algebra_simps)
qed

end
