(* ===== verification/Resolve_Task.thy ===== *)
theory Resolve_Task
  imports Event Unwind_Proofs
begin

text \<open>
  One resolver of the examples (\<^verbatim>\<open>ResolveCallchainTask::run\<close> of \<^verbatim>\<open>examples/syscall_parallel.cc\<close>): a machine of its own,
  the maps of the traced process, one trace that all snapshots are resolved into, and the addresses printed for each. The
  snapshots are the ones it popped, in order; looking up and printing the symbols of the addresses is left out.
\<close>

section \<open>The task\<close>

text \<open>The body of the loop: a failure ends the program with status 1. The result is the status, the addresses printed per
  snapshot, the trace and the machine.\<close>

fun resolve_loop ::
  "unw_create \<Rightarrow> (unwind_ctx \<Rightarrow> addr \<Rightarrow> ('c, 'a machine_state_scheme) cursor_ops) \<Rightarrow> stacktrace \<Rightarrow> 'a machine_state_scheme \<Rightarrow>
   unwind_ctx list \<Rightarrow> (int \<times> u64 list list \<times> stacktrace \<times> 'a machine_state_scheme) option" where
  "resolve_loop lib U st s [] = Some (0, [], st, s)"
| "resolve_loop lib U st s (uc # ucs) = do {
     (ret, st', s) \<leftarrow> bpf_unwind_ctx__resolve_callchain lib U (Some st) s uc;
     st \<leftarrow> st';
     if ret \<noteq> 0 then Some (1, [], st, s)
     else do {
       ips \<leftarrow> st_ips st;
       let out = take (nat (st_depth st)) ips;
       (r, outs, st, s) \<leftarrow> resolve_loop lib U st s ucs;
       Some (r, out # outs, st, s) } }"

definition resolve_task ::
  "unw_create \<Rightarrow> (unwind_ctx \<Rightarrow> addr \<Rightarrow> ('c, 'a machine_state_scheme) cursor_ops) \<Rightarrow> (int \<Rightarrow> string option) \<Rightarrow> mmap2_event \<Rightarrow> int \<Rightarrow>
   int \<Rightarrow> int \<Rightarrow> 'a machine_state_scheme \<Rightarrow> unwind_ctx list \<Rightarrow> (int \<times> u64 list list \<times> 'a machine_state_scheme) option" where
  "resolve_task lib U proc_maps ev maxdepth tgid tid s ucs = do {
     let s = machine__new s;
     (ret, s) \<leftarrow> bpf_unwind_ctx__thread_map lib proc_maps ev s tgid tid;
     let st = \<lparr>st_depth = maxdepth, st_ips = Some (replicate (nat maxdepth) 0)\<rparr>;
     (r, outs, st, s) \<leftarrow> resolve_loop lib U st s ucs;
     if r \<noteq> 0 then Some (r, outs, s)
     else do { s \<leftarrow> machine__delete s; Some (0, outs, s) } }"

text \<open>The task of \<^verbatim>\<open>examples/syscall.cc\<close> also lists the maps. Its \<^verbatim>\<open>__callback\<close> prints and then ends without a
  return statement, so the value its caller sees is whatever the register holds: a parameter of the model.\<close>

definition uu_callback :: "(dl_phdr_info \<Rightarrow> int) \<Rightarrow> dl_phdr_info \<Rightarrow> dl_phdr_info list \<Rightarrow> int \<times> dl_phdr_info list" where
  "uu_callback left_over info printed = (left_over info, printed @ [info])"

definition syscall_task ::
  "unw_create \<Rightarrow> (unwind_ctx \<Rightarrow> addr \<Rightarrow> ('c, 'a machine_state_scheme) cursor_ops) \<Rightarrow> (int \<Rightarrow> string option) \<Rightarrow> mmap2_event \<Rightarrow> int \<Rightarrow>
   int \<Rightarrow> int \<Rightarrow> (dl_phdr_info \<Rightarrow> int) \<Rightarrow> 'a machine_state_scheme \<Rightarrow> unwind_ctx list \<Rightarrow>
   (int \<times> dl_phdr_info list \<times> u64 list list \<times> 'a machine_state_scheme) option" where
  "syscall_task lib U proc_maps ev maxdepth tgid tid left_over s ucs = do {
     let s = machine__new s;
     (ret, s) \<leftarrow> bpf_unwind_ctx__thread_map lib proc_maps ev s tgid tid;
     (ret, printed, s) \<leftarrow> bpf_dl_iterate_phdr s tgid (uu_callback left_over) [];
     let st = \<lparr>st_depth = maxdepth, st_ips = Some (replicate (nat maxdepth) 0)\<rparr>;
     (r, outs, st, s) \<leftarrow> resolve_loop lib U st s ucs;
     if r \<noteq> 0 then Some (r, printed, outs, s)
     else do { s \<leftarrow> machine__delete s; Some (0, printed, outs, s) } }"

lemma uu_callback_eq: "uu_callback left_over info printed = (r, printed') \<longleftrightarrow> r = left_over info \<and> printed' = printed @ [info]"
  by (auto simp: uu_callback_def)

text \<open>A value that is never negative lists every map; a negative one ends the listing after the first.\<close>

lemma callback_lists_all:
  assumes "phdr_loop s (uu_callback left_over) printed ps = Some (e, out)" "\<And>i. 0 \<le> left_over i"
  shows "e = 0 \<and> length out = length printed + length ps"
  using assms(1)
proof (induction ps arbitrary: printed)
  case (Cons p ps)
  have "\<not> left_over i < 0" for i using assms(2) [of i] by simp
  then obtain i where "phdr_loop s (uu_callback left_over) (printed @ [i]) ps = Some (e, out)"
    using Cons.prems by (auto simp: bind_eq_Some uu_callback_eq split: prod.split_asm)
  from Cons.IH [OF this] show ?case by simp
qed simp

lemma callback_stops_early:
  assumes "phdr_loop s (uu_callback left_over) printed (p # ps) = Some (e, out)" "\<And>i. left_over i < 0"
  shows "e = - 1 \<and> length out = length printed + 1"
  using assms by (auto simp: bind_eq_Some uu_callback_eq split: prod.split_asm)

section \<open>The room of the trace\<close>

lemma frames_loop_range:
  assumes "frames_loop U depth c s ips i = Some (j, ips', s')"
  shows "i \<le> j \<and> (j \<le> depth \<or> j = i) \<and> length ips' = length ips"
  using assms
proof (induction U depth c s ips i rule: frames_loop.induct)
  case (1 U depth c s ips i)
  obtain r c1 s1 where st: "unw_step U c s = (r, c1, s1)" by (cases "unw_step U c s")
  let ?ip = "if unw_is_signal_frame U c1 \<le> 0 then unw_get_ip U c1 - 1 else unw_get_ip U c1"
  show ?case
  proof (cases "r > 0 \<and> i < depth")
    case False
    then have "j = i" "ips' = ips" using "1.prems" st by (subst (asm) frames_loop.simps; simp only: prod.case if_False; simp)+
    then show ?thesis by simp
  next
    case True
    then have b: "nat i < length ips" "frames_loop U depth c1 s1 (ips[nat i := ?ip]) (i + 1) = Some (j, ips', s')"
      using "1.prems" st by (subst (asm) frames_loop.simps; simp only: prod.case if_True; simp split: if_split_asm)+
    from "1.IH" [OF st [symmetric] refl True b] show ?thesis using True by auto
  qed
qed

text \<open>A trace with room for the depth it names.\<close>

definition roomy :: "stacktrace \<Rightarrow> bool" where
  "roomy st \<longleftrightarrow> 1 \<le> st_depth st \<and> (\<exists>ips. st_ips st = Some ips \<and> st_depth st \<le> int (length ips))"

lemma get_entries_depth:
  assumes "roomy st" "get_entries U s th uc (Some st) = Some (0, st', s')"
  shows "\<exists>tr. st' = Some tr \<and> roomy tr \<and> st_depth tr \<le> st_depth st"
proof -
  obtain ips where ips: "st_ips st = Some ips" "1 \<le> st_depth st" "st_depth st \<le> int (length ips)" using assms(1) by (auto simp: roomy_def)
  obtain val t where v: "reg_value (uc_uregs uc) (x86_num X86_IP) = Some val" "thread_st s th = Some t" "ips \<noteq> []"
    using assms(2) ips by (auto simp: get_entries_def bind_eq_Some Let_def split: if_split_asm)
  obtain e c s1 where e: "unw_init_remote U s = (e, c, s1)" by (cases "unw_init_remote U s")
  let ?l = "frames_loop U (st_depth st) c s1 (ips[0 := val]) 1"
  have "\<exists>i ips'. ?l = Some (i, ips', s') \<and> st' = Some (st\<lparr>st_ips := Some ips', st_depth := i\<rparr>)"
    using assms(2) ips v e by (cases ?l) (auto simp: get_entries_def Let_def split: if_split_asm)
  then obtain i ips' where g: "st' = Some (st\<lparr>st_ips := Some ips', st_depth := i\<rparr>)" "?l = Some (i, ips', s')" by blast
  have "1 \<le> i" "i \<le> st_depth st" "length ips' = length ips" using frames_loop_range [OF g(2)] ips(2) by auto
  then show ?thesis using g(1) ips by (auto simp: roomy_def)
qed

lemma resolve_depth:
  assumes "roomy st" "bpf_unwind_ctx__resolve_callchain lib U (Some st) s uc = Some (0, st', s')"
  shows "\<exists>tr. st' = Some tr \<and> roomy tr \<and> st_depth tr \<le> st_depth st"
proof -
  obtain s1 th where u: "unwind__get_entries (U uc th) s1 th uc (Some st) = Some (0, st', s')"
    using assms(2) unfolding bpf_unwind_ctx__resolve_callchain_def by (auto simp: bind_eq_Some split: if_split_asm)
  then consider "st' = Some st" | "get_entries (U uc th) s1 th uc (Some st) = Some (0, st', s')"
    by (auto simp: unwind__get_entries_def u_get_entries_def bind_eq_Some split: if_split_asm)
  then show ?thesis using assms(1) get_entries_depth [OF assms(1)] by cases auto
qed

text \<open>All snapshots share one trace, whose depth every call lowers to the length of the chain it found.\<close>

lemma resolve_loop_depths:
  assumes "roomy st" "resolve_loop lib U st s ucs = Some (r, outs, st', s')"
  shows "(\<forall>o'\<in>set outs. 1 \<le> length o' \<and> int (length o') \<le> st_depth st) \<and> sorted_wrt (\<lambda>a b. length b \<le> length a) outs"
  using assms
proof (induction ucs arbitrary: st s outs)
  case Nil
  then show ?case by simp
next
  case (Cons uc ucs)
  show ?case
  proof (cases "outs = []")
    case False
    obtain tr s1 ips outs' where b: "bpf_unwind_ctx__resolve_callchain lib U (Some st) s uc = Some (0, Some tr, s1)" "st_ips tr = Some ips"
      "resolve_loop lib U tr s1 ucs = Some (r, outs', st', s')" "outs = take (nat (st_depth tr)) ips # outs'"
      using Cons.prems(2) False by (auto simp: bind_eq_Some Let_def split: if_split_asm)
    have tr: "roomy tr" "st_depth tr \<le> st_depth st" using resolve_depth [OF Cons.prems(1) b(1)] by auto
    have l: "int (length (take (nat (st_depth tr)) ips)) = st_depth tr" using tr(1) b(2) by (auto simp: roomy_def)
    have IH: "\<forall>o'\<in>set outs'. 1 \<le> length o' \<and> int (length o') \<le> st_depth tr" "sorted_wrt (\<lambda>a b. length b \<le> length a) outs'"
      using Cons.IH [OF tr(1) b(3)] by simp_all
    have "\<forall>o'\<in>set outs'. length o' \<le> length (take (nat (st_depth tr)) ips)" using IH(1) l by (metis of_nat_le_iff)
    moreover have "1 \<le> length (take (nat (st_depth tr)) ips)" using l tr(1) unfolding roomy_def by linarith
    ultimately show ?thesis using IH l tr(2) unfolding b(4) by fastforce
  qed simp
qed

text \<open>The whole tasks.\<close>

lemma fresh_trace_depths:
  assumes "1 \<le> maxdepth" "resolve_loop lib U \<lparr>st_depth = maxdepth, st_ips = Some (replicate (nat maxdepth) 0)\<rparr> s ucs = Some (r, outs, st', s')"
  shows "(\<forall>o'\<in>set outs. 1 \<le> length o' \<and> int (length o') \<le> maxdepth) \<and> sorted_wrt (\<lambda>a b. length b \<le> length a) outs"
  using resolve_loop_depths [OF _ assms(2)] assms(1) by (simp add: roomy_def)

lemma resolve_task_depths:
  assumes "1 \<le> maxdepth" "resolve_task lib U proc_maps ev maxdepth tgid tid s ucs = Some (r, outs, s')"
  shows "(\<forall>o'\<in>set outs. 1 \<le> length o' \<and> int (length o') \<le> maxdepth) \<and> sorted_wrt (\<lambda>a b. length b \<le> length a) outs"
proof -
  obtain s1 r1 st' s2 where l: "resolve_loop lib U \<lparr>st_depth = maxdepth, st_ips = Some (replicate (nat maxdepth) 0)\<rparr> s1 ucs = Some (r1, outs, st', s2)"
    using assms(2) unfolding resolve_task_def by (auto simp: bind_eq_Some Let_def split: if_split_asm)
  show ?thesis by (rule fresh_trace_depths [OF assms(1) l])
qed

lemma syscall_task_depths:
  assumes "1 \<le> maxdepth" "syscall_task lib U proc_maps ev maxdepth tgid tid left_over s ucs = Some (r, printed, outs, s')"
  shows "(\<forall>o'\<in>set outs. 1 \<le> length o' \<and> int (length o') \<le> maxdepth) \<and> sorted_wrt (\<lambda>a b. length b \<le> length a) outs"
proof -
  obtain s1 r1 st' s2 where l: "resolve_loop lib U \<lparr>st_depth = maxdepth, st_ips = Some (replicate (nat maxdepth) 0)\<rparr> s1 ucs = Some (r1, outs, st', s2)"
    using assms(2) unfolding syscall_task_def by (auto simp: bind_eq_Some Let_def split: if_split_asm)
  show ?thesis by (rule fresh_trace_depths [OF assms(1) l])
qed

end
