(* ===== verification/Objects_Spec.thy ===== *)
theory Objects_Spec
  imports Dso_Read Maps
begin

text \<open>
  What the file cache of a DSO, the set of DSOs and the collections of maps promise: reads through the
  cache return the bytes of the file, each long name has one DSO, and an address is found in the map that
  contains it. The last group states the cases in which the code leaves freed memory reachable.
\<close>

section \<open>The file cache\<close>

text \<open>A file system with one regular file, whose bytes are the parameter and which is opened as descriptor 3; and a file
  of three bytes.\<close>

definition sample_file :: "u8 list" where
  "sample_file = [10, 20, 30]"

definition sample_os :: "u8 list \<Rightarrow> os" where
  "sample_os F = \<lparr>os_stat = (\<lambda>name. (0, 0x81A4)), os_open = (\<lambda>name. 3), os_errno = 0,
     os_pread = (\<lambda>fd n off. let bs = take n (drop (unat off) F) in (int (length bs), bs)),
     os_fstat = (\<lambda>fd. (0, of_nat (length F)))\<rparr>"

definition fresh_data :: dso_data where
  "fresh_data = \<lparr>cache = Leaf, caches = Map.empty, next_cache = 1, fd = -1, status = DSO_DATA_STATUS_UNKNOWN,
     file_size = 0, eh_frame_hdr_offset = 0\<rparr>"

lemma length_sample_file [simp]: "length sample_file = 3"
  by (simp add: sample_file_def)

lemma sample_os_has_file: "length F < 2 ^ 63 \<Longrightarrow> os_has_file (sample_os F) ''lib'' F"
  by (simp add: os_has_file_def sample_os_def PATH_MAX_def is_regular_file_def S_ISREG_def chunk_def Let_def)

lemma sample_file_os: "os_has_file (sample_os sample_file) ''lib'' sample_file"
  by (rule sample_os_has_file) simp

lemma fresh_data_ok: "dso_ok (sample_os F) ''lib'' F fresh_data"
  by (simp add: dso_ok_def cache_ok_def fresh_data_def rb_ok_def)

text \<open>
  C7. Reads through the cache return the file. When the DSO's file holds the bytes \<open>F\<close>, a
  \<^verbatim>\<open>dso__data_read_offset\<close> of \<open>n\<close> bytes inside the file returns exactly the bytes of \<open>F\<close> from
  the offset, cut at the end of the file, however many chunks it crosses and whatever the cache already holds;
  the loop ends, no assertion fails, and the cache is left a faithful image of the file, so that any later
  read is correct as well.
\<close>

theorem cached_read_correct:
  assumes E: "os_has_file E name F" and ok: "dso_ok E name F d"
    and n: "0 < n" "n < 2 ^ 63" "0 < k" "k < 2 ^ 63" and off: "unat off < length F" "unat off2 < length F"
  shows "\<exists>d1 d2. dso__data_read_offset E name d off n =
      Some (int (length (take (nat n) (drop (unat off) F))), take (nat n) (drop (unat off) F), d1) \<and> dso_ok E name F d1 \<and>
    dso__data_read_offset E name d1 off2 k =
      Some (int (length (take (nat k) (drop (unat off2) F))), take (nat k) (drop (unat off2) F), d2) \<and> dso_ok E name F d2"
proof -
  have safe: "safe_at F d' (unat off)" "safe_at F d' (unat off2)" for d' using off by (simp_all add: safe_at_def)
  obtain d1 where "dso__data_read_offset E name d off n =
      Some (int (length (take (nat n) (drop (unat off) F))), take (nat n) (drop (unat off) F), d1)" "dso_ok E name F d1"
    using read_offset_ok [OF E ok safe(1) n(1,2)] by blast
  then show ?thesis using read_offset_ok [OF E _ safe(2) n(3,4), of d1] by blast
qed

theorem cached_read_correct_witness:
  "\<exists>d1 d2. dso__data_read_offset (sample_os sample_file) ''lib'' fresh_data 1 5 = Some (2, [20, 30], d1) \<and>
     dso__data_read_offset (sample_os sample_file) ''lib'' d1 0 2 = Some (2, [10, 20], d2)"
  using cached_read_correct [OF sample_file_os fresh_data_ok, of 5 2 1 0] by (auto simp: sample_file_def)

text \<open>
  C31. A read that starts beyond the end of the file returns \<open>-1\<close> and no bytes, and so does every read of a
  DSO whose data status is \<^verbatim>\<open>DSO_DATA_STATUS_ERROR\<close>; neither touches the cache's contents.
\<close>

theorem read_errors:
  assumes "os_has_file E name F" "dso_ok E name F d" "length F < unat off"
  shows "(\<exists>d'. dso__data_read_offset E name d off n = Some (-1, [], d') \<and> dso_ok E name F d') \<and>
    (\<forall>e. status e = DSO_DATA_STATUS_ERROR \<longrightarrow> dso__data_read_offset E name e off n = Some (-1, [], e))"
  using read_offset_beyond [OF assms] by (simp add: dso__data_read_offset_def)

theorem read_errors_witness:
  "\<exists>d'. dso__data_read_offset (sample_os sample_file) ''lib'' fresh_data 4 1 = Some (-1, [], d') \<and> dso_ok (sample_os sample_file) ''lib'' sample_file d'"
  using read_errors [OF sample_file_os fresh_data_ok, of 4 1] by simp

text \<open>
  C33. A read that starts exactly at the end of a file whose length is not a multiple of the chunk size, while
  the last chunk is not cached, returns 0 but leaves a freed entry linked in the cache: \<^verbatim>\<open>dso_cache__read\<close> inserts the
  entry into the tree, copies nothing, and frees it.
\<close>

theorem read_at_end_leaves_freed_entry:
  assumes "os_has_file E name F" "dso_ok E name F d" "unat off = length F" "\<not> 4096 dvd length F"
    and "0 < n" "n < 2 ^ 63" "\<not> cached d (unat off)"
  shows "\<exists>d'. dso__data_read_offset E name d off n = Some (0, [], d') \<and> (\<exists>a\<in>set (inorder (cache d')). caches d' a = None)"
  using read_at_end_frees_linked [OF assms] .

theorem read_at_end_leaves_freed_entry_witness:
  "\<exists>d'. dso__data_read_offset (sample_os sample_file) ''lib'' fresh_data 3 1 = Some (0, [], d') \<and>
     (\<exists>a\<in>set (inorder (cache d')). caches d' a = None)"
  by (rule read_at_end_leaves_freed_entry [OF sample_file_os fresh_data_ok])
    (simp_all add: fresh_data_def cached_def)

section \<open>The set of DSOs\<close>

text \<open>A machine without DSOs, maps or threads.\<close>

definition no_objects :: map_state where
  "no_objects = \<lparr>dso_st = Map.empty, next_addr = 1, singlethreaded = False, dsos_head = [], dsos_root = Leaf, dsos_lock = Free,
     map_st = Map.empty, maps_st = Map.empty\<rparr>"

lemma no_objects_ok: "dsos_ok no_objects" "dsos_lock no_objects = Free"
  by (simp_all add: dsos_ok_def no_objects_def rb_ok_def)

text \<open>
  C21. \<^verbatim>\<open>dsos__findnew\<close> keeps the set of DSOs well-formed (tree and list have the same members, the tree is
  ordered by long name, names are unique) and returns the one DSO with the given long name: the one that
  was there, with one more reference and nothing else changed, or a new one, appended to the list, with one reference
  for the set and one for the caller.
\<close>

theorem dsos_findnew_correct:
  assumes "dsos_ok s" "dsos_lock s = Free"
  shows "\<exists>a s'. dsos__findnew s name = Some (a, s') \<and> dsos_ok s' \<and> dsos_lock s' = Free \<and> a \<noteq> 0 \<and> (\<forall>b. named s' name b \<longleftrightarrow> b = a) \<and>
    (if named s name a then dsos_head s' = dsos_head s \<and> refcnt_of s' a = refcnt_of s a + 1
     else (\<forall>b. \<not> named s name b) \<and> dso_st s a = None \<and> dsos_head s' = dsos_head s @ [a] \<and> refcnt_of s' a = 2) \<and>
    (\<forall>b. b \<noteq> a \<longrightarrow> dso_st s' b = dso_st s b)"
proof -
  obtain a s' where a: "dsos__findnew s name = Some (a, s')" "dsos_ok s'" "named s' name a" "a \<noteq> 0"
    "\<exists>D n h t. s' = s\<lparr>dso_st := D, next_addr := n, dsos_head := h, dsos_root := t\<rparr>"
    "if named s name a then dsos_head s' = dsos_head s \<and> refcnt_of s' a = refcnt_of s a + 1
     else a = next_addr s \<and> (\<forall>b. \<not> named s name b) \<and> dsos_head s' = dsos_head s @ [a] \<and> refcnt_of s' a = 2"
    "\<forall>b. b \<noteq> a \<longrightarrow> dso_st s' b = dso_st s b"
    using dsos__findnew_ok [OF assms, of name] by blast
  have "dsos_lock s' = Free" using a(5) assms(2) by auto
  moreover have "\<forall>b. named s' name b \<longleftrightarrow> b = a" using named_unique [OF a(2)] a(3) by blast
  moreover have "dso_st s (next_addr s) = None" using assms(1) by (auto simp: dsos_ok_def dom_def)
  ultimately show ?thesis using a(1,2,4,6,7) by (intro exI [of _ a] exI [of _ s']) (simp split: if_splits)
qed

theorem dsos_findnew_correct_witness:
  "\<exists>a s'. dsos__findnew no_objects ''lib'' = Some (a, s') \<and> dsos_ok s' \<and> dsos_head s' = [a] \<and> refcnt_of s' a = 2"
proof -
  have "\<not> named no_objects ''lib'' a" "dsos_head no_objects = []" for a by (simp_all add: named_def no_objects_def)
  with dsos_findnew_correct [OF no_objects_ok, of "''lib''"] show ?thesis by auto
qed

text \<open>
  Looking a name up twice gives the same DSO: a second \<^verbatim>\<open>dsos__findnew\<close> with the same name returns the
  address the first one returned, creates nothing and only takes another reference.
\<close>

lemma dsos_findnew_again:
  assumes ok: "dsos_ok s" and free: "dsos_lock s = Free"
  shows "\<exists>a s1 s2. dsos__findnew s name = Some (a, s1) \<and> dsos__findnew s1 name = Some (a, s2) \<and>
    dsos_head s2 = dsos_head s1 \<and> refcnt_of s2 a = refcnt_of s1 a + 1 \<and> (\<forall>b. b \<noteq> a \<longrightarrow> dso_st s2 b = dso_st s1 b)"
proof -
  obtain a s1 where a: "dsos__findnew s name = Some (a, s1)" "dsos_ok s1" "named s1 name a"
    "\<exists>D n h t. s1 = s\<lparr>dso_st := D, next_addr := n, dsos_head := h, dsos_root := t\<rparr>"
    using dsos__findnew_ok [OF ok free, of name] by blast
  have "dsos_lock s1 = Free" using a(4) free by auto
  from dsos__findnew_ok [OF a(2) this, of name]
  obtain b s2 where b: "dsos__findnew s1 name = Some (b, s2)"
    "if named s1 name b then dsos_head s2 = dsos_head s1 \<and> refcnt_of s2 b = refcnt_of s1 b + 1
     else b = next_addr s1 \<and> (\<forall>c. \<not> named s1 name c) \<and> dsos_head s2 = dsos_head s1 @ [b] \<and> refcnt_of s2 b = 2"
    "\<forall>c. c \<noteq> b \<longrightarrow> dso_st s2 c = dso_st s1 c" by blast
  have "named s1 name b" using b(2) a(3) by (auto split: if_splits)
  with named_unique [OF a(2) this a(3)] a(1) b show ?thesis by auto
qed

section \<open>Maps\<close>

definition sample_map :: "u64 \<Rightarrow> addr \<Rightarrow> map_obj" where
  "sample_map start node = \<lparr>m_rb_empty = (node = 0), m_node = node, m_start = start, m_end = start + 0x1000, m_prot = 4, m_flags = 2,
     m_pgoff = 0, m_reloc = 0, m_maj = 0, m_min = 0, m_ino = 0, m_ino_generation = 0, m_dso = 0, m_refcnt = 1\<rparr>"

text \<open>A collection at address 5 with the map 6; map 7 is not in it yet.\<close>

definition two_maps :: map_state where
  "two_maps = no_objects\<lparr>next_addr := 9, map_st := [6 \<mapsto> sample_map 0x1000 5, 7 \<mapsto> sample_map 0x2000 0],
     maps_st := [5 \<mapsto> \<lparr>ms_entries = Node Leaf Black 6 Leaf, ms_head = [6], ms_lock = Free, ms_refcnt = 1\<rparr>]\<rparr>"

lemma two_maps_simps [simp]:
  "map_st two_maps = [6 \<mapsto> sample_map 0x1000 5, 7 \<mapsto> sample_map 0x2000 0]"
  "maps_st two_maps = [5 \<mapsto> \<lparr>ms_entries = Node Leaf Black 6 Leaf, ms_head = [6], ms_lock = Free, ms_refcnt = 1\<rparr>]"
  by (simp_all add: two_maps_def)

lemma two_maps_ok:
  "maps_ok two_maps 5 \<lparr>ms_entries = Node Leaf Black 6 Leaf, ms_head = [6], ms_lock = Free, ms_refcnt = 1\<rparr>"
  by (simp add: maps_ok_def rb_ok_def in_maps_def sample_map_def)

text \<open>
  C19. \<^verbatim>\<open>maps__find\<close> is a correct point location: in a collection whose maps do not overlap it returns the one
  map that contains the address and the null pointer exactly when no map does, and leaves the state, the lock
  included, as it was.
\<close>

theorem maps_find_correct:
  assumes "maps_st s maps = Some ms" "maps_ok s maps ms" "ms_lock ms = Free"
    and "disjoint_maps (map_st s) (set (ms_head ms))"
    and "\<forall>a\<in>set (ms_head ms). \<forall>m. map_st s a = Some m \<longrightarrow> m_start m \<le> m_end m"
  shows "(\<exists>a. maps__find s maps addr = Some (a, s) \<and> a \<in> set (ms_head ms) \<and> contains (map_st s) addr a \<and>
       (\<forall>b\<in>set (ms_head ms). contains (map_st s) addr b \<longrightarrow> b = a)) \<or>
    maps__find s maps addr = Some (0, s) \<and> (\<forall>b\<in>set (ms_head ms). \<not> contains (map_st s) addr b)"
  using maps__find_ok [OF assms] .

theorem maps_find_correct_witness:
  "maps__find two_maps 5 0x1800 = Some (6, two_maps) \<and> maps__find two_maps 5 0x2000 = Some (0, two_maps)"
proof -
  have d: "disjoint_maps (map_st two_maps) (set [6])" by (simp add: disjoint_maps_def)
  note f = maps_find_correct [of two_maps 5, OF _ two_maps_ok]
  show ?thesis using f [of "0x1800"] f [of "0x2000"] d by (auto simp: contains_def sample_map_def)
qed

lemma maps_find_value:
  assumes "maps_st s maps = Some ms" "maps_ok s maps ms" "ms_lock ms = Free"
    and "disjoint_maps (map_st s) (set (ms_head ms))"
    and "\<forall>a\<in>set (ms_head ms). \<forall>m. map_st s a = Some m \<longrightarrow> m_start m \<le> m_end m"
  shows "\<lbrakk>a \<in> set (ms_head ms); contains (map_st s) addr a\<rbrakk> \<Longrightarrow> maps__find s maps addr = Some (a, s)"
    and "\<forall>a\<in>set (ms_head ms). \<not> contains (map_st s) addr a \<Longrightarrow> maps__find s maps addr = Some (0, s)"
  using maps__find_ok [OF assms, of addr] by (elim disjE exE conjE; blast)+

text \<open>Lookup in a collection with one more map.\<close>

lemma maps_find_more:
  assumes new: "\<And>a. \<lbrakk>a \<in> A'; contains st' addr a\<rbrakk> \<Longrightarrow> maps__find s' maps addr = Some (a, s')"
      "\<forall>a\<in>A'. \<not> contains st' addr a \<Longrightarrow> maps__find s' maps addr = Some (0, s')"
    and old: "\<And>a. \<lbrakk>a \<in> A; contains st addr a\<rbrakk> \<Longrightarrow> maps__find s maps addr = Some (a, s)"
      "\<forall>a\<in>A. \<not> contains st addr a \<Longrightarrow> maps__find s maps addr = Some (0, s)"
    and same: "\<And>addr a. contains st' addr a = contains st addr a" and A': "A' = insert mp A"
  shows "map_option fst (maps__find s' maps addr) =
    (if contains st addr mp then Some mp else map_option fst (maps__find s maps addr))"
proof (cases "\<exists>a\<in>A'. contains st addr a")
  case False
  then show ?thesis using new(2) old(2) by (simp add: same A')
next
  case True
  then obtain a where a: "a \<in> A'" "contains st addr a" by blast
  show ?thesis
  proof (cases "contains st addr mp")
    case True
    then show ?thesis using new(1) [of mp] by (simp add: same A')
  next
    case False
    then show ?thesis using new(1) [of a] old(1) [of a] a by (auto simp: same A')
  qed
qed

text \<open>
  C20. Insertion and lookup fit together: \<^verbatim>\<open>maps__insert\<close> of a map that overlaps no map of the collection
  keeps the collection well-formed, appends the map to the list and takes a reference; after it a lookup inside
  the new map returns the new map and every other lookup returns what it returned before.
\<close>

theorem maps_insert_find:
  assumes st: "maps_st s maps = Some ms" and ok: "maps_ok s maps ms" and free: "ms_lock ms = Free"
    and m: "map_st s mp = Some m" "mp \<noteq> 0" "mp \<notin> set (ms_head ms)" "m_refcnt m + 1 \<noteq> 0"
    and dis: "disjoint_maps (map_st s) (insert mp (set (ms_head ms)))"
    and wf: "\<forall>a\<in>insert mp (set (ms_head ms)). \<forall>m. map_st s a = Some m \<longrightarrow> m_start m \<le> m_end m"
  shows "\<exists>s' ms'. maps__insert s maps mp = Some s' \<and> maps_st s' maps = Some ms' \<and> maps_ok s' maps ms' \<and> ms_head ms' = ms_head ms @ [mp] \<and>
    map_st s' = (map_st s)(mp \<mapsto> m\<lparr>m_rb_empty := False, m_node := maps, m_refcnt := m_refcnt m + 1\<rparr>) \<and>
    (\<forall>addr. map_option fst (maps__find s' maps addr) =
       (if m_start m \<le> addr \<and> addr < m_end m then Some mp else map_option fst (maps__find s maps addr)))"
proof -
  let ?m' = "m\<lparr>m_rb_empty := False, m_node := maps, m_refcnt := m_refcnt m + 1\<rparr>"
  obtain t where t: "maps__insert s maps mp = Some (s\<lparr>maps_st := (maps_st s)(maps \<mapsto> ms\<lparr>ms_entries := t, ms_head := ms_head ms @ [mp]\<rparr>),
      map_st := (map_st s)(mp \<mapsto> ?m')\<rparr>)"
    "maps_ok (s\<lparr>maps_st := (maps_st s)(maps \<mapsto> ms\<lparr>ms_entries := t, ms_head := ms_head ms @ [mp]\<rparr>), map_st := (map_st s)(mp \<mapsto> ?m')\<rparr>)
      maps (ms\<lparr>ms_entries := t, ms_head := ms_head ms @ [mp]\<rparr>)"
    using maps__insert_ok [OF st ok free m] by blast
  define ms' where "ms' = ms\<lparr>ms_entries := t, ms_head := ms_head ms @ [mp]\<rparr>"
  define s' where "s' = s\<lparr>maps_st := (maps_st s)(maps \<mapsto> ms'), map_st := (map_st s)(mp \<mapsto> ?m')\<rparr>"
  have s': "maps__insert s maps mp = Some s'" "maps_ok s' maps ms'" "maps_st s' maps = Some ms'" "ms_lock ms' = Free"
    "map_st s' = (map_st s)(mp \<mapsto> ?m')" "set (ms_head ms') = insert mp (set (ms_head ms))" "ms_head ms' = ms_head ms @ [mp]"
    using t free by (simp_all add: s'_def ms'_def)
  have same: "contains (map_st s') addr a = contains (map_st s) addr a" for addr a
    using m(1) by (simp add: s'(5) contains_def)
  have dis': "disjoint_maps (map_st s') (set (ms_head ms'))"
    using dis m(1) unfolding disjoint_maps_def s'(5,6) by (auto split: if_splits)
  have wf': "\<forall>a\<in>set (ms_head ms'). \<forall>p. map_st s' a = Some p \<longrightarrow> m_start p \<le> m_end p"
    using wf m(1) unfolding s'(5,6) by (auto split: if_splits)
  have dis0: "disjoint_maps (map_st s) (set (ms_head ms))" using dis by (auto simp: disjoint_maps_def)
  have wf0: "\<forall>a\<in>set (ms_head ms). \<forall>p. map_st s a = Some p \<longrightarrow> m_start p \<le> m_end p" using wf by auto
  have at: "contains (map_st s) addr mp \<longleftrightarrow> m_start m \<le> addr \<and> addr < m_end m" for addr using m(1) by (simp add: contains_def)
  have look: "map_option fst (maps__find s' maps addr) =
      (if contains (map_st s) addr mp then Some mp else map_option fst (maps__find s maps addr))" for addr
    by (rule maps_find_more [where s = s, OF maps_find_value [OF s'(3,2,4) dis' wf'] maps_find_value [OF st ok free dis0 wf0] same s'(6)])
  show ?thesis using s' look [unfolded at] by blast
qed

theorem maps_insert_find_witness:
  "\<exists>s' ms'. maps__insert two_maps 5 7 = Some s' \<and> maps_st s' 5 = Some ms' \<and> ms_head ms' = [6, 7] \<and>
     map_option fst (maps__find s' 5 0x2004) = Some 7 \<and> map_option fst (maps__find s' 5 0x1800) = map_option fst (maps__find two_maps 5 0x1800)"
proof -
  have st: "maps_st two_maps 5 = Some \<lparr>ms_entries = Node Leaf Black 6 Leaf, ms_head = [6], ms_lock = Free, ms_refcnt = 1\<rparr>"
    and m: "map_st two_maps 7 = Some (sample_map 0x2000 0)"
    and d: "disjoint_maps (map_st two_maps) (insert 7 (set [6]))"
    and wf: "\<forall>a\<in>insert 7 (set [6]). \<forall>m. map_st two_maps a = Some m \<longrightarrow> m_start m \<le> m_end m"
    by (simp_all add: disjoint_maps_def sample_map_def)
  have head: "set [6] = set (ms_head \<lparr>ms_entries = Node Leaf Black 6 Leaf, ms_head = [6], ms_lock = Free, ms_refcnt = 1\<rparr>)" by simp
  obtain s' ms' where r: "maps__insert two_maps 5 7 = Some s'" "maps_st s' 5 = Some ms'" "ms_head ms' = [6] @ [7]"
    "\<forall>addr. map_option fst (maps__find s' 5 addr) =
       (if m_start (sample_map 0x2000 0) \<le> addr \<and> addr < m_end (sample_map 0x2000 0) then Some 7 else map_option fst (maps__find two_maps 5 addr))"
    using maps_insert_find [OF st two_maps_ok _ m _ _ _ d [unfolded head] wf [unfolded head]] by (simp add: sample_map_def) blast
  show ?thesis
    using r(1-3) r(4) [THEN spec, of "0x2004"] r(4) [THEN spec, of "0x1800"]
    by (intro exI [of _ s'] exI [of _ ms']) (simp add: sample_map_def)
qed

end
