(* ===== verification/Bpf_Ctx.thy ===== *)
theory Bpf_Ctx
  imports Unwind_Proofs
begin

text \<open>
  The eBPF program that takes the snapshots (\<^verbatim>\<open>bpf/ebpf_get_unwind_ctx.c\<close>). The helpers of the kernel and of BCC
  are the record \<open>kernel\<close>; the state is the one-element array \<^verbatim>\<open>zero\<close>, the hash \<^verbatim>\<open>cache\<close> and the perf buffer \<^verbatim>\<open>unwind_ctxs\<close>. The
  value that \<^verbatim>\<open>cache.lookup_or_init\<close> points to is updated in the hash.
\<close>

section \<open>The program\<close>

text \<open>What the helpers answer: \<^verbatim>\<open>user_mode\<close>, the fields of the current task, the reads of kernel memory (the result and what
  is stored), the clock and the ids, the name of the task, the read of the stack (the result and the buffer afterwards), and whether
  the hash has room for another key.\<close>

record kernel =
  k_user_mode :: "ptr \<Rightarrow> bool"
  k_task_mm :: bool
  k_task_sp0 :: u64
  k_probe_word :: "ptr \<Rightarrow> int \<times> u64"
  k_probe_regs :: "ptr \<Rightarrow> int \<times> pt_regs"
  k_ktime :: u64
  k_pid_tgid :: u64
  k_comm :: string
  k_probe_stack :: "u64 \<Rightarrow> int \<times> u8 list"
  k_room :: bool

type_synonym bpf_key = "u64 \<times> u64"

record bpf_state =
  zero :: "unwind_ctx option"
  bcache :: "bpf_key \<rightharpoonup> unwind_ctx"
  unwind_ctxs :: "(ptr \<times> unwind_ctx) list"

definition lookup_or_init :: "kernel \<Rightarrow> bpf_key \<Rightarrow> unwind_ctx \<Rightarrow> bpf_state \<Rightarrow> (unwind_ctx \<times> bpf_state) option" where
  "lookup_or_init K k z s = (case bcache s k of
     Some u \<Rightarrow> Some (u, s)
   | None \<Rightarrow> if k_room K then Some (z, s\<lparr>bcache := (bcache s)(k \<mapsto> z)\<rparr>) else None)"

text \<open>The size of \<^verbatim>\<open>struct pt_regs\<close> and the offset of \<^verbatim>\<open>sp\<close> in it.\<close>

definition user_regs_of :: "kernel \<Rightarrow> ptr \<Rightarrow> bool \<Rightarrow> ptr" where
  "user_regs_of K ctx tracepoint =
     (if \<not> tracepoint \<and> ctx \<noteq> NULL \<and> k_user_mode K ctx then ctx
      else if k_task_mm K then k_task_sp0 K - 168 else NULL)"

text \<open>From the read of the registers on; \<open>uc\<close> is the entry of the hash at the key \<open>k\<close>.\<close>

definition fill_unwind_ctx ::
  "kernel \<Rightarrow> ptr \<Rightarrow> bool \<Rightarrow> ptr \<Rightarrow> ptr \<Rightarrow> u64 \<Rightarrow> bpf_key \<Rightarrow> unwind_ctx \<Rightarrow> bpf_state \<Rightarrow> int \<times> bpf_state" where
  "fill_unwind_ctx K ctx tracepoint attr user_regs stk k uc s =
     (let (ret, regs) = k_probe_regs K user_regs;
          uc = uc\<lparr>uc_ts := fst k, uc_tgid := ucast (drop_bit 32 (snd k)), uc_tid := ucast (snd k), uc_uregs := regs\<rparr>
      in
      if ret < 0 then (- 1, s\<lparr>bcache := (bcache s)(k \<mapsto> uc)\<rparr>)
      else
        let uc = uc\<lparr>uc_name := k_comm K\<rparr>;
            kernel_mode = (\<not> tracepoint \<and> ctx \<noteq> NULL \<and> \<not> k_user_mode K ctx);
            stk = (if kernel_mode then stk - 16 else stk);
            uc = (if kernel_mode then uc\<lparr>uc_uregs := (uc_uregs uc)\<lparr>sp := stk\<rparr>\<rparr> else uc);
            (ret, bytes) = k_probe_stack K stk;
            uc = uc\<lparr>uc_data := bytes\<rparr>
        in
        if ret < 0 then (- 1, s\<lparr>bcache := (bcache s)(k \<mapsto> uc)\<rparr>)
        else
          let uc = uc\<lparr>uc_size := (if ret = 0 then int STACK_SIZE else int STACK_SIZE - ret)\<rparr>;
              s = s\<lparr>unwind_ctxs := unwind_ctxs s @ [(if tracepoint then attr else ctx, uc)]\<rparr>
          in (0, s\<lparr>bcache := (bcache s)(k := None)\<rparr>))"

definition get_unwind_ctx :: "kernel \<Rightarrow> ptr \<Rightarrow> bool \<Rightarrow> ptr \<Rightarrow> bpf_state \<Rightarrow> int \<times> bpf_state" where
  "get_unwind_ctx K ctx tracepoint attr s =
     (let user_regs = user_regs_of K ctx tracepoint in
      if user_regs = NULL then (- 1, s)
      else
        let (ret, stk) = k_probe_word K (user_regs + 152) in
        if ret < 0 then (- 1, s)
        else (case zero s of
          None \<Rightarrow> (- 1, s)
        | Some zuc \<Rightarrow>
            let k = (k_ktime K, k_pid_tgid K) in
            (case lookup_or_init K k zuc s of
               None \<Rightarrow> (- 1, s)
             | Some (uc, s) \<Rightarrow> fill_unwind_ctx K ctx tracepoint attr user_regs stk k uc s)))"

section \<open>What a snapshot holds\<close>

text \<open>The documented behaviour of \<^verbatim>\<open>bpf_probe_read_stack\<close> on a process whose memory is \<open>mem\<close>: it returns the number of
  bytes that could not be copied, and those before them are the bytes of the memory.\<close>

definition copies_stack :: "kernel \<Rightarrow> (u64 \<Rightarrow> u8) \<Rightarrow> bool" where
  "copies_stack K mem \<longleftrightarrow> (\<forall>a rem bytes. k_probe_stack K a = (rem, bytes) \<longrightarrow>
     0 \<le> rem \<and> rem \<le> int STACK_SIZE \<and> length bytes = STACK_SIZE \<and> (\<forall>i < STACK_SIZE - nat rem. bytes ! i = mem (a + of_nat i)))"

lemma copies_stackD:
  assumes "copies_stack K mem" "k_probe_stack K a = (n, bytes)"
  shows "0 \<le> n" "n \<le> int STACK_SIZE" "length bytes = STACK_SIZE" "\<forall>i < STACK_SIZE - nat n. bytes ! i = mem (a + of_nat i)"
  using assms unfolding copies_stack_def by blast+

text \<open>The reads of the registers at \<open>r\<close> succeed and deliver \<open>regs\<close>.\<close>

definition regs_at :: "kernel \<Rightarrow> ptr \<Rightarrow> pt_regs \<Rightarrow> bool" where
  "regs_at K r regs \<longleftrightarrow> r \<noteq> NULL \<and> 0 \<le> fst (k_probe_word K (r + 152)) \<and> snd (k_probe_word K (r + 152)) = sp regs \<and>
     0 \<le> fst (k_probe_regs K r) \<and> snd (k_probe_regs K r) = regs"

definition snapshot_sp :: "kernel \<Rightarrow> ptr \<Rightarrow> bool \<Rightarrow> pt_regs \<Rightarrow> u64" where
  "snapshot_sp K ctx tracepoint regs = (if \<not> tracepoint \<and> ctx \<noteq> NULL \<and> \<not> k_user_mode K ctx then sp regs - 16 else sp regs)"

lemma get_unwind_ctx_ok:
  assumes r: "regs_at K (user_regs_of K ctx tracepoint) regs" and z: "zero s = Some zuc" and room: "k_room K"
    and st: "copies_stack K mem"
  shows "\<exists>uc s'. get_unwind_ctx K ctx tracepoint attr s = (0, s') \<and>
    unwind_ctxs s' = unwind_ctxs s @ [(if tracepoint then attr else ctx, uc)] \<and> zero s' = zero s \<and>
    bcache s' = (bcache s)((k_ktime K, k_pid_tgid K) := None) \<and>
    uc_ts uc = k_ktime K \<and> uc_tgid uc = ucast (drop_bit 32 (k_pid_tgid K)) \<and> uc_tid uc = ucast (k_pid_tgid K) \<and> uc_name uc = k_comm K \<and>
    uc_uregs uc = regs\<lparr>sp := snapshot_sp K ctx tracepoint regs\<rparr> \<and>
    uc_size uc = int STACK_SIZE - fst (k_probe_stack K (snapshot_sp K ctx tracepoint regs)) \<and>
    uc_data uc = snd (k_probe_stack K (snapshot_sp K ctx tracepoint regs))"
proof -
  let ?sp = "snapshot_sp K ctx tracepoint regs"
  let ?k = "(k_ktime K, k_pid_tgid K)"
  obtain w where w: "k_probe_word K (user_regs_of K ctx tracepoint + 152) = (w, sp regs)" "\<not> w < 0"
    using r unfolding regs_at_def by (metis not_less prod.collapse)
  obtain g where g: "k_probe_regs K (user_regs_of K ctx tracepoint) = (g, regs)" "\<not> g < 0"
    using r unfolding regs_at_def by (metis not_less prod.collapse)
  have nz: "user_regs_of K ctx tracepoint \<noteq> NULL" using r by (simp add: regs_at_def)
  obtain u s1 where u: "lookup_or_init K ?k zuc s = Some (u, s1)" "unwind_ctxs s1 = unwind_ctxs s" "zero s1 = zero s"
      "(bcache s1)(?k := None) = (bcache s)(?k := None)"
    using room by (cases "bcache s ?k") (auto simp: lookup_or_init_def)
  obtain n bytes where b: "k_probe_stack K ?sp = (n, bytes)" by (cases "k_probe_stack K ?sp")
  have n: "\<not> n < 0" using copies_stackD(1) [OF st b] by simp
  show ?thesis
  proof (cases "\<not> tracepoint \<and> ctx \<noteq> NULL \<and> \<not> k_user_mode K ctx")
    case True
    then have e: "?sp = sp regs - 16" by (simp add: snapshot_sp_def)
    show ?thesis using True nz w g z u b n unfolding e by (simp add: get_unwind_ctx_def fill_unwind_ctx_def Let_def)
  next
    case False
    then have e: "?sp = sp regs" by (auto simp: snapshot_sp_def)
    show ?thesis using nz w g z u b n unfolding e by (simp add: get_unwind_ctx_def fill_unwind_ctx_def Let_def False)
  qed
qed

text \<open>The bytes of a snapshot, read back through the callback.\<close>

lemma snapshot_bytes:
  assumes st: "copies_stack K mem" and sz: "uc_size uc = int STACK_SIZE - fst (k_probe_stack K (sp (uc_uregs uc)))"
    and data: "uc_data uc = snd (k_probe_stack K (sp (uc_uregs uc)))"
    and wrap: "unat (sp (uc_uregs uc)) + nat (uc_size uc) < 2 ^ 64"
    and a: "unat (sp (uc_uregs uc)) \<le> unat addr" "unat addr + 8 < unat (sp (uc_uregs uc)) + nat (uc_size uc)"
  shows "access_mem V m thread uc addr False = Some (0, Some (le_word (map (\<lambda>i. mem (addr + of_nat i)) [0..<8])), m)"
proof -
  let ?sp = "sp (uc_uregs uc)"
  obtain n bytes where b: "k_probe_stack K ?sp = (n, bytes)" by (cases "k_probe_stack K ?sp")
  note c = copies_stackD [OF st b]
  have size: "uc_size uc = int STACK_SIZE - n" "uc_data uc = bytes" using sz data b by simp_all
  let ?off = "unat addr - unat ?sp"
  have "take 8 (drop ?off bytes) = map (\<lambda>i. mem (addr + of_nat i)) [0..<8]"
  proof (rule nth_equalityI)
    show "length (take 8 (drop ?off bytes)) = length (map (\<lambda>i. mem (addr + of_nat i)) [0..<8])"
      using a size c(1-3) by simp
  next
    fix i
    assume "i < length (take 8 (drop ?off bytes))"
    then have i: "i < 8" "?off + i < STACK_SIZE - nat n" using a size c(1-3) by auto
    have "?sp + of_nat (?off + i) = addr + of_nat i" using a(1) by (simp add: of_nat_diff)
    then show "take 8 (drop ?off bytes) ! i = map (\<lambda>i. mem (addr + of_nat i)) [0..<8] ! i"
      using i c(3,4) by (auto simp del: of_nat_add)
  qed
  moreover have "0 < uc_size uc" "uc_size uc \<le> int (length (uc_data uc))" "length (uc_data uc) \<le> STACK_SIZE"
    using a size c(1-3) by auto
  ultimately show ?thesis using access_mem_stack [OF _ _ _ wrap a, of V m thread] size(2) by simp
qed

text \<open>A failing helper: nothing is submitted, and the hash changes at the key of this event only.\<close>

lemma fill_unwind_ctx_error:
  assumes "fill_unwind_ctx K ctx tracepoint attr user_regs stk k uc s = (r, s')" "r \<noteq> 0"
  shows "r = - 1 \<and> unwind_ctxs s' = unwind_ctxs s \<and> zero s' = zero s \<and> (\<forall>j. j \<noteq> k \<longrightarrow> bcache s' j = bcache s j)"
  using assms by (auto simp: fill_unwind_ctx_def Let_def simp del: not_less split: if_split_asm prod.splits)

lemma get_unwind_ctx_error:
  assumes "get_unwind_ctx K ctx tracepoint attr s = (r, s')" "r \<noteq> 0"
  shows "r = - 1 \<and> unwind_ctxs s' = unwind_ctxs s \<and> zero s' = zero s \<and>
    (\<forall>k. k \<noteq> (k_ktime K, k_pid_tgid K) \<longrightarrow> bcache s' k = bcache s k)"
proof -
  let ?k = "(k_ktime K, k_pid_tgid K)"
  consider "r = - 1" "s' = s"
    | stk z uc s1 where "lookup_or_init K ?k z s = Some (uc, s1)"
      "fill_unwind_ctx K ctx tracepoint attr (user_regs_of K ctx tracepoint) stk ?k uc s1 = (r, s')"
    using assms(1) by (auto simp: get_unwind_ctx_def Let_def split: if_splits option.splits prod.splits)
  then show ?thesis
  proof cases
    case 1
    then show ?thesis by simp
  next
    case 2
    from fill_unwind_ctx_error [OF 2(2) assms(2)] 2(1) show ?thesis
      by (auto simp: lookup_or_init_def split: option.splits if_splits)
  qed
qed

text \<open>A failed read of the registers leaves the entry of this event in the hash.\<close>

lemma get_unwind_ctx_leak:
  assumes "user_regs_of K ctx tracepoint \<noteq> NULL" "0 \<le> fst (k_probe_word K (user_regs_of K ctx tracepoint + 152))" "zero s = Some zuc" "k_room K"
    and "fst (k_probe_regs K (user_regs_of K ctx tracepoint)) < 0"
  shows "\<exists>s' uc. get_unwind_ctx K ctx tracepoint attr s = (- 1, s') \<and> bcache s' (k_ktime K, k_pid_tgid K) = Some uc"
proof -
  let ?r = "user_regs_of K ctx tracepoint" and ?k = "(k_ktime K, k_pid_tgid K)"
  obtain w stk g regs where "k_probe_word K (?r + 152) = (w, stk)" "\<not> w < 0" "k_probe_regs K ?r = (g, regs)" "g < 0"
    using assms(2,5) by (metis not_less prod.collapse)
  moreover obtain uc s1 where "lookup_or_init K ?k zuc s = Some (uc, s1)"
    using assms(4) by (cases "bcache s ?k") (auto simp: lookup_or_init_def)
  ultimately show ?thesis using assms(1,3) by (simp add: get_unwind_ctx_def fill_unwind_ctx_def Let_def)
qed

section \<open>Types of the fields\<close>

text \<open>A snapshot as \<^verbatim>\<open>struct unwind_ctx\<close> declares it: the name fits \<^verbatim>\<open>TASK_COMM_LEN\<close> with its terminator, the stack has \<^verbatim>\<open>STACK_SIZE\<close> bytes and the
  size counts some of them. The helpers respect the buffers they are given: the name and the stack have the lengths passed to
  them, and no more bytes are missing than were asked for.\<close>

definition typed_ctx :: "unwind_ctx \<Rightarrow> bool" where
  "typed_ctx uc \<longleftrightarrow> length (uc_name uc) < TASK_COMM_LEN \<and> 0 \<le> uc_size uc \<and> uc_size uc \<le> int STACK_SIZE \<and> length (uc_data uc) = STACK_SIZE"

definition typed_bpf :: "bpf_state \<Rightarrow> bool" where
  "typed_bpf s \<longleftrightarrow> (\<forall>uc \<in> set_option (zero s). typed_ctx uc) \<and> (\<forall>uc \<in> ran (bcache s). typed_ctx uc) \<and> (\<forall>(_, uc) \<in> set (unwind_ctxs s). typed_ctx uc)"

definition typed_kernel :: "kernel \<Rightarrow> bool" where
  "typed_kernel K \<longleftrightarrow> length (k_comm K) < TASK_COMM_LEN \<and>
     (\<forall>a. fst (k_probe_stack K a) \<le> int STACK_SIZE \<and> length (snd (k_probe_stack K a)) = STACK_SIZE)"

text \<open>The probes of one trace, each with the helpers of its moment.\<close>

type_synonym bpf_event = "kernel \<times> ptr \<times> bool \<times> ptr"

fun run_probes :: "bpf_event list \<Rightarrow> bpf_state \<Rightarrow> bpf_state" where
  "run_probes [] s = s"
| "run_probes ((K, ctx, tracepoint, attr) # es) s = run_probes es (snd (get_unwind_ctx K ctx tracepoint attr s))"

lemma typed_update: "typed_bpf s \<Longrightarrow> typed_ctx u \<Longrightarrow> typed_bpf (s\<lparr>bcache := (bcache s)(k \<mapsto> u)\<rparr>)"
  by (cases k) (force simp: typed_bpf_def ran_def split: if_splits)

lemma typed_fill:
  assumes "typed_kernel K" "typed_bpf s" "typed_ctx uc"
  shows "typed_bpf (snd (fill_unwind_ctx K ctx tracepoint attr user_regs stk k uc s))"
proof -
  have st: "fst (k_probe_stack K a) \<le> int STACK_SIZE" "length (snd (k_probe_stack K a)) = STACK_SIZE" for a
    using assms(1) by (simp_all add: typed_kernel_def)
  have del: "typed_bpf (s\<lparr>unwind_ctxs := unwind_ctxs s @ [(p, u)], bcache := (bcache s)(k := None)\<rparr>)" if "typed_ctx u" for p u
    using assms(2) that by (auto simp: typed_bpf_def ran_def)
  show ?thesis using assms(1,3) st
    by (auto simp: fill_unwind_ctx_def Let_def split_beta typed_kernel_def typed_ctx_def intro!: typed_update [OF assms(2)] del)
qed

lemma typed_get_unwind_ctx:
  assumes "typed_kernel K" "typed_bpf s"
  shows "typed_bpf (snd (get_unwind_ctx K ctx tracepoint attr s))"
proof -
  let ?k = "(k_ktime K, k_pid_tgid K)"
  have lk: "typed_ctx uc \<and> typed_bpf s1" if "lookup_or_init K ?k z s = Some (uc, s1)" "zero s = Some z" for z uc s1
    using that assms(2) typed_update [OF assms(2), of z ?k]
    by (auto simp: lookup_or_init_def typed_bpf_def ranI split: option.splits if_splits)
  show ?thesis using assms lk
    by (auto simp: get_unwind_ctx_def Let_def split_beta intro!: typed_fill split: option.splits)
qed

lemma typed_run_probes:
  "\<forall>(K, _) \<in> set es. typed_kernel K \<Longrightarrow> typed_bpf s \<Longrightarrow> typed_bpf (run_probes es s)"
  by (induction es s rule: run_probes.induct) (auto intro: typed_get_unwind_ctx)

text \<open>On a typed snapshot no address makes \<^verbatim>\<open>access_mem\<close> read outside \<^verbatim>\<open>data\<close>, not even one at which the bounds wrap around.\<close>

lemma typed_stack_bounds:
  fixes addr start :: u64
  assumes t: "typed_ctx uc" and a: "\<not> addr + 8 < addr" "\<not> addr < start" "\<not> addr + 8 \<ge> start + word_of_int (uc_size uc)"
  shows "unat (addr - start) + 8 \<le> length (uc_data uc)"
proof -
  let ?n = "nat (uc_size uc)"
  have n: "?n \<le> 8192" "word_of_int (uc_size uc) = (of_nat ?n :: u64)" using t by (auto simp: typed_ctx_def STACK_SIZE_def)
  have a8: "unat (addr + 8) = unat addr + 8"
    using a(1) unat_plus_simple [of addr 8] by (simp add: not_less)
  have "unat (of_nat ?n :: u64) = ?n" using n(1) by (simp add: unat_of_nat take_bit_nat_eq_self)
  then have "unat (start + of_nat ?n) \<le> unat start + ?n" unfolding unat_word_ariths(1) by (simp only: mod_less_eq_dividend)
  then have "unat addr + 8 < unat start + ?n" using a(3) a8 n(2) by (simp add: word_le_nat_alt)
  moreover have "unat (addr - start) = unat addr - unat start" using a(2) by (simp add: unat_sub word_le_nat_alt word_less_nat_alt)
  ultimately show ?thesis using a(2) t by (auto simp: typed_ctx_def word_less_nat_alt)
qed

lemma typed_access_mem:
  assumes t: "typed_ctx uc" and d: "access_dso_mem V m thread addr \<noteq> None"
  shows "access_mem V m thread uc addr write' \<noteq> None"
proof -
  obtain ret v m' where "access_dso_mem V m thread addr = Some (ret, v, m')" using d by auto
  then show ?thesis using typed_stack_bounds [OF t, of addr "sp (uc_uregs uc)"]
    by (auto simp: access_mem_def Let_def reg_value_spec [of _ X86_SP] simp del: x86_num.simps)
qed

end
