(* ===== verification/Unwind_Spec.thy ===== *)
theory Unwind_Spec
  imports Machine_Spec Bpf_Ctx
begin

text \<open>
  What the callbacks of \<^verbatim>\<open>src/unwind_libunwind.c\<close> promise to libunwind, what the walk over the frames
  promises to the caller of the library, and that the snapshots of the eBPF program are what the callbacks read.
\<close>

section \<open>Registers\<close>

text \<open>
  C22. \<^verbatim>\<open>access_reg\<close> delivers the register libunwind asks for: through the two tables (libunwind's number to the
  library's number, the library's number to the offset in \<^verbatim>\<open>struct pt_regs\<close>) each of the 17 numbers reads the field
  with that register's name, and a number outside the table never returns, because \<^verbatim>\<open>-EINVAL\<close> is used as an index and the
  assertion of \<^verbatim>\<open>reg_value\<close> fails.
\<close>

theorem access_reg_reads_field:
  "access_reg V uc n False = (case map_of (unw_regs_list (env_regs V)) n of
     Some k \<Rightarrow> map_option (\<lambda>v. (0, Some v)) (reg_spec k (uc_uregs uc))
   | None \<Rightarrow> None)"
  by (rule access_reg_spec)

text \<open>
  \<^verbatim>\<open>reg_value\<close> is total exactly on the registers the snapshot holds: for each of the 24 register numbers it reads the
  field of that name, the four data segment registers read outside the structure, and every other index is refused.
\<close>

lemma reg_value_fields:
  "reg_value regs (x86_num k) = reg_spec k regs \<and>
   (reg_value regs (x86_num k) = None \<longleftrightarrow> k \<in> {X86_DS, X86_ES, X86_FS, X86_GS}) \<and>
   (\<forall>idx. - (2 ^ 31) \<le> idx \<and> idx < 2 ^ 31 \<and> (idx < 0 \<or> X86_MAX \<le> idx) \<longrightarrow> reg_value regs idx = None)"
  using reg_value_spec [of regs k] reg_value_out [of _ regs] by (cases k) auto

definition sample_regs :: pt_regs where
  "sample_regs = \<lparr>r15 = 15, r14 = 14, r13 = 13, r12 = 12, bp = 5, bx = 6, r11 = 11, r10 = 10, r9 = 9, r8 = 8, ax = 1, cx = 2, dx = 3,
     si = 4, di = 7, orig_ax = 0, ip = 0x1008, cs = 0x33, flags = 0x246, sp = 0x7000, ss = 0x2b\<rparr>"

section \<open>Encoded values\<close>

text \<open>
  C29. Reading an encoded value stays within the buffer: when \<^verbatim>\<open>__dw_read_encoded_value\<close> succeeds it has advanced by 0, 4 or 8
  bytes and not beyond the end; when it fails, it fails with \<^verbatim>\<open>-EINVAL\<close>.
\<close>

theorem encoded_value_in_bounds:
  assumes "pos \<le> lim"
  shows "case uu_dw_read_encoded_value base buf lim pos enc of
      Inr (v, pos') \<Rightarrow> pos' \<in> {pos, pos + 4, pos + 8} \<and> pos' \<le> lim
    | Inl e \<Rightarrow> e = - EINVAL"
proof (cases "uu_dw_read_encoded_value base buf lim pos enc")
  case (Inl e)
  then show ?thesis using encoded_value_error by auto
next
  case (Inr r)
  then show ?thesis using encoded_value_bounds [of base buf lim pos enc "fst r" "snd r"] assms by (cases r) auto
qed

theorem encoded_value_in_bounds_witness:
  "uu_dw_read_encoded_value 0 [1, 2, 3, 4] 4 2 0x03 = Inl (- EINVAL) \<and>
   (case uu_dw_read_encoded_value 0 [1, 2, 3, 4] 4 0 0x03 of Inr (v, pos') \<Rightarrow> pos' \<in> {0, 4, 8} \<and> pos' \<le> 4 | Inl e \<Rightarrow> e = - EINVAL)"
  using encoded_value_in_bounds [of 0 4 0 "[1, 2, 3, 4]" 3] by (simp add: uu_dw_read_encoded_value_def dw_read_def)

text \<open>
  C28. Decoding inverts encoding: the little-endian bytes of a value, written in the format the encoding byte names
  (\<^verbatim>\<open>DW_EH_PE_ptr\<close>, \<^verbatim>\<open>DW_EH_PE_udata4\<close>, \<^verbatim>\<open>DW_EH_PE_udata8\<close>, or pc-relative \<^verbatim>\<open>DW_EH_PE_sdata4\<close>), are read back as that value (the
  pc-relative one added to the address it was read from, sign-extended to 64 bits), with the position after it.
\<close>

theorem encoded_value_roundtrip:
  assumes "pos + 8 \<le> lim"
  shows "(take 8 (drop pos buf) = le_bytes 8 w \<longrightarrow> uu_dw_read_encoded_value base buf lim pos 0x00 = Inr (w, pos + 8) \<and>
      uu_dw_read_encoded_value base buf lim pos 0x04 = Inr (w, pos + 8)) \<and>
    (take 4 (drop pos buf) = le_bytes 4 (ucast (v :: u32)) \<longrightarrow>
      uu_dw_read_encoded_value base buf lim pos 0x03 = Inr (ucast v, pos + 4)) \<and>
    (take 4 (drop pos buf) = le_bytes 4 (scast v) \<longrightarrow>
      uu_dw_read_encoded_value base buf lim pos 0x1b = Inr (base + of_nat pos + scast v, pos + 4))"
proof -
  have "take_bit 32 (ucast v :: u64) = ucast v" 
    by (rule bit_word_eqI) (auto simp: bit_take_bit_iff bit_unsigned_iff dest: bit_imp_le_length)
  then show ?thesis
    using assms decode_ptr [of pos buf w lim base] decode_udata8 [of pos buf w lim base] decode_udata4 [of pos buf "ucast v" lim base]
      decode_pcrel_sdata4 [of pos buf v lim base] by simp
qed

theorem encoded_value_roundtrip_witness:
  "uu_dw_read_encoded_value 0x1000 [0xfe, 0xff, 0xff, 0xff, 0, 0, 0, 0] 8 0 0x1b = Inr (0x1000 + scast (- 2 :: u32), 4)"
proof -
  have "take 4 (drop 0 [0xfe, 0xff, 0xff, 0xff, 0, 0, 0, 0]) = le_bytes 4 (scast (- 2 :: u32))" by code_simp
  then show ?thesis using encoded_value_roundtrip [of 0 8 "[0xfe, 0xff, 0xff, 0xff, 0, 0, 0, 0]" 0 "0x1000" "- 2"] by simp
qed

section \<open>Memory\<close>

definition sample_ctx :: unwind_ctx where
  "sample_ctx = \<lparr>uc_ts = 0, uc_tid = 7, uc_tgid = 7, uc_uregs = sample_regs, uc_name = ''app'', uc_size = 16,
     uc_data = [1, 0, 0, 0, 0, 0, 0, 0, 2, 0, 0, 0, 0, 0, 0, 0]\<rparr>"


text \<open>Thread 3 with a map at 0x1000 of a file that has a table of five entries at offset 8.\<close>

definition table_file :: "u8 list" where
  "table_file = [0, 0, 0, 0, 0, 0, 0, 0, 1, 0x1b, 0x03, 0x3b, 0, 0, 0, 0, 5, 0, 0, 0, 0, 0, 0, 0, 0, 0, 0, 0]"

definition sample_dso :: dso where
  "sample_dso = dso_zero\<lparr>d_long_name := ''lib'', d_name := ''lib'', d_data := fresh_data\<lparr>eh_frame_hdr_offset := 8\<rparr>\<rparr>"

definition unwinding :: machine_state where
  "unwinding = blank_machine\<lparr>next_addr := 9, thread_st := [3 \<mapsto> sample_thread In_tree 5 2], dso_st := [8 \<mapsto> sample_dso],
     map_st := [6 \<mapsto> (sample_map 0x1000 5)\<lparr>m_dso := 8\<rparr>],
     maps_st := [5 \<mapsto> \<lparr>ms_entries = Node Leaf Black 6 Leaf, ms_head = [6], ms_lock = Free, ms_refcnt = 1\<rparr>]\<rparr>"

definition sample_env :: env where
  "sample_env = \<lparr>env_os = sample_os table_file, env_elf = (\<lambda>fd. None), env_hdr_addr = 0, env_search = (\<lambda>pc di. int (unat (di_table_len di))),
     env_regs = \<lparr>UNW_X86_64_RAX = 0, UNW_X86_64_RDX = 1, UNW_X86_64_RCX = 2, UNW_X86_64_RBX = 3, UNW_X86_64_RSI = 4, UNW_X86_64_RDI = 5,
       UNW_X86_64_RBP = 6, UNW_X86_64_RSP = 7, UNW_X86_64_R8 = 8, UNW_X86_64_R9 = 9, UNW_X86_64_R10 = 10, UNW_X86_64_R11 = 11,
       UNW_X86_64_R12 = 12, UNW_X86_64_R13 = 13, UNW_X86_64_R14 = 14, UNW_X86_64_R15 = 15, UNW_X86_64_RIP = 16\<rparr>\<rparr>"

lemma unwinding_simps [simp]:
  "thread_st unwinding = [3 \<mapsto> sample_thread In_tree 5 2]" "dso_st unwinding = [8 \<mapsto> sample_dso]"
  "map_st unwinding = [6 \<mapsto> (sample_map 0x1000 5)\<lparr>m_dso := 8\<rparr>]"
  "maps_st unwinding = [5 \<mapsto> \<lparr>ms_entries = Node Leaf Black 6 Leaf, ms_head = [6], ms_lock = Free, ms_refcnt = 1\<rparr>]"
  "singlethreaded unwinding = False" "env_os sample_env = sample_os table_file" "d_long_name sample_dso = ''lib''"
  "eh_frame_hdr_offset (d_data sample_dso) = 8" "length table_file = 28"
  by (simp_all add: unwinding_def blank_machine_def sample_env_def sample_dso_def table_file_def)

lemma unwinding_find: "find_map unwinding 3 0x1004 = Some (6, unwinding)"
proof -
  have "maps_ok unwinding 5 \<lparr>ms_entries = Node Leaf Black 6 Leaf, ms_head = [6], ms_lock = Free, ms_refcnt = 1\<rparr>"
    by (simp add: maps_ok_def rb_ok_def in_maps_def sample_map_def)
  from maps_find_value(1) [of unwinding 5, OF _ this, of 6 "0x1004"] show ?thesis
    by (simp add: find_map_def sample_thread_def disjoint_maps_def contains_def sample_map_def)
qed

lemma unwinding_data: "dso_ok (sample_os table_file) ''lib'' table_file (d_data sample_dso)"
  by (simp add: dso_ok_def cache_ok_def sample_dso_def fresh_data_def rb_ok_def)


section \<open>Unwind tables\<close>

text \<open>
  C30. \<^verbatim>\<open>elf_section_offset\<close> finds the first section with the name and answers 0 when there is none, the ELF header cannot be
  read or the name table is missing.
\<close>

theorem section_offset_first:
  "elf_section_offset elf_begin fd0 name = (case elf_begin fd0 of
     None \<Rightarrow> 0
   | Some e \<Rightarrow> (case filter (\<lambda>(n, off). n = Some name) (elf_scns e) of
       (n, off) # _ \<Rightarrow> if elf_ehdr e \<and> elf_names e then off else 0
     | [] \<Rightarrow> 0))"
proof -
  have loop: "section_loop name cnt scns =
      (case filter (\<lambda>(n, off). n = Some name) scns of (n, off) # _ \<Rightarrow> Some (cnt + length (takeWhile (\<lambda>(n, off). n \<noteq> Some name) scns), off) | [] \<Rightarrow> None)"
    for cnt and scns :: "(string option \<times> u64) list"
    by (induction name cnt scns rule: section_loop.induct) (auto simp: strcmp_order split: option.splits list.splits)
  show ?thesis
    by (simp add: elf_section_offset_def elf_section_by_name_def loop split: option.split list.split)
qed



section \<open>The walk\<close>

text \<open>
  C6. \<^verbatim>\<open>get_entries\<close> delivers the call chain: on an initialised trace with room for \<open>depth\<close> entries and a cursor that
  initialises, it returns 0 and stores the sampled instruction pointer followed by the instruction pointers of the frames the cursor
  steps through (each decremented unless it is a signal frame), at most \<open>depth\<close> in all; \<^verbatim>\<open>depth\<close> becomes the number of
  entries stored, and the rest of the array and its length stay as they were. The walk ends even if the cursor could step for ever.
\<close>

theorem call_chain_correct:
  assumes t: "thread_st s thread = Some t" "t_addr_space t \<noteq> 0"
    and st: "st_ips tr = Some ips" "1 \<le> st_depth tr" "st_depth tr \<le> int (length ips)"
    and init: "unw_init_remote U s = (0, c, s1)"
    and fs: "frame_list U (nat (st_depth tr - 1)) c s1 = (fs, s2)"
  shows "get_entries U s thread uc (Some tr) =
      Some (0, Some (tr\<lparr>st_ips := Some (ip (uc_uregs uc) # fs @ drop (Suc (length fs)) ips), st_depth := 1 + int (length fs)\<rparr>), s2) \<and>
    1 + int (length fs) \<le> st_depth tr \<and> length (ip (uc_uregs uc) # fs @ drop (Suc (length fs)) ips) = length ips"
proof -
  note r = get_entries_spec [OF t st init fs, of uc]
  with st(2,3) show ?thesis by (cases ips) auto
qed

text \<open>A cursor that steps \<open>n\<close> times.\<close>

definition counting_cursor :: "nat \<Rightarrow> (nat, machine_state) cursor_ops" where
  "counting_cursor n = \<lparr>unw_init_remote = (\<lambda>s. (0, n, s)), unw_step = (\<lambda>c s. (if c = 0 then 0 else 1, c - 1, s)),
     unw_get_ip = (\<lambda>c. 0x2001 + of_nat c), unw_is_signal_frame = (\<lambda>c. 0)\<rparr>"

theorem call_chain_correct_witness:
  "get_entries (counting_cursor 5) unwinding 3 sample_ctx (Some \<lparr>st_depth = 3, st_ips = Some [0, 0, 0, 9]\<rparr>) =
     Some (0, Some \<lparr>st_depth = 3, st_ips = Some [0x1008, 0x2004, 0x2003, 9]\<rparr>, unwinding)"
proof -
  have f: "frame_list (counting_cursor 5) 2 5 unwinding = ([0x2004, 0x2003], unwinding)"
    by (simp add: frame_list.simps [of _ 2] frame_list.simps [of _ 1] frame_list.simps [of _ "Suc 0"] frame_list.simps [of _ 0] counting_cursor_def)
  have t: "thread_st unwinding 3 = Some (sample_thread In_tree 5 2)" "t_addr_space (sample_thread In_tree 5 2) \<noteq> 0"
    by (simp_all add: sample_thread_def)
  have i: "unw_init_remote (counting_cursor 5) unwinding = (0, 5, unwinding)" by (simp add: counting_cursor_def)
  have "ip (uc_uregs sample_ctx) = 0x1008" by (simp add: sample_ctx_def sample_regs_def)
  then show ?thesis
    using call_chain_correct [OF t, of "\<lparr>st_depth = 3, st_ips = Some [0, 0, 0, 9]\<rparr>" "[0, 0, 0, 9]", OF _ _ _ i, of "[0x2004, 0x2003]" unwinding] f
    by simp
qed

text \<open>
  A call with an unusable trace is refused before anything is read: without a trace, without an array or with a depth
  below 1 \<^verbatim>\<open>get_entries\<close> returns the positive number \<^verbatim>\<open>EINVAL\<close> and changes nothing; without an address space it
  returns \<open>-1\<close> after storing the sampled instruction pointer only.
\<close>

lemma call_chain_errors:
  "get_entries U s thread uc None = Some (EINVAL, None, s) \<and>
   (st_ips tr = None \<or> st_depth tr < 1 \<longrightarrow> get_entries U s thread uc (Some tr) = Some (EINVAL, Some tr, s)) \<and>
   (st_ips tr = Some (x # xs) \<and> 1 \<le> st_depth tr \<and> map_option t_addr_space (thread_st s thread) = Some 0 \<longrightarrow>
      get_entries U s thread uc (Some tr) = Some (- 1, Some (tr\<lparr>st_ips := Some (ip (uc_uregs uc) # xs)\<rparr>), s))"
  using reg_value_spec [of "uc_uregs uc" X86_IP] by (auto simp: get_entries_def split: option.split)

section \<open>Snapshots\<close>

text \<open>
  C23. From the traced process to the unwinder: when the helpers succeed, \<^verbatim>\<open>get_unwind_ctx\<close> submits one snapshot with the time, the ids,
  the name and the registers of the task (the stack pointer lowered by 16 for a probe in kernel mode), leaves no entry of the event in
  the hash, and \<^verbatim>\<open>access_mem\<close> of the library on that snapshot returns the little-endian word that the memory of the process held at the address,
  for every address between the stack pointer and the last eight of the captured bytes.
\<close>

theorem snapshot_correct:
  assumes "regs_at K (user_regs_of K ctx tracepoint) regs" "zero s = Some zuc" "k_room K" and mem: "copies_stack K mem"
  shows "\<exists>uc s'. get_unwind_ctx K ctx tracepoint attr s = (0, s') \<and>
    unwind_ctxs s' = unwind_ctxs s @ [(if tracepoint then attr else ctx, uc)] \<and>
    bcache s' = (bcache s)((k_ktime K, k_pid_tgid K) := None) \<and>
    uc_ts uc = k_ktime K \<and> uc_tgid uc = ucast (drop_bit 32 (k_pid_tgid K)) \<and> uc_tid uc = ucast (k_pid_tgid K) \<and> uc_name uc = k_comm K \<and>
    uc_uregs uc = regs\<lparr>sp := snapshot_sp K ctx tracepoint regs\<rparr> \<and> 0 \<le> uc_size uc \<and> uc_size uc \<le> int STACK_SIZE \<and>
    (\<forall>V (m :: machine_state) thread addr. unat (sp (uc_uregs uc)) + nat (uc_size uc) < 2 ^ 64 \<and>
       unat (sp (uc_uregs uc)) \<le> unat addr \<and> unat addr + 8 < unat (sp (uc_uregs uc)) + nat (uc_size uc) \<longrightarrow>
       access_mem V m thread uc addr False = Some (0, Some (le_word (map (\<lambda>i. mem (addr + of_nat i)) [0..<8])), m))"
proof -
  let ?sp = "snapshot_sp K ctx tracepoint regs"
  obtain uc s' where u: "get_unwind_ctx K ctx tracepoint attr s = (0, s')" "unwind_ctxs s' = unwind_ctxs s @ [(if tracepoint then attr else ctx, uc)]"
      "bcache s' = (bcache s)((k_ktime K, k_pid_tgid K) := None)" "uc_ts uc = k_ktime K" "uc_tgid uc = ucast (drop_bit 32 (k_pid_tgid K))"
      "uc_tid uc = ucast (k_pid_tgid K)" "uc_name uc = k_comm K" "uc_uregs uc = regs\<lparr>sp := ?sp\<rparr>"
      "uc_size uc = int STACK_SIZE - fst (k_probe_stack K ?sp)" "uc_data uc = snd (k_probe_stack K ?sp)"
    using get_unwind_ctx_ok [OF assms, of attr] by blast
  have e: "?sp = sp (uc_uregs uc)" using u(8) by simp
  have "0 \<le> uc_size uc" "uc_size uc \<le> int STACK_SIZE"
    using copies_stackD(1,2) [OF mem, of ?sp] u(9) by (cases "k_probe_stack K ?sp"; simp)+
  with u(1-8) snapshot_bytes [OF mem u(9,10) [unfolded e]] show ?thesis by blast
qed

definition sample_kernel :: kernel where
  "sample_kernel = \<lparr>k_user_mode = (\<lambda>a. True), k_task_mm = True, k_task_sp0 = 0x9000, k_probe_word = (\<lambda>a. (0, sp sample_regs)),
     k_probe_regs = (\<lambda>a. (0, sample_regs)), k_ktime = 5, k_pid_tgid = 0x700000009, k_comm = ''app'',
     k_probe_stack = (\<lambda>a. (0, map (\<lambda>i. ucast (a + of_nat i)) [0..<STACK_SIZE])), k_room = True\<rparr>"

definition sample_bpf :: bpf_state where
  "sample_bpf = \<lparr>zero = Some sample_ctx, bcache = Map.empty, unwind_ctxs = []\<rparr>"

lemma sample_kernel_ok: "regs_at sample_kernel (user_regs_of sample_kernel 64 tracepoint) sample_regs" "copies_stack sample_kernel ucast"
  by (simp_all add: regs_at_def user_regs_of_def copies_stack_def sample_kernel_def)

theorem snapshot_correct_witness:
  "\<exists>uc s'. get_unwind_ctx sample_kernel 64 False 0 sample_bpf = (0, s') \<and> unwind_ctxs s' = [(64, uc)] \<and> bcache s' = Map.empty \<and>
     uc_tgid uc = 7 \<and> uc_tid uc = 9 \<and> uc_uregs uc = sample_regs"
  using snapshot_correct [where s = sample_bpf and zuc = sample_ctx and attr = 0, OF sample_kernel_ok(1) [of False] _ _ sample_kernel_ok(2)]
  by (auto simp: sample_kernel_def sample_bpf_def snapshot_sp_def)



text \<open>
  C24. The fields keep the types \<^verbatim>\<open>struct unwind_ctx\<close> declares: whatever probes fire in a trace and whichever helpers fail in them, every
  snapshot in the array, in the hash and in the perf buffer has a name that fits its array with the terminator, a stack of exactly \<^verbatim>\<open>STACK_SIZE\<close> bytes and
  a size that counts some of these; and on every snapshot of the perf buffer \<^verbatim>\<open>access_mem\<close> reads inside the captured stack for every address, wrap-around of the bounds
  included, so that it only fails to return where the read of a file does.
\<close>

theorem snapshots_typed:
  assumes "typed_bpf s" "\<forall>(K, _) \<in> set es. typed_kernel K"
  shows "typed_bpf (run_probes es s) \<and> (\<forall>(p, uc) \<in> set (unwind_ctxs (run_probes es s)). typed_ctx uc \<and>
    (\<forall>V (m :: machine_state) thread addr. access_dso_mem V m thread addr \<noteq> None \<longrightarrow> access_mem V m thread uc addr False \<noteq> None))"
proof -
  have t: "typed_bpf (run_probes es s)" using assms(2,1) by (rule typed_run_probes)
  then have "typed_ctx uc" if "(p, uc) \<in> set (unwind_ctxs (run_probes es s))" for p uc
    using that by (auto simp: typed_bpf_def)
  then show ?thesis using t typed_access_mem by blast
qed

definition empty_bpf :: bpf_state where
  "empty_bpf = \<lparr>zero = Some (sample_ctx\<lparr>uc_size := 0, uc_data := replicate STACK_SIZE 0\<rparr>), bcache = Map.empty, unwind_ctxs = []\<rparr>"

definition sample_probes :: "bpf_event list" where
  "sample_probes = [(sample_kernel, 64, False, 0), (sample_kernel\<lparr>k_probe_regs := (\<lambda>a. (- 14, sample_regs))\<rparr>, 64, True, 1)]"

theorem snapshots_typed_witness:
  "length (uc_name sample_ctx) < TASK_COMM_LEN \<and> typed_bpf (run_probes sample_probes empty_bpf)"
proof -
  have n: "length (uc_name sample_ctx) < TASK_COMM_LEN" by (simp add: sample_ctx_def TASK_COMM_LEN_def)
  then have "typed_bpf empty_bpf" by (simp add: typed_bpf_def typed_ctx_def empty_bpf_def)
  moreover have "\<forall>(K, _) \<in> set sample_probes. typed_kernel K"
    by (simp add: sample_probes_def typed_kernel_def sample_kernel_def TASK_COMM_LEN_def)
  ultimately show ?thesis using snapshots_typed [of empty_bpf sample_probes] n by blast
qed

end
