(* ===== verification/Threads_Spec.thy ===== *)
theory Threads_Spec
  imports Refcount_Threads Parallel_Example Resolve_Task Unwind_Spec
begin

text \<open>
  What the atomic operations and the reference counts promise to several threads, and what they do not; and the example that
  resolves call chains in parallel.
\<close>

section \<open>Reference counts under interleaving\<close>

text \<open>C13. Several threads get and put references to one object, their steps interleaved in any order that the references they
  own allow, with fewer than \<open>2 ^ 32\<close> references in all. At every moment the counter is the number of references; while a
  reference is owned the object is not deleted; once all references are gone and no put is half done it has been deleted; and no
  thread deletes it more than once.\<close>

theorem refcount_interleaved:
  assumes "rc_start s" "total_owned s + gets es < 2 ^ 32" "rc_run es s = Some s'"
  shows "rc_refs s' = of_nat (total_owned s') \<and> (0 < total_owned s' \<longrightarrow> rc_frees s' = 0) \<and>
    (total_owned s' = 0 \<and> (\<forall>w\<in>set (rc_workers s'). \<not> testing w) \<longrightarrow> 0 < rc_frees s') \<and> rc_frees s' \<le> length (rc_workers s)"
  using rc_run_ok [OF rc_start_ok [OF assms(1)] assms(3,2)] by (auto simp: rc_ok_def)

text \<open>Two threads with a reference each: the first is between the two steps of its put while the second takes and puts a
  further one.\<close>

definition mixed_run :: "rc_event list" where
  "mixed_run = [Sub 0, Get 1 1, Sub 1, Test 0, Test 1, Sub 1, Test 1]"

definition mixed_end :: rc_state where
  "mixed_end = \<lparr>rc_refs = 0, rc_workers = [Running 0, Running 0], rc_frees = 1, rc_late = 0\<rparr>"

lemmas rc_eval = get_step_def sub_step_def test_step_def access_refs_def refcount_inc_def one_each_def numeral_2_eq_2 Let_def

lemma mixed_run_end: "rc_run mixed_run (one_each 2) = Some mixed_end"
  by (simp add: mixed_run_def mixed_end_def rc_eval)

lemma one_each_total: "total_owned (one_each n) = n"
  by (simp add: one_each_def total_owned_def sum_list_replicate)

theorem refcount_interleaved_witness: "total_owned mixed_end = 0 \<and> 0 < rc_frees mixed_end \<and> rc_frees mixed_end \<le> 2"
proof -
  have "total_owned mixed_end = 0 \<and> (\<forall>w\<in>set (rc_workers mixed_end). \<not> testing w)" "length (rc_workers (one_each 2)) = 2"
    by (simp_all add: mixed_end_def one_each_def total_owned_def)
  then show ?thesis using refcount_interleaved [of "one_each 2" mixed_run mixed_end, OF one_each_start _ mixed_run_end]
    by (simp add: one_each_total) (simp add: mixed_run_def)
qed

text \<open>C14. When the two steps of every put follow each other, as for a thread that runs alone or under a lock, the count is
  exact: the object is deleted once, with the last reference, and its counter is never accessed afterwards.\<close>

theorem refcount_serial_exact:
  assumes "rc_start s" "total_owned s + gets es < 2 ^ 32" "serial es" "rc_run es s = Some s'"
  shows "rc_frees s' = (if total_owned s' = 0 then 1 else 0) \<and> rc_late s' = 0"
  using serial_quiet [OF rc_start_quiet [OF assms(1)] assms(3,4,2)] by (simp add: rc_quiet_def)

definition serial_run :: "rc_event list" where
  "serial_run = [Sub 0, Test 0, Get 1 0, Sub 1, Test 1, Sub 0, Test 0]"

lemma serial_run_end: "rc_run serial_run (one_each 2) = Some mixed_end"
  by (simp add: serial_run_def mixed_end_def rc_eval)

theorem refcount_serial_exact_witness: "total_owned mixed_end = 0 \<and> rc_frees mixed_end = 1 \<and> rc_late mixed_end = 0"
proof -
  have "total_owned mixed_end = 0" by (simp add: mixed_end_def total_owned_def)
  moreover have "rc_frees mixed_end = (if total_owned mixed_end = 0 then 1 else 0) \<and> rc_late mixed_end = 0"
    by (rule refcount_serial_exact [of "one_each 2" serial_run])
      (simp_all add: one_each_start one_each_total serial_run_end, simp_all add: serial_run_def)
  ultimately show ?thesis by simp
qed

text \<open>C15. Without that restriction the count is not exact: for any number of threads that own one reference each there is an
  order of their steps in which every one of them finds the counter zero and deletes the object. For two or more threads
  \<^verbatim>\<open>refcount_dec_and_test\<close> so allows the object to be deleted twice.\<close>

theorem refcount_repeated_delete:
  "0 < n \<Longrightarrow> rc_start (one_each n) \<and> (\<exists>es s'. gets es = 0 \<and> rc_run es (one_each n) = Some s' \<and> rc_frees s' = n)"
proof -
  have "gets (map Sub xs @ ys) = gets ys" "gets (map Test xs) = 0" for xs ys
    by (induction xs) simp_all
  then have "gets (map Sub [0..<n] @ map Test [0..<n]) = 0" by simp
  then show "0 < n \<Longrightarrow> ?thesis" using overlapping_puts [of n] one_each_start [of n] by blast
qed

theorem refcount_repeated_delete_witness: "\<exists>es s'. rc_run es (one_each 2) = Some s' \<and> rc_frees s' = 2"
  using refcount_repeated_delete [of 2] by auto

section \<open>The fallback of the atomic operations\<close>

text \<open>The fallback of \<^verbatim>\<open>stdatomic.h\<close> for compilers without the newer built-ins computes, for objects of every width, the same
  result, the same object and the same \<^verbatim>\<open>*expected\<close> as the operations it replaces, and fails on the same null pointer;
  its weak compare-and-exchange is one that never fails spuriously, and its load, an addition of zero, changes nothing.\<close>

lemma atomic_fallback_equivalent:
  fixes v :: "'a::len word"
  shows "sync_compare_exchange_strong_explicit v e d su fa = atomic_compare_exchange_strong_explicit v e d su fa \<and>
    sync_compare_exchange_weak_explicit v e d su fa = atomic_compare_exchange_weak_explicit False v e d su fa \<and>
    sync_exchange_explicit v x ord = atomic_exchange_explicit v x ord \<and>
    sync_fetch_add_explicit v x ord = atomic_fetch_add_explicit v x ord \<and>
    sync_fetch_sub_explicit v x ord = atomic_fetch_sub_explicit v x ord \<and>
    sync_fetch_and_explicit v x ord = atomic_fetch_and_explicit v x ord \<and>
    sync_fetch_or_explicit v x ord = atomic_fetch_or_explicit v x ord \<and>
    sync_fetch_xor_explicit v x ord = atomic_fetch_xor_explicit v x ord \<and>
    sync_load_explicit v ord = atomic_load_explicit v ord \<and> sync_store_explicit v x ord = atomic_store_explicit v x ord"
  by (simp only: sync_compare_exchange sync_operations)

section \<open>Resolving in parallel\<close>


text \<open>One resolver and one event: the resolver waits, the event is pushed, the resolver is woken and takes it.\<close>

definition sample_run :: "(pipeline \<Rightarrow> pipeline option) list" where
  "sample_run = [resolver_step 0, pop_step 0, pop_step 0, poll_loop_step, poll_deliver_step 7, push_step, push_step, push_step,
     notify_step (Some 0), pop_step 0, pop_step 0, poll_return_step, stop_step, poll_loop_step]"

lemma sample_run_ends:
  "case pl_run sample_run (pipeline_start 1 [sample_ctx]) of Some s \<Rightarrow> pl_events s = [] \<and> pl_poller s = Poll_done \<and> pl_queue s = [] | None \<Rightarrow> False"
  by (simp add: sample_run_def pipeline_start_def resolver_step_def pop_step_def push_step_def notify_step_def poll_loop_step_def
    poll_deliver_step_def poll_return_step_def set_resolver_def stopRequested_def unwind_ctx_handler_def stop_step_def traced_def sample_ctx_def)

lemma sample_run_steps: "\<forall>f\<in>set sample_run. \<forall>a b. f a = Some b \<longrightarrow> pl_step 7 a b"
  by (auto simp: sample_run_def intro: pl_step.intros)


text \<open>C17. The request to stop does not reach a resolver inside \<^verbatim>\<open>pop\<close>. Once the poller has stopped and the queue is empty, a resolver that
  is inside \<^verbatim>\<open>pop\<close> stays there for ever, spurious wake-ups included, and \<^verbatim>\<open>main\<close> never gets past joining the threads; and for any number of resolvers the signal handler can
  run to its end in such a state, without any event having occurred.\<close>

theorem stop_strands_resolvers:
  "(\<exists>s. pl_steps tgid (pipeline_start (Suc n) []) s \<and> (\<forall>k \<le> Suc n. stopRequested k s) \<and> stranded 0 s) \<and>
   (\<forall>i s s'. stranded i s \<and> pl_steps tgid s s' \<longrightarrow> in_pop (pl_resolvers s' ! i) \<and> \<not> joined s')"
proof (intro conjI allI impI)
  show "\<exists>s. pl_steps tgid (pipeline_start (Suc n) []) s \<and> (\<forall>k \<le> Suc n. stopRequested k s) \<and> stranded 0 s" by (rule stop_can_strand)
next
  fix i s s'
  assume "stranded i s \<and> pl_steps tgid s s'"
  then have "stranded i s'" using stranded_steps by blast
  then show "in_pop (pl_resolvers s' ! i)" "\<not> joined s'" using stranded_not_joined by (simp_all add: stranded_def)
qed

definition stranded_sample :: pipeline where
  "stranded_sample = (pipeline_start 4 [])\<lparr>pl_stopped := 5, pl_poller := Poll_done, pl_resolvers := [Pop_wait, Resolver_done, Resolver_done, Resolver_done]\<rparr>"

theorem stop_strands_resolvers_witness:
  "stranded 0 stranded_sample \<and> pl_steps 7 stranded_sample (set_resolver 0 Pop_woken stranded_sample) \<and>
     in_pop (pl_resolvers (set_resolver 0 Pop_woken stranded_sample) ! 0) \<and> \<not> joined (set_resolver 0 Pop_woken stranded_sample)"
proof -
  have a: "stranded 0 stranded_sample" by (simp add: stranded_def stranded_sample_def pipeline_start_def)
  have "spurious_step 0 stranded_sample = Some (set_resolver 0 Pop_woken stranded_sample)"
    by (simp add: spurious_step_def stranded_sample_def)
  then have "pl_step 7 stranded_sample (set_resolver 0 Pop_woken stranded_sample)" by (rule pl_step.spurious)
  then have "pl_steps 7 stranded_sample (set_resolver 0 Pop_woken stranded_sample)" by (rule pl_steps.more [OF pl_steps.none])
  then show ?thesis using a stop_strands_resolvers [of 7 3] by blast
qed

text \<open>C18. A resolver of the examples prints chains that never get longer: each call lowers the depth of the one trace that all snapshots
  share to the length of the chain it found, and nothing raises it again. Every chain has at least the sampled instruction pointer and
  at most the depth the user asked for, but after one short chain all later ones are cut to its length.\<close>

theorem resolved_chains_shrink:
  assumes "1 \<le> st_depth st" "st_ips st = Some ips" "st_depth st \<le> int (length ips)"
    and "resolve_loop lib U st s ucs = Some (r, outs, st', s')"
  shows "(\<forall>chain\<in>set outs. 1 \<le> length chain \<and> int (length chain) \<le> st_depth st) \<and> sorted_wrt (\<lambda>a b. length b \<le> length a) outs"
proof -
  have "roomy st" using assms(1-3) by (simp add: roomy_def)
  then show ?thesis using assms(4) by (rule resolve_loop_depths)
qed

text \<open>A snapshot with a chain of two frames and then one with six, for a depth of four: three addresses are printed for both.\<close>

definition two_snapshots :: "unwind_ctx list" where
  "two_snapshots = [sample_ctx, sample_ctx\<lparr>uc_ts := 1\<rparr>]"

definition deep_cursor :: "unwind_ctx \<Rightarrow> addr \<Rightarrow> (nat, machine_state) cursor_ops" where
  "deep_cursor uc th = counting_cursor (if uc_ts uc = 0 then 2 else 6)"

definition four_deep :: stacktrace where
  "four_deep = \<lparr>st_depth = 4, st_ips = Some [0, 0, 0, 0]\<rparr>"

lemma two_snapshots_run:
  "case resolve_loop (\<lambda>log. 40) deep_cursor four_deep (machine__new blank_machine) two_snapshots of
     Some (r, outs, st, s) \<Rightarrow> r = 0 \<and> map length outs = [3, 3] | None \<Rightarrow> False"
  by code_simp

theorem resolved_chains_shrink_witness:
  "\<exists>outs st s. resolve_loop (\<lambda>log. 40) deep_cursor four_deep (machine__new blank_machine) two_snapshots = Some (0, outs, st, s) \<and>
     map length outs = [3, 3] \<and> sorted_wrt (\<lambda>a b. length b \<le> length a) outs"
proof -
  obtain outs :: "u64 list list" and st :: stacktrace and s :: machine_state where r: "resolve_loop (\<lambda>log. 40) deep_cursor four_deep (machine__new blank_machine) two_snapshots = Some (0, outs, st, s)"
    "map length outs = [3, 3]"
    using two_snapshots_run by (auto split: option.split_asm)
  have "sorted_wrt (\<lambda>a b. length b \<le> length a) outs"
    using resolved_chains_shrink [OF _ _ _ r(1), of "[0, 0, 0, 0]"] by (simp add: four_deep_def)
  with r show ?thesis by (intro exI conjI)
qed

end
