(* ===== verification/Event_Proofs.thy ===== *)
theory Event_Proofs
  imports Event
begin

text \<open>
  The components together: an invariant of the whole state, and what handling one executable line of the maps file does:
  the thread and its leader exist afterwards, the new map is the last one of the thread's maps, and every reference the
  handling took is given back.
\<close>

section \<open>The invariant of the whole state\<close>

definition world_ok :: "'a machine_state_scheme \<Rightarrow> bool" where
  "world_ok s \<longleftrightarrow> machine_ok s \<and> dsos_ok s \<and> dsos_lock s = Free \<and> (\<forall>b. th_lock (tab s b) = Free) \<and>
     (\<forall>m ms. maps_st s m = Some ms \<longrightarrow> maps_ok s m ms \<and> ms_lock ms = Free) \<and> (\<forall>a\<in>dom (map_st s). a < next_addr s)"

lemma maps_ok_body:
  assumes "maps_ok s m ms" "map_st s' = map_st s" "ms_entries ms' = ms_entries ms" "ms_head ms' = ms_head ms"
  shows "maps_ok s' m ms'"
  using assms by (simp add: maps_ok_def)

lemma maps_body_fields:
  assumes "maps_st s' m = Some ms'" "maps_body s' m = maps_body s m"
  shows "case maps_st s m of
      Some ms \<Rightarrow> ms_entries ms' = ms_entries ms \<and> ms_head ms' = ms_head ms \<and> ms_lock ms' = ms_lock ms
    | None \<Rightarrow> ms_entries ms' = Leaf \<and> ms_head ms' = [] \<and> ms_lock ms' = Free"
proof -
  have eq: "ms_entries a = ms_entries b \<and> ms_head a = ms_head b \<and> ms_lock a = ms_lock b" if "a\<lparr>ms_refcnt := 0\<rparr> = b\<lparr>ms_refcnt := 0\<rparr>" for a b :: maps_obj
    using that by (cases a; cases b) simp
  show ?thesis
  proof (cases "maps_st s m")
    case None
    then show ?thesis using assms eq [of ms' maps__init] by (simp add: maps_body_def) (simp add: maps__init_def init_rwsem_def)
  next
    case (Some ms)
    then show ?thesis using assms eq [of ms' ms] by (simp add: maps_body_def)
  qed
qed

lemma dsos_ok_next:
  assumes "dsos_ok s" "dso_st s' = dso_st s" "dsos_head s' = dsos_head s" "dsos_root s' = dsos_root s" "next_addr s \<le> next_addr s'"
  shows "dsos_ok s'"
  using assms(1,5) unfolding dsos_ok_def assms(2-4) by (auto intro: less_le_trans)

lemma world_ok_found:
  assumes ok: "world_ok s" and f: "found s s' tgid tid th t"
  shows "world_ok s'"
proof -
  have r: "same_rest s s'" and m: "machine_ok s'" using f by (simp_all add: found_def)
  have "dsos_ok s'" by (rule dsos_ok_next [of s]) (use ok r in \<open>auto simp: world_ok_def same_rest_def\<close>)
  moreover have "maps_ok s' a ms \<and> ms_lock ms = Free" if a: "maps_st s' a = Some ms" for a ms
  proof (cases "maps_st s a")
    case None
    have "maps_st s' 0 = None" using m by (simp add: machine_ok_def table_ok_def fresh_ok_def)
    then have "a \<noteq> 0" using a by (cases a) simp_all
    with None show ?thesis using maps_body_fields [OF a, of s] r by (simp add: same_rest_def maps_ok_def rb_ok_def)
  next
    case (Some ms0)
    have "maps_ok s a ms0" "ms_lock ms0 = Free" using ok Some by (auto simp: world_ok_def)
    then show ?thesis using maps_body_fields [OF a, of s] r Some maps_ok_body [of s a ms0 s' ms] by (simp add: same_rest_def)
  qed
  moreover have "\<forall>a\<in>dom (map_st s'). a < next_addr s'" using ok r by (auto simp: world_ok_def same_rest_def intro: less_le_trans)
  ultimately show ?thesis using ok r m by (simp add: world_ok_def same_rest_def)
qed

lemma machine_ok_cong:
  assumes "machine_ok s" "next_addr s \<le> next_addr s'" "thread_st s' = thread_st s" "tab s' = tab s"
    "\<And>m. map_option ms_refcnt (maps_st s' m) = map_option ms_refcnt (maps_st s m)"
  shows "machine_ok s'"
proof -
  have n: "maps_st s' m = None \<longleftrightarrow> maps_st s m = None" for m using assms(5) [of m] by (cases "maps_st s' m"; cases "maps_st s m") auto
  have "fresh_ok s'" using assms(1-3) n by (fastforce simp: machine_ok_def table_ok_def fresh_ok_def)
  moreover have "maps_counted s'"
    unfolding maps_counted_def assms(3)
  proof (intro allI impI)
    fix m ms assume "maps_st s' m = Some ms"
    then obtain ms0 where "maps_st s m = Some ms0" "ms_refcnt ms0 = ms_refcnt ms" using assms(5) [of m] by (cases "maps_st s m") auto
    then show "ms_refcnt ms = of_nat (card (users (thread_st s) m))" using assms(1) by (auto simp: machine_ok_def table_ok_def maps_counted_def)
  qed
  moreover have "thread_live s' a = thread_live s a" for a using assms(3) n by (simp add: thread_live_def)
  ultimately show ?thesis using assms(1,3,4) by (simp add: machine_ok_def table_ok_def)
qed

lemma maps_ok_map_upd:
  assumes "maps_ok s m ms" "\<And>x. x \<in> set (ms_head ms) \<Longrightarrow> map_option (\<lambda>p. (m_start p, m_rb_empty p, m_node p)) (map_st s' x) =
      map_option (\<lambda>p. (m_start p, m_rb_empty p, m_node p)) (map_st s x) \<and> (\<forall>p. map_st s' x = Some p \<longrightarrow> m_refcnt p \<noteq> 0)"
  shows "maps_ok s' m ms"
proof -
  have h: "set (ms_head ms) = set (inorder (ms_entries ms))" using assms(1) by (simp add: maps_ok_def)
  have k: "start_of (map_st s') x = start_of (map_st s) x" if "x \<in> set (ms_head ms)" for x
    using assms(2) [OF that] by (auto simp: start_of_def split: option.splits)
  then have keys: "map (start_of (map_st s')) (inorder (ms_entries ms)) = map (start_of (map_st s)) (inorder (ms_entries ms))" using h by simp
  have "\<exists>p. map_st s' x = Some p \<and> in_maps m p" if x: "x \<in> set (ms_head ms)" for x
  proof -
    obtain p where "map_st s x = Some p" "in_maps m p" using maps_ok_entry [OF assms(1)] x h by auto
    then show ?thesis using assms(2) [OF x] by (cases "map_st s' x") (auto simp: in_maps_def)
  qed
  then show ?thesis using assms(1) unfolding maps_ok_def keys by simp
qed

definition names_kept :: "'a dso_state_scheme \<Rightarrow> 'b dso_state_scheme \<Rightarrow> bool" where
  "names_kept s s' \<longleftrightarrow> (\<forall>b x. dso_st s b = Some x \<longrightarrow> (\<exists>y. dso_st s' b = Some y \<and> d_name y = d_name x))"

lemma world_ok_map_new:
  assumes ok: "world_ok s"
  shows "\<exists>d s'. map__new s ev = Some (next_addr s, s') \<and> world_ok s' \<and> d \<noteq> 0 \<and> named s' (e_filename ev) d \<and>
    map_st s' = (map_st s)(next_addr s \<mapsto> new_map ev d) \<and> maps_st s' = maps_st s \<and> thread_st s' = thread_st s \<and> tab s' = tab s \<and>
    unw_log s' = unw_log s \<and> singlethreaded s' = singlethreaded s \<and> next_addr s < next_addr s' \<and> names_kept s s'"
proof -
  let ?a = "next_addr s"
  obtain d D n h t where f: "map__new s ev = Some (?a, s\<lparr>dso_st := D, next_addr := n, dsos_head := h, dsos_root := t,
        map_st := (map_st s)(?a \<mapsto> new_map ev d)\<rparr>)"
      "dsos_ok (s\<lparr>dso_st := D, next_addr := n, dsos_head := h, dsos_root := t\<rparr>)" "?a < n" "d \<noteq> 0"
      "named (s\<lparr>dso_st := D, next_addr := n, dsos_head := h, dsos_root := t\<rparr>) (e_filename ev) d"
      "\<forall>b x. dso_st s b = Some x \<longrightarrow> (\<exists>y. D b = Some y \<and> d_name y = d_name x)"
    using map__new_ok [of s ev] ok unfolding world_ok_def by blast
  let ?s = "s\<lparr>dso_st := D, next_addr := n, dsos_head := h, dsos_root := t, map_st := (map_st s)(?a \<mapsto> new_map ev d)\<rparr>"
  have "machine_ok ?s" by (rule machine_ok_cong [of s]) (use ok f(3) in \<open>auto simp: world_ok_def\<close>)
  moreover have "maps_ok ?s m ms" if m: "maps_st s m = Some ms" for m ms
  proof -
    have k: "maps_ok s m ms" using ok m by (simp add: world_ok_def)
    have "x \<noteq> ?a \<and> (\<forall>p. map_st s x = Some p \<longrightarrow> m_refcnt p \<noteq> 0)" if "x \<in> set (ms_head ms)" for x
      using that k ok by (fastforce simp: maps_ok_def in_maps_def world_ok_def)
    then show ?thesis by (intro maps_ok_map_upd [OF k]) auto
  qed
  moreover have "dsos_ok ?s" by (rule dsos_ok_next [OF f(2)]) simp_all
  moreover have "\<forall>a\<in>dom (map_st ?s). a < n" using ok f(3) by (auto simp: world_ok_def intro: less_trans)
  ultimately have "world_ok ?s" using ok by (simp add: world_ok_def)
  then show ?thesis using f by (intro exI [of _ d] exI [of _ ?s]) (auto simp: named_def names_kept_def)
qed

text \<open>Writes to a thread that keep its id, node and maps.\<close>

lemma world_ok_thread_upd:
  assumes ok: "world_ok s" and t: "thread_st s th = Some t" "t_tid t' = t_tid t" "t_node t' = t_node t" "t_maps t' = t_maps t" "t_refcnt t' \<noteq> 0"
  shows "world_ok (s\<lparr>thread_st := (thread_st s)(th \<mapsto> t'), unw_log := log\<rparr>)"
proof -
  let ?s = "s\<lparr>thread_st := (thread_st s)(th \<mapsto> t'), unw_log := log\<rparr>"
  have "table_ok (s\<lparr>tab := tab s, thread_st := (thread_st s)(th \<mapsto> t')\<rparr>) {}"
    by (rule table_ok_upd) (use ok t in \<open>auto simp: world_ok_def machine_ok_def table_ok_def tree_ok_def\<close>)
  then have "machine_ok (s\<lparr>thread_st := (thread_st s)(th \<mapsto> t')\<rparr>)" by (simp add: machine_ok_def)
  then have "machine_ok ?s" by (rule machine_ok_cong) simp_all
  moreover have "maps_ok ?s m ms" if "maps_ok s m ms" for m ms by (rule maps_ok_body [OF that]) simp_all
  moreover have "dsos_ok ?s" by (rule dsos_ok_next [of s]) (use ok in \<open>simp_all add: world_ok_def\<close>)
  ultimately show ?thesis using ok by (simp add: world_ok_def)
qed

text \<open>A thread with an address space has its unwinding operations registered.\<close>

definition ops_attached :: "'a machine_state_scheme \<Rightarrow> bool" where
  "ops_attached s \<longleftrightarrow> (\<forall>a t. thread_st s a = Some t \<longrightarrow> t_addr_space t \<noteq> 0 \<longrightarrow> t_ulops t)"

lemma found_new: "\<lbrakk>found s s1 g i th t; thread_st s c = None; thread_st s1 c = Some t'\<rbrakk> \<Longrightarrow> t_addr_space t' = 0"
  by (simp add: found_def)

lemma ops_attached_found:
  assumes ok: "world_ok s" and f: "found s s' tgid tid th t" and a: "ops_attached s"
  shows "ops_attached s'"
  unfolding ops_attached_def
proof (intro allI impI)
  fix c x
  assume x: "thread_st s' c = Some x" "t_addr_space x \<noteq> 0"
  have c: "thread_st s c \<noteq> None"
  proof
    assume "thread_st s c = None"
    from found_new [OF f this x(1)] x(2) show False by simp
  qed
  show "t_ulops x"
  proof (cases "c = th")
    case False
    then have "thread_st s' c = thread_st s c" using f c by (simp add: found_def)
    then show ?thesis using a x by (simp add: ops_attached_def)
  next
    case True
    have "thread_st s (next_addr s) = None" using ok by (simp add: world_ok_def machine_ok_def table_ok_def fresh_ok_def)
    then have "thread_at s tid th" using f c True by (auto simp: found_def split: if_split_asm)
    then have "thread_st s th = Some (x\<lparr>t_refcnt := t_refcnt x - 1\<rparr>)" using f x(1) True by (simp add: found_def)
    then show ?thesis using a x(2) unfolding ops_attached_def by fastforce
  qed
qed

lemma prepare_access_ok:
  assumes t: "thread_st s th = Some t" and lib: "\<forall>log. lib log \<noteq> 0"
  shows "\<exists>t' log. unwind__prepare_access lib s th = Some (0, s\<lparr>thread_st := (thread_st s)(th \<mapsto> t'), unw_log := log\<rparr>) \<and>
    t'\<lparr>t_ulops := t_ulops t, t_addr_space := t_addr_space t\<rparr> = t \<and> t_addr_space t' \<noteq> 0 \<and> (t_addr_space t = 0 \<longrightarrow> t_ulops t') \<and>
    (t_addr_space t \<noteq> 0 \<longrightarrow> t' = t)"
proof (cases "t_addr_space t = 0")
  case False
  have "s\<lparr>thread_st := (thread_st s)(th \<mapsto> t), unw_log := unw_log s\<rparr> = s" using t by (simp add: fun_upd_idem)
  then show ?thesis using False t by (intro exI [of _ t] exI [of _ "unw_log s"]) (simp add: unwind__prepare_access_def)
next
  case True
  let ?as = "lib (unw_log s)"
  have "?as \<noteq> 0" using lib by blast
  then show ?thesis using True t
    by (intro exI [of _ "t\<lparr>t_ulops := True, t_addr_space := ?as\<rparr>"] exI [of _ "unw_log s @ [Create_addr_space ?as, Set_caching_policy ?as]"])
      (simp add: unwind__prepare_access_def unwind_register_ops_def upd_thread_def u_prepare_access_def Let_def)
qed

lemma insert_map_ok:
  assumes ok: "world_ok s" and t: "thread_st s th = Some t" "t_refcnt t \<noteq> 0" "t_maps t = m" "maps_st s m = Some ms"
    and mp: "map_st s mp = Some p" "mp \<noteq> 0" "m_refcnt p = 1" "\<forall>x ms. maps_st s x = Some ms \<longrightarrow> mp \<notin> set (ms_head ms)"
    and lib: "\<forall>log. lib log \<noteq> 0"
  shows "\<exists>s' t' e. thread__insert_map lib s th mp = Some (0, s') \<and> world_ok s' \<and>
    thread_st s' = (thread_st s)(th \<mapsto> t') \<and> t'\<lparr>t_ulops := t_ulops t, t_addr_space := t_addr_space t\<rparr> = t \<and>
    t_addr_space t' \<noteq> 0 \<and> (ops_attached s \<longrightarrow> t_ulops t') \<and> tab s' = tab s \<and> next_addr s' = next_addr s \<and>
    maps_st s' = (maps_st s)(m \<mapsto> ms\<lparr>ms_entries := e, ms_head := ms_head ms @ [mp]\<rparr>) \<and>
    map_st s' = (map_st s)(mp \<mapsto> p\<lparr>m_rb_empty := False, m_node := m, m_refcnt := 2\<rparr>) \<and>
    dso_st s' = dso_st s \<and> dsos_head s' = dsos_head s"
proof -
  obtain t' log where a: "unwind__prepare_access lib s th = Some (0, s\<lparr>thread_st := (thread_st s)(th \<mapsto> t'), unw_log := log\<rparr>)"
      "t'\<lparr>t_ulops := t_ulops t, t_addr_space := t_addr_space t\<rparr> = t" "t_addr_space t' \<noteq> 0" "ops_attached s \<longrightarrow> t_ulops t'"
    using prepare_access_ok [OF t(1) lib] t(1) unfolding ops_attached_def by metis
  have t': "t_tid t' = t_tid t" "t_node t' = t_node t" "t_maps t' = m" "t_refcnt t' = t_refcnt t"
    using a(2) t(3) by (metis thread_obj.select_convs thread_obj.update_convs thread_obj.surjective)+
  let ?s = "s\<lparr>thread_st := (thread_st s)(th \<mapsto> t'), unw_log := log\<rparr>"
  have ok1: "world_ok ?s" by (rule world_ok_thread_upd [OF ok t(1)]) (use t' t in auto)
  have ms: "maps_ok ?s m ms" "ms_lock ms = Free" using ok1 t(4) by (auto simp: world_ok_def)
  let ?p = "p\<lparr>m_rb_empty := False, m_node := m, m_refcnt := 2\<rparr>"
  let ?ms = "\<lambda>e. ms\<lparr>ms_entries := e, ms_head := ms_head ms @ [mp]\<rparr>"
  let ?s2 = "\<lambda>e. ?s\<lparr>maps_st := (maps_st s)(m \<mapsto> ?ms e), map_st := (map_st s)(mp \<mapsto> ?p)\<rparr>"
  obtain e where e: "maps__insert ?s m mp = Some (?s2 e)" "maps_ok (?s2 e) m (?ms e)"
    using maps__insert_ok [of ?s m ms mp p] t(4) ms mp by auto
  have "thread__insert_map lib s th mp = Some (0, ?s2 e)" using a(1) e(1) t'(3) by (simp add: thread__insert_map_def)
  moreover have "world_ok (?s2 e)"
  proof -
    have "machine_ok (?s2 e)" by (rule machine_ok_cong [of ?s]) (use ok1 t(4) in \<open>auto simp: world_ok_def\<close>)
    moreover have "maps_ok (?s2 e) x y" if "maps_st s x = Some y" "x \<noteq> m" for x y
    proof -
      have k: "maps_ok ?s x y" "mp \<notin> set (ms_head y)" using ok1 mp(4) that by (auto simp: world_ok_def)
      then have "z \<noteq> mp \<and> (\<forall>p. map_st s z = Some p \<longrightarrow> m_refcnt p \<noteq> 0)" if "z \<in> set (ms_head y)" for z
        using that by (fastforce simp: maps_ok_def in_maps_def)
      then show ?thesis by (intro maps_ok_map_upd [OF k(1)]) auto
    qed
    moreover have "dsos_ok (?s2 e)" by (rule dsos_ok_next [of ?s]) (use ok1 in \<open>simp_all add: world_ok_def\<close>)
    ultimately show ?thesis using ok1 e(2) ms(2) mp(1) by (auto simp: world_ok_def)
  qed
  ultimately show ?thesis using a(2-4) by (intro exI [of _ "?s2 e"] exI [of _ t'] exI [of _ e]) simp
qed

lemma world_ok_map_upd:
  assumes ok: "world_ok s" and p: "map_st s mp = Some p" "m_start p' = m_start p" "m_rb_empty p' = m_rb_empty p" "m_node p' = m_node p" "m_refcnt p' \<noteq> 0"
  shows "world_ok (s\<lparr>map_st := (map_st s)(mp \<mapsto> p')\<rparr>)"
proof -
  let ?s = "s\<lparr>map_st := (map_st s)(mp \<mapsto> p')\<rparr>"
  have "machine_ok ?s" by (rule machine_ok_cong [of s]) (use ok in \<open>simp_all add: world_ok_def\<close>)
  moreover have "maps_ok ?s m ms" if k: "maps_ok s m ms" for m ms
  proof -
    have "\<exists>p. map_st s x = Some p \<and> m_refcnt p \<noteq> 0" if "x \<in> set (ms_head ms)" for x
      using that k by (auto simp: maps_ok_def in_maps_def)
    then show ?thesis using p by (intro maps_ok_map_upd [OF k]) force
  qed
  moreover have "dsos_ok ?s" by (rule dsos_ok_next [of s]) (use ok in \<open>simp_all add: world_ok_def\<close>)
  ultimately show ?thesis using ok p(1) by (auto simp: world_ok_def)
qed

section \<open>The maps a thread is going to use\<close>

text \<open>The maps in the list of a thread.\<close>

definition thread_maps :: "'a machine_state_scheme \<Rightarrow> int \<Rightarrow> addr list \<Rightarrow> bool" where
  "thread_maps s tid h \<longleftrightarrow> (\<exists>th t ms. thread_at s tid th \<and> thread_st s th = Some t \<and> maps_st s (t_maps t) = Some ms \<and> ms_head ms = h)"

text \<open>The list a thread will have when it is looked up: its own, else that of the leader of its group, else an
  empty one.\<close>

definition maps_before :: "'a machine_state_scheme \<Rightarrow> int \<Rightarrow> int \<Rightarrow> addr list \<Rightarrow> bool" where
  "maps_before s tgid tid h \<longleftrightarrow>
     (if \<exists>a. thread_at s tid a then thread_maps s tid h
      else if \<exists>a. thread_at s tgid a then thread_maps s tgid h else h = [])"

lemma thread_unique: "\<lbrakk>machine_ok s; thread_at s i a; thread_at s i b\<rbrakk> \<Longrightarrow> a = b"
  using members_unique by (fastforce simp: machine_ok_def table_ok_def thread_at_def)

lemma maps_before_own: "thread_at s tid a \<Longrightarrow> maps_before s tgid tid h = thread_maps s tid h"
  unfolding maps_before_def by (subst if_P) blast+

lemma maps_before_leader:
  "\<lbrakk>\<And>b. \<not> thread_at s tid b; thread_at s tgid a\<rbrakk> \<Longrightarrow> maps_before s tgid tid h = thread_maps s tgid h"
  unfolding maps_before_def by (subst if_not_P, blast, subst if_P) blast+

lemma found_maps:
  assumes ok: "machine_ok s" and f: "found s s1 tgid tid th t" and ms: "maps_st s1 (t_maps t) = Some ms"
    and h: "maps_before s tgid tid h"
  shows "ms_head ms = h"
proof -
  have fr: "fresh_ok s" and ok1: "machine_ok s1" using ok f by (simp_all add: found_def machine_ok_def table_ok_def)
  have "maps_body s1 (t_maps t) = maps_body s (t_maps t)" using f by (simp add: found_def same_rest_def)
  note body = maps_body_fields [OF ms this]
  have kept: "\<And>i a. thread_at s i a \<Longrightarrow> thread_at s1 i a" using f by (simp add: found_def)
  show ?thesis
  proof (cases "thread_at s tid th")
    case True
    then obtain a t0 ms0 where a: "thread_at s tid a" "thread_st s a = Some t0" "maps_st s (t_maps t0) = Some ms0" "ms_head ms0 = h"
      using h unfolding maps_before_own [OF True] by (auto simp: thread_maps_def)
    have "a = th" by (rule thread_unique [OF ok a(1) True])
    then have "t0 = t\<lparr>t_refcnt := t_refcnt t - 1\<rparr>" using f a(2) True by (simp add: found_def)
    then show ?thesis using body a(3,4) by simp
  next
    case False
    then obtain l ld where l: "thread_at s1 tgid l" "thread_st s1 l = Some ld" "t_maps ld = t_maps t" "th = next_addr s"
        "thread_at s tgid l \<or> next_addr s \<le> t_maps t" and th1: "thread_at s1 tid th"
      using f by (auto simp: found_def)
    have none: "\<not> thread_at s tid a" for a using thread_unique [OF ok1 kept th1] False by blast
    show ?thesis
    proof (cases "\<exists>a. thread_at s tgid a")
      case True
      then obtain b where b: "thread_at s tgid b" by blast
      obtain a t0 ms0 where a: "thread_at s tgid a" "thread_st s a = Some t0" "maps_st s (t_maps t0) = Some ms0" "ms_head ms0 = h"
        using h unfolding maps_before_leader [OF none b] by (auto simp: thread_maps_def)
      have "a = l" by (rule thread_unique [OF ok1 kept [OF a(1)] l(1)])
      moreover have "a \<noteq> th" using a(2) l(4) fr by (auto simp: fresh_ok_def)
      ultimately have "t0 = ld" using f a(2) l(2) unfolding found_def by (metis option.distinct(1) option.inject)
      then show ?thesis using body a(3,4) l(3) by simp
    next
      case False
      then have "next_addr s \<le> t_maps t" "h = []" using l(5) none h by (auto simp: maps_before_def)
      then show ?thesis using body fr by (simp add: fresh_ok_def)
    qed
  qed
qed

section \<open>One executable map\<close>

text \<open>What holds after the event: the thread and its maps, and the map that was added to them.\<close>

definition mapped :: "'a machine_state_scheme \<Rightarrow> 'a machine_state_scheme \<Rightarrow> mmap2_event \<Rightarrow> int \<Rightarrow> int \<Rightarrow> bool" where
  "mapped s s' ev tgid tid \<longleftrightarrow> (\<exists>th t mp p ms d.
     thread_at s' tid th \<and> thread_st s' th = Some t \<and> t_tgid t = tgid \<and> t_addr_space t \<noteq> 0 \<and> maps_st s' (t_maps t) = Some ms \<and>
     ms_head ms \<noteq> [] \<and> last (ms_head ms) = mp \<and> map_st s mp = None \<and> map_st s' = (map_st s)(mp \<mapsto> p) \<and>
     (\<forall>i a. thread_at s i a \<longrightarrow> thread_at s' i a) \<and>
     (\<forall>h. maps_before s tgid tid h \<longrightarrow> butlast (ms_head ms) = h) \<and>
     m_start p = e_start ev \<and> m_end p = e_start ev + e_len ev \<and> m_pgoff p = e_pgoff ev \<and> m_refcnt p = 1 \<and> m_dso p = d \<and>
     named s' (e_filename ev) d \<and> names_kept s s')"

lemma thread_fits_after:
  assumes fit: "thread_fits s tgid tid" and f: "found s s1 tgid tid th t" and r: "t_refcnt t \<noteq> 0"
    and s': "thread_st s' = (thread_st s1)(th \<mapsto> t')" "t_tid t' = t_tid t" "t_tgid t' = tgid" "t_refcnt t' = t_refcnt t - 1" "tab s' = tab s1"
  shows "thread_fits s' tgid tid"
proof -
  have t: "thread_st s1 th = Some t" using f by (simp add: found_def)
  have low: "t_tgid x = tgid \<and> t_refcnt x + 1 \<noteq> 0"
    if at: "thread_at s' i c" "i = tid \<or> i = tgid" and x: "thread_st s' c = Some x" for i c x
  proof (cases "c = th")
    case True
    then show ?thesis using x s' r by simp
  next
    case False
    then have x1: "thread_st s1 c = Some x" using x s'(1) by simp
    show ?thesis
    proof (cases "thread_st s c")
      case None
      then have "t_tgid x = tgid \<and> (t_refcnt x = 1 \<or> t_refcnt x = 2)" using f x1 unfolding found_def by blast
      then show ?thesis by auto
    next
      case (Some x0)
      then have "thread_st s1 c = thread_st s c" using f False unfolding found_def by (metis option.distinct(1))
      then have xs: "thread_st s c = Some x" using x1 by simp
      have "c \<in> members (tab s1 (machine__threads i))" using at(1) s'(5) by (simp add: thread_at_def)
      then have "c \<in> members (tab s (machine__threads i))" using f Some unfolding found_def by (metis option.distinct(1))
      moreover have "tid_of (thread_st s') c = i" using at(1) by (simp add: thread_at_def)
      ultimately have "thread_at s i c" using x xs by (simp add: thread_at_def tid_of_def)
      with fit at(2) xs show ?thesis by (auto simp: thread_fits_def leader_fits_def)
    qed
  qed
  then show ?thesis by (simp add: thread_fits_def leader_fits_def)
qed

text \<open>Sole ownership: the table has the only reference to each thread, threads use every collection, and each map belongs to one
  collection that has the only reference to it.\<close>

definition sole_owned :: "'a machine_state_scheme \<Rightarrow> bool" where
  "sole_owned s \<longleftrightarrow> (\<forall>b. th_dead (tab s b) = []) \<and>
     (\<forall>a t. thread_st s a = Some t \<longrightarrow> t_refcnt t = 1 \<and> (\<exists>b. a \<in> members (tab s b))) \<and>
     (\<forall>m ms. maps_st s m = Some ms \<longrightarrow> users (thread_st s) m \<noteq> {} \<and> (\<forall>a\<in>set (ms_head ms). droppable s a)) \<and>
     (\<forall>a. map_st s a \<noteq> None \<longrightarrow> (\<exists>m ms. maps_st s m = Some ms \<and> a \<in> set (ms_head ms)))"

lemma found_users:
  assumes ok: "world_ok s" and f: "found s s1 g i th t" and m: "maps_st s m = None \<or> users (thread_st s) m \<noteq> {}" "maps_st s1 m \<noteq> None"
  shows "users (thread_st s1) m \<noteq> {}"
proof (cases "maps_st s m = None")
  case True
  then show ?thesis using f m(2) by (simp add: found_def new_owned_def)
next
  case False
  then obtain c u where c: "thread_st s c = Some u" "t_maps u = m" using m(1) by (auto simp: users_def)
  have "thread_st s (next_addr s) = None" using ok by (simp add: world_ok_def machine_ok_def table_ok_def fresh_ok_def)
  then have at: "thread_at s i th" if "c = th" using f c(1) that by (auto simp: found_def split: if_split_asm)
  have "\<exists>u'. thread_st s1 c = Some u' \<and> t_maps u' = m"
  proof (cases "c = th")
    case True
    then have "thread_st s th = Some (t\<lparr>t_refcnt := t_refcnt t - 1\<rparr>)" "thread_st s1 th = Some t" using f at by (simp_all add: found_def)
    then show ?thesis using c True by auto
  next
    case False
    then have "thread_st s1 c = thread_st s c" using f c(1) by (simp add: found_def)
    then show ?thesis using c by simp
  qed
  then show ?thesis by (auto simp: users_def)
qed

lemma found_sole_refcnt:
  assumes ok: "world_ok s" "sole_owned s" and f: "found s s1 g i th t" and c: "thread_st s1 c = Some u"
  shows "t_refcnt u = (if c = th then 2 else 1) \<and> (\<exists>b. c \<in> members (tab s1 b))"
proof (cases "thread_st s c")
  case None
  then have "c = th \<or> t_refcnt u = 1" "\<exists>b. c \<in> members (tab s1 b)" using f c by (simp_all add: found_def new_owned_def)
  moreover have "t_refcnt u = 2" if "c = th"
  proof -
    have tr: "tree_ok (thread_st s) b (tab s b)" for b using ok(1) by (simp add: world_ok_def machine_ok_def table_ok_def)
    have "\<not> thread_at s i th" using None that tree_ok_member [OF tr, of th] by (auto simp: thread_at_def)
    then have "t_refcnt t = 2" using f by (simp add: found_def)
    moreover have "thread_st s1 th = Some t" using f by (simp add: found_def)
    ultimately show ?thesis using c that by simp
  qed
  ultimately show ?thesis by auto
next
  case (Some v)
  then obtain b where v: "t_refcnt v = 1" "c \<in> members (tab s b)" using ok(2) unfolding sole_owned_def by blast
  have "tree_ok (thread_st s) b (tab s b)" using ok(1) by (simp add: world_ok_def machine_ok_def table_ok_def)
  then have "thread_at s (t_tid v) c" using tree_ok_member [OF _ v(2)] Some v(2) by (fastforce simp: thread_at_def tid_of_def)
  then have "thread_at s1 (t_tid v) c" using f by (simp add: found_def)
  moreover have "t_refcnt u = (if c = th then 2 else 1)"
  proof (cases "c = th")
    case True
    have "thread_st s (next_addr s) = None" using ok(1) by (simp add: world_ok_def machine_ok_def table_ok_def fresh_ok_def)
    then have "thread_at s i th" using f Some True by (auto simp: found_def split: if_split_asm)
    then have "v = u\<lparr>t_refcnt := t_refcnt u - 1\<rparr>" using f c Some True by (simp add: found_def)
    then have "t_refcnt u - 1 = 1" using v(1) by simp
    then have "t_refcnt u = 1 + 1" by (simp only: diff_eq_eq)
    then show ?thesis using True by simp
  next
    case False
    then show ?thesis using f c Some v(1) by (simp add: found_def)
  qed
  ultimately show ?thesis by (auto simp: thread_at_def)
qed

lemma sole_owned_mapped:
  assumes ok: "world_ok s" "sole_owned s" and f: "found s s1 g i th t" and ms: "maps_st s1 (t_maps t) = Some ms"
    and s': "thread_st s' = (thread_st s1)(th \<mapsto> t')" "t_refcnt t' = t_refcnt t - 1" "t_maps t' = t_maps t" "tab s' = tab s1"
      "maps_st s' = (maps_st s1)(t_maps t \<mapsto> ms\<lparr>ms_entries := e, ms_head := ms_head ms @ [a]\<rparr>)" "map_st s' = (map_st s)(a \<mapsto> q)"
    and q: "m_refcnt q = 1" "dso_st s' (m_dso q) \<noteq> None" and n: "names_kept s s'"
  shows "sole_owned s'"
proof -
  have t: "thread_st s1 th = Some t" and r: "same_rest s s1" using f by (simp_all add: found_def)
  have body: "case maps_st s m of Some y \<Rightarrow> ms_head x = ms_head y | None \<Rightarrow> ms_head x = []" if "maps_st s1 m = Some x" for m x
    using maps_body_fields [OF that, of s] r by (auto simp: same_rest_def split: option.splits)
  have "t_refcnt u = 1 \<and> (\<exists>b. c \<in> members (tab s' b))" if c: "thread_st s' c = Some u" for c u
  proof (cases "c = th")
    case True
    then show ?thesis using found_sole_refcnt [OF ok f t] c s' by auto
  next
    case False
    then show ?thesis using found_sole_refcnt [OF ok f, of c u] c s' by auto
  qed
  moreover have "users (thread_st s') m \<noteq> {}" if "maps_st s' m = Some x" for m x
  proof -
    have "maps_st s m = None \<or> users (thread_st s) m \<noteq> {}" using ok(2) by (cases "maps_st s m") (simp_all add: sole_owned_def)
    moreover have "maps_st s1 m \<noteq> None" using that s'(5) ms by (auto split: if_splits)
    ultimately have "users (thread_st s1) m \<noteq> {}" by (rule found_users [OF ok(1) f])
    then show ?thesis using users_upd [of "thread_st s1" th t t' m] t s'(1,3) by simp
  qed
  moreover have "droppable s' b" if x: "maps_st s' m = Some x" "b \<in> set (ms_head x)" for m x b
  proof (cases "b = a")
    case True
    then show ?thesis using s'(6) q by (simp add: droppable_def)
  next
    case False
    then obtain y where "maps_st s1 m = Some y" "b \<in> set (ms_head y)" using x s'(5) ms by (auto split: if_splits)
    then obtain z where "maps_st s m = Some z" "b \<in> set (ms_head z)" using body [of m y] by (auto split: option.splits)
    then have "droppable s b" using ok(2) unfolding sole_owned_def by blast
    then show ?thesis using False s'(6) n by (fastforce simp: droppable_def names_kept_def split: option.splits)
  qed
  moreover have "\<exists>m x. maps_st s' m = Some x \<and> b \<in> set (ms_head x)" if b: "map_st s' b \<noteq> None" for b
  proof (cases "b = a")
    case True
    then show ?thesis using s'(5) by auto
  next
    case False
    then have "map_st s b \<noteq> None" using b s'(6) by simp
    then obtain m z where z: "maps_st s m = Some z" "b \<in> set (ms_head z)" using ok(2) unfolding sole_owned_def by blast
    have "maps_st s1 m \<noteq> None"
    proof
      assume "maps_st s1 m = None"
      moreover have "maps_body s1 m = maps_body s m" using r by (simp add: same_rest_def)
      ultimately have "ms_head z = []" using z(1) by (cases z) (simp add: maps_body_def maps__init_def)
      then show False using z(2) by simp
    qed
    then obtain y where y: "maps_st s1 m = Some y" by auto
    then have "ms_head y = ms_head z" using body [OF y] z(1) by simp
    then show ?thesis using y z(2) ms s'(5) by (intro exI [of _ m]) auto
  qed
  moreover have "th_dead (tab s' b) = []" for b using ok(2) r s'(4) by (simp add: sole_owned_def same_rest_def)
  ultimately show ?thesis unfolding sole_owned_def by blast
qed

lemma process_mmap_ok:
  assumes ok: "world_ok s" and fit: "thread_fits s (sint (e_tgid ev)) (sint (e_tid ev))" and lib: "\<forall>log. lib log \<noteq> 0"
  shows "\<exists>s'. bpf_unwind_ctx__process_mmap lib s ev = Some (0, s') \<and> world_ok s' \<and>
    thread_fits s' (sint (e_tgid ev)) (sint (e_tid ev)) \<and> mapped s s' ev (sint (e_tgid ev)) (sint (e_tid ev)) \<and>
    (ops_attached s \<longrightarrow> ops_attached s') \<and> (sole_owned s \<longrightarrow> sole_owned s')"
proof -
  let ?g = "sint (e_tgid ev)" and ?i = "sint (e_tid ev)"
  obtain th s1 t where f: "machine__findnew_thread s ?g ?i = Some (th, s1)" "found s s1 ?g ?i th t"
    using machine__findnew_thread_ok [OF _ fit] ok by (auto simp: world_ok_def)
  have ok1: "world_ok s1" by (rule world_ok_found [OF ok f(2)])
  have at1: "thread_at s1 ?i th" "thread_st s1 th = Some t" "t_tgid t = ?g" using f(2) by (simp_all add: found_def)
  have m1: "machine_ok s1" using ok1 by (simp add: world_ok_def)
  have "thread_live s1 th" using at1 m1 by (auto simp: thread_at_def machine_ok_def table_ok_def)
  then obtain ms where tl: "t_refcnt t \<noteq> 0" "t_maps t \<noteq> 0" "maps_st s1 (t_maps t) = Some ms" using at1(2) by (auto simp: thread_live_def)
  have th0: "th \<noteq> 0" using at1(1) m1 tree_ok_member by (fastforce simp: thread_at_def machine_ok_def table_ok_def)
  let ?a = "next_addr s1"
  obtain d s2 where n: "map__new s1 ev = Some (?a, s2)" "world_ok s2" "named s2 (e_filename ev) d"
    "map_st s2 = (map_st s1)(?a \<mapsto> new_map ev d)" "maps_st s2 = maps_st s1" "thread_st s2 = thread_st s1" "tab s2 = tab s1" "names_kept s1 s2"
    using world_ok_map_new [OF ok1, of ev] by blast
  have a0: "?a \<noteq> 0" using m1 by (auto simp: machine_ok_def table_ok_def fresh_ok_def)
  have new: "map_st s1 ?a = None" using ok1 by (auto simp: world_ok_def)
  have unlinked: "\<forall>x ms. maps_st s2 x = Some ms \<longrightarrow> ?a \<notin> set (ms_head ms)"
    using ok1 new n(5) by (fastforce simp: world_ok_def maps_ok_def)
  obtain s3 t3 e where i: "thread__insert_map lib s2 th ?a = Some (0, s3)" "world_ok s3" "thread_st s3 = (thread_st s2)(th \<mapsto> t3)"
    "t3\<lparr>t_ulops := t_ulops t, t_addr_space := t_addr_space t\<rparr> = t" "t_addr_space t3 \<noteq> 0" "tab s3 = tab s2"
    "maps_st s3 = (maps_st s2)(t_maps t \<mapsto> ms\<lparr>ms_entries := e, ms_head := ms_head ms @ [?a]\<rparr>)"
    "map_st s3 = (map_st s2)(?a \<mapsto> (new_map ev d)\<lparr>m_rb_empty := False, m_node := t_maps t, m_refcnt := 2\<rparr>)"
    "dso_st s3 = dso_st s2" "dsos_head s3 = dsos_head s2" "ops_attached s2 \<longrightarrow> t_ulops t3"
    using insert_map_ok [OF n(2), of th t "t_maps t" ms ?a "new_map ev d" lib] at1(2) n(4-6) tl a0 unlinked lib by (auto simp: new_map_def)
  have t3: "t_tid t3 = t_tid t" "t_tgid t3 = t_tgid t" "t_node t3 = t_node t" "t_maps t3 = t_maps t" "t_refcnt t3 = t_refcnt t"
    using i(4) by (metis thread_obj.select_convs thread_obj.update_convs thread_obj.surjective)+
  have r1: "t_refcnt t \<noteq> 1"
  proof (cases "thread_at s ?i th")
    case True
    then have "thread_st s th = Some (t\<lparr>t_refcnt := t_refcnt t - 1\<rparr>)" using f(2) by (simp add: found_def)
    moreover have "thread_live s th" using True ok by (auto simp: thread_at_def world_ok_def machine_ok_def table_ok_def)
    ultimately show ?thesis by (auto simp: thread_live_def)
  next
    case False
    then have "t_refcnt t = 2" using f(2) by (simp add: found_def)
    then show ?thesis by simp
  qed
  let ?t4 = "t3\<lparr>t_refcnt := t_refcnt t3 - 1\<rparr>"
  let ?s4 = "s3\<lparr>thread_st := (thread_st s3)(th \<mapsto> ?t4)\<rparr>"
  have put: "thread__put s3 th = Some ?s4" by (rule thread__put_more) (use i(3) t3(5) r1 th0 in auto)
  have "world_ok (s3\<lparr>thread_st := (thread_st s3)(th \<mapsto> ?t4), unw_log := unw_log s3\<rparr>)"
    by (rule world_ok_thread_upd [OF i(2), of th t3]) (use i(3) t3 r1 in auto)
  then have ok4: "world_ok ?s4" by simp
  let ?p = "(new_map ev d)\<lparr>m_rb_empty := False, m_node := t_maps t, m_refcnt := 2\<rparr>" and ?q = "(new_map ev d)\<lparr>m_rb_empty := False, m_node := t_maps t\<rparr>"
  let ?s5 = "?s4\<lparr>map_st := (map_st s3)(?a \<mapsto> ?q)\<rparr>"
  have p4: "map_st ?s4 ?a = Some ?p" using i(8) by simp
  have mput: "map__put ?s4 ?a = Some ?s5"
    using p4 a0 by (simp add: map__put_def refcount_dec_and_test_def upd_map_def new_map_def)
  have "world_ok (?s4\<lparr>map_st := (map_st ?s4)(?a \<mapsto> ?q)\<rparr>)" by (rule world_ok_map_upd [OF ok4 p4]) (simp_all add: new_map_def)
  then have ok5: "world_ok ?s5" by simp
  have run: "bpf_unwind_ctx__process_mmap lib s ev = Some (0, ?s5)"
    using f(1) n(1) i(1) put mput th0 by (simp add: bpf_unwind_ctx__process_mmap_def)
  have fit5: "thread_fits ?s5 ?g ?i"
    by (rule thread_fits_after [OF fit f(2) tl(1), of ?s5 ?t4]) (use i(3,6) n(6,7) t3 at1(3) in auto)
  have th5: "thread_at ?s5 ?i th" using at1(1,2) t3(1) i(6) n(7) by (simp add: thread_at_def tid_of_def)
  have keep: "\<forall>h. maps_before s ?g ?i h \<longrightarrow> ms_head ms = h" using found_maps [OF _ f(2) tl(3)] ok by (simp add: world_ok_def)
  have s0: "map_st s ?a = None" using new f(2) by (simp add: found_def same_rest_def)
  have at5: "thread_at ?s5 j c" if "thread_at s j c" for j c
  proof -
    have "thread_at s1 j c" using f(2) that by (simp add: found_def)
    then show ?thesis by (rule thread_at_frame) (use i(3,6) n(6,7) t3(1) at1(2) in auto)
  qed
  have map5: "map_st ?s5 = (map_st s)(?a \<mapsto> ?q)" using i(8) n(4) f(2) by (simp add: found_def same_rest_def)
  have names: "names_kept s ?s5" using n(8) i(9) f(2) by (simp add: names_kept_def found_def same_rest_def)
  have "mapped s ?s5 ev ?g ?i"
    unfolding mapped_def
    by (rule exI [of _ th], rule exI [of _ ?t4], rule exI [of _ ?a], rule exI [of _ ?q],
        rule exI [of _ "ms\<lparr>ms_entries := e, ms_head := ms_head ms @ [?a]\<rparr>"], rule exI [of _ d])
      (use th5 t3 at1(3) i(5,7) s0 keep n(3) i(9,10) at5 map5 names in \<open>auto simp: new_map_def named_def\<close>)
  moreover have "ops_attached ?s5" if "ops_attached s"
  proof -
    have "ops_attached s2" using ops_attached_found [OF ok f(2) that] n(6) by (simp add: ops_attached_def)
    then show ?thesis using i(3,11) by (simp add: ops_attached_def)
  qed
  moreover have "sole_owned ?s5" if so: "sole_owned s"
  proof -
    have "d \<in> set (dsos_head s2)" "\<forall>a\<in>set (dsos_head s2). dso_st s2 a \<noteq> None" using n(2,3) by (auto simp: named_def world_ok_def dsos_ok_def)
    then have d: "dso_st ?s5 (m_dso ?q) \<noteq> None" using i(9) by (simp add: new_map_def)
    show ?thesis
      by (rule sole_owned_mapped [OF ok so f(2) tl(3), where t' = ?t4 and e = e and a = ?a and q = ?q])
        (use i(3,6,7) n(5-7) t3 map5 names d in \<open>simp_all add: new_map_def\<close>)
  qed
  ultimately show ?thesis using run ok5 fit5 by blast
qed

section \<open>The whole file\<close>

fun exec_lines :: "string list \<Rightarrow> map_line list" where
  "exec_lines [] = []"
| "exec_lines (bf # bfs) = (case scan_maps_line bf of
     Some (Some l) \<Rightarrow> if prot_char (l_prot l) 2 = CHR ''x'' then l # exec_lines bfs else exec_lines bfs
   | _ \<Rightarrow> exec_lines bfs)"

definition map_info :: "'a map_state_scheme \<Rightarrow> addr \<Rightarrow> dl_phdr_info option" where
  "map_info s a = do {
     m \<leftarrow> map_st s a;
     d \<leftarrow> dso_st s (m_dso m);
     Some \<lparr>start_addr = m_start m, end_addr = m_end m, dlpi_name = d_name d\<rparr> }"

definition line_info :: "map_line \<Rightarrow> dl_phdr_info" where
  "line_info l = \<lparr>start_addr = l_start l, end_addr = l_end l,
     dlpi_name = (if l_execname l = [] then ''//anon'' else l_execname l)\<rparr>"

definition infos_kept :: "'a map_state_scheme \<Rightarrow> 'b map_state_scheme \<Rightarrow> bool" where
  "infos_kept s s' \<longleftrightarrow> (\<forall>a i. map_info s a = Some i \<longrightarrow> map_info s' a = Some i)"

lemma infos_kept_refl [simp]: "infos_kept s s"
  by (simp add: infos_kept_def)

lemma infos_kept_trans: "\<lbrakk>infos_kept s s'; infos_kept s' s''\<rbrakk> \<Longrightarrow> infos_kept s s''"
  by (simp add: infos_kept_def)

lemma infos_kept_map:
  "\<lbrakk>infos_kept s s'; map (map_info s) xs = map Some is\<rbrakk> \<Longrightarrow> map (map_info s') xs = map Some is"
  by (induction xs arbitrary: "is") (auto simp: infos_kept_def Cons_eq_map_conv)

lemma mapped_infos:
  assumes s: "names_kept s s'" "map_st s mp = None" "map_st s' = (map_st s)(mp \<mapsto> p)" "dsos_ok s'" "named s' n (m_dso p)"
  shows "infos_kept s s'" and "map_info s' mp = Some \<lparr>start_addr = m_start p, end_addr = m_end p, dlpi_name = n\<rparr>"
proof -
  show "infos_kept s s'" unfolding infos_kept_def
  proof (intro allI impI)
    fix a i assume "map_info s a = Some i"
    then obtain m d where m: "map_st s a = Some m" "dso_st s (m_dso m) = Some d"
        "i = \<lparr>start_addr = m_start m, end_addr = m_end m, dlpi_name = d_name d\<rparr>"
      by (auto simp: map_info_def bind_eq_Some)
    obtain d' where "dso_st s' (m_dso m) = Some d'" "d_name d' = d_name d" using s(1) m(2) unfolding names_kept_def by blast
    moreover have "map_st s' a = Some m" using m(1) s(2,3) by auto
    ultimately show "map_info s' a = Some i" using m(3) by (simp add: map_info_def)
  qed
  show "map_info s' mp = Some \<lparr>start_addr = m_start p, end_addr = m_end p, dlpi_name = n\<rparr>"
    using named_name [OF s(4,5)] s(3) by (auto simp: map_info_def)
qed

lemma mapped_maps:
  assumes ok: "world_ok s'" and m: "mapped s s' ev tgid tid" and h: "maps_before s tgid tid h"
  shows "\<exists>mp. thread_maps s' tid (h @ [mp]) \<and> maps_before s' tgid tid (h @ [mp]) \<and> infos_kept s s' \<and>
    map_info s' mp = Some \<lparr>start_addr = e_start ev, end_addr = e_start ev + e_len ev, dlpi_name = e_filename ev\<rparr>"
proof -
  obtain th t mp p ms where m: "thread_at s' tid th" "thread_st s' th = Some t" "maps_st s' (t_maps t) = Some ms" "ms_head ms \<noteq> []"
     "last (ms_head ms) = mp" "map_st s mp = None" "map_st s' = (map_st s)(mp \<mapsto> p)" "butlast (ms_head ms) = h"
     "m_start p = e_start ev" "m_end p = e_start ev + e_len ev" "named s' (e_filename ev) (m_dso p)" "names_kept s s'"
    using m h unfolding mapped_def by blast
  have "ms_head ms = h @ [mp]" using m(4,5,8) append_butlast_last_id [of "ms_head ms"] by simp
  then have "thread_maps s' tid (h @ [mp])" using m(1-3) by (auto simp: thread_maps_def)
  moreover from this have "maps_before s' tgid tid (h @ [mp])" unfolding maps_before_own [OF m(1)] .
  moreover have "dsos_ok s'" using ok by (simp add: world_ok_def)
  note mapped_infos [OF m(12,6,7) this m(11)]
  ultimately show ?thesis using m(9,10) by auto
qed

lemma mmap_lines_ok:
  assumes lib: "\<forall>log. lib log \<noteq> 0" and range: "- (2 ^ 31) \<le> tgid" "tgid < 2 ^ 31" "- (2 ^ 31) \<le> tid" "tid < 2 ^ 31"
  shows "\<lbrakk>world_ok s; thread_fits s tgid tid; maps_before s tgid tid h; \<forall>bf\<in>set bfs. scan_maps_line bf \<noteq> None\<rbrakk> \<Longrightarrow>
    \<exists>s' new. mmap_lines lib s ev tgid tid bfs = Some s' \<and> world_ok s' \<and> thread_fits s' tgid tid \<and> maps_before s' tgid tid (h @ new) \<and>
      (new \<noteq> [] \<or> (\<exists>a. thread_at s tid a) \<longrightarrow> thread_maps s' tid (h @ new)) \<and> map (map_info s') new = map Some (map line_info (exec_lines bfs)) \<and> infos_kept s s'"
proof (induction bfs arbitrary: s ev h)
  case Nil
  then show ?case by (auto simp: maps_before_own intro: exI [of _ "[]"])
next
  case (Cons bf bfs)
  obtain r where r: "scan_maps_line bf = Some r" using Cons.prems(4) by auto
  show ?case
  proof (cases "\<exists>l. r = Some l \<and> prot_char (l_prot l) 2 = CHR ''x''")
    case False
    then have "mmap_lines lib s ev tgid tid (bf # bfs) = mmap_lines lib s ev tgid tid bfs" "exec_lines (bf # bfs) = exec_lines bfs"
      using r by (auto split: option.splits)
    then show ?thesis using Cons.IH [OF Cons.prems(1-3), of ev] Cons.prems(4) by simp
  next
    case True
    then obtain l where l: "r = Some l" "prot_char (l_prot l) 2 = CHR ''x''" by blast
    let ?ev = "line_event ev l tgid tid"
    have ids: "sint (e_tgid ?ev) = tgid" "sint (e_tid ?ev) = tid" using range
      by (simp_all add: line_event_def signed_of_int signed_take_bit_int_eq_self)
    obtain s1 where s1: "bpf_unwind_ctx__process_mmap lib s ?ev = Some (0, s1)" "world_ok s1" "thread_fits s1 tgid tid" "mapped s s1 ?ev tgid tid"
      using process_mmap_ok [of s ?ev lib] Cons.prems(1,2) lib unfolding ids by blast
    obtain mp where mp: "maps_before s1 tgid tid (h @ [mp])" "map_info s1 mp =
          Some \<lparr>start_addr = e_start ?ev, end_addr = e_start ?ev + e_len ?ev, dlpi_name = e_filename ?ev\<rparr>"
        "infos_kept s s1" "thread_maps s1 tid (h @ [mp])"
      using mapped_maps [OF s1(2,4) Cons.prems(3)] by blast
    obtain s' new where s': "mmap_lines lib s1 ?ev tgid tid bfs = Some s'" "world_ok s'" "thread_fits s' tgid tid"
        "maps_before s' tgid tid ((h @ [mp]) @ new)" "map (map_info s') new = map Some (map line_info (exec_lines bfs))"
        "infos_kept s1 s'" "new \<noteq> [] \<or> (\<exists>a. thread_at s1 tid a) \<longrightarrow> thread_maps s' tid ((h @ [mp]) @ new)"
      using Cons.IH [OF s1(2,3) mp(1), of ?ev] Cons.prems(4) by auto
    have "map_info s1 mp = Some (line_info l)" using mp(2) by (simp add: line_event_def line_info_def strcmp_order)
    then have "map_info s' mp = Some (line_info l)" using s'(6) by (simp add: infos_kept_def)
    then have "map (map_info s') (mp # new) = map Some (map line_info (exec_lines (bf # bfs)))" using s'(5) r l by simp
    moreover have "mmap_lines lib s ev tgid tid (bf # bfs) = Some s'" using r l s1(1) s'(1) by simp
    moreover have "thread_maps s' tid (h @ mp # new)" using s'(7) mp(4) by (auto simp: thread_maps_def)
    ultimately show ?thesis using s'(2-4) infos_kept_trans [OF mp(3) s'(6)]
      by (intro exI [of _ s'] exI [of _ "mp # new"]) auto
  qed
qed

lemma thread_map_ok:
  assumes "\<forall>log. lib log \<noteq> 0" "- (2 ^ 31) \<le> tgid" "tgid < 2 ^ 31" "- (2 ^ 31) \<le> tid" "tid < 2 ^ 31"
    and "world_ok s" "thread_fits s tgid tid" "maps_before s tgid tid h"
    and "proc_maps tgid = Some text" "\<forall>bf\<in>set (fgets_lines (BUFSIZ - 2) text). scan_maps_line bf \<noteq> None"
  shows "\<exists>s' new. bpf_unwind_ctx__thread_map lib proc_maps ev s tgid tid = Some (0, s') \<and> world_ok s' \<and> thread_fits s' tgid tid \<and>
    maps_before s' tgid tid (h @ new) \<and> infos_kept s s' \<and>
    map (map_info s') new = map Some (map line_info (exec_lines (fgets_lines (BUFSIZ - 2) text)))"
  using mmap_lines_ok [OF assms(1-8,10), of ev] assms(9)
  by (auto simp: bpf_unwind_ctx__thread_map_def bpf_unwind_ctx_prepare_mmap_def)

section \<open>Listing the maps\<close>

fun visit_infos :: "(dl_phdr_info \<Rightarrow> 'ctx \<Rightarrow> int \<times> 'ctx) \<Rightarrow> 'ctx \<Rightarrow> dl_phdr_info list \<Rightarrow> int \<times> 'ctx" where
  "visit_infos cb ctx [] = (0, ctx)"
| "visit_infos cb ctx (i # is) = (case cb i ctx of (ret, ctx) \<Rightarrow> if ret < 0 then (- 1, ctx) else visit_infos cb ctx is)"

lemma phdr_loop_visits: "map (map_info s) ps = map Some is \<Longrightarrow> phdr_loop s cb ctx ps = Some (visit_infos cb ctx is)"
proof (induction ps arbitrary: "is" ctx)
  case (Cons p ps)
  then obtain i rest where i: "is = i # rest" "map_info s p = Some i" "map (map_info s) ps = map Some rest"
    by (auto simp: Cons_eq_map_conv)
  obtain m d where "map_st s p = Some m" "dso_st s (m_dso m) = Some d"
      "i = \<lparr>start_addr = m_start m, end_addr = m_end m, dlpi_name = d_name d\<rparr>"
    using i(2) by (auto simp: map_info_def bind_eq_Some)
  then show ?case using Cons.IH [OF i(3)] i(1) by (simp split: prod.split)
qed simp

lemma found_live:
  assumes ok: "world_ok s" and f: "found s s1 tgid tid th t"
  shows "th \<noteq> 0" "t_refcnt t \<noteq> 0" "t_maps t \<noteq> 0" "\<exists>ms. maps_st s1 (t_maps t) = Some ms"
proof -
  have at: "thread_at s1 tid th" "thread_st s1 th = Some t" "machine_ok s1" using f by (simp_all add: found_def)
  then have "thread_live s1 th" by (auto simp: thread_at_def machine_ok_def table_ok_def)
  then show "t_refcnt t \<noteq> 0" "t_maps t \<noteq> 0" "\<exists>ms. maps_st s1 (t_maps t) = Some ms" using at(2) by (auto simp: thread_live_def)
  show "th \<noteq> 0" using at tree_ok_member by (fastforce simp: thread_at_def machine_ok_def table_ok_def)
qed

lemma dl_iterate_ok:
  assumes ok: "world_ok s" and fit: "thread_fits s tgid tgid" and h: "maps_before s tgid tgid h"
    and infos: "map (map_info s) h = map Some is"
  shows "\<exists>s' th t. bpf_dl_iterate_phdr s tgid cb ctx = Some (fst (visit_infos cb ctx is), snd (visit_infos cb ctx is), s') \<and>
    world_ok s' \<and> found s s' tgid tgid th t"
proof -
  obtain th s1 t where f: "machine__findnew_thread s tgid tgid = Some (th, s1)" "found s s1 tgid tgid th t"
    using machine__findnew_thread_ok [OF _ fit] ok by (auto simp: world_ok_def)
  obtain ms where ms: "maps_st s1 (t_maps t) = Some ms" using found_live(4) [OF ok f(2)] by blast
  have "ms_head ms = h" using found_maps [OF _ f(2) ms h] ok by (simp add: world_ok_def)
  moreover have "map_info s1 = map_info s" using f(2) by (simp add: found_def same_rest_def map_info_def fun_eq_iff)
  ultimately have "phdr_loop s1 cb ctx (ms_head ms) = Some (visit_infos cb ctx is)" using phdr_loop_visits infos by metis
  then have "bpf_dl_iterate_phdr s tgid cb ctx = Some (fst (visit_infos cb ctx is), snd (visit_infos cb ctx is), s1)"
    using f found_live(1) [OF ok f(2)] ms by (simp add: bpf_dl_iterate_phdr_def found_def split: prod.split)
  then show ?thesis using f(2) world_ok_found [OF ok f(2)] by blast
qed

section \<open>Resolving a call chain\<close>

text \<open>The same for the thread of one id.\<close>

definition attached :: "'a machine_state_scheme \<Rightarrow> int \<Rightarrow> bool" where
  "attached s tid \<longleftrightarrow> (\<forall>a t. thread_at s tid a \<longrightarrow> thread_st s a = Some t \<longrightarrow> t_addr_space t \<noteq> 0 \<longrightarrow> t_ulops t)"

lemma set_comm_ok:
  assumes "thread_st s th = Some t"
  shows "\<exists>t' log. thread__set_comm s th str = Some (s\<lparr>thread_st := (thread_st s)(th \<mapsto> t'), unw_log := log\<rparr>) \<and>
    t'\<lparr>t_name := t_name t\<rparr> = t"
proof (cases "strncmp str (t_name t) TASK_COMM_LEN = 0")
  case True
  let ?t = "t\<lparr>t_name := take TASK_COMM_LEN str\<rparr>"
  show ?thesis using True assms
    by (intro exI [of _ ?t] exI [of _ "if t_ulops t then unw_log s @ [Flush_cache (t_addr_space t)] else unw_log s"])
      (simp add: thread__set_comm_def upd_thread_def unwind__flush_access_def u_flush_access_def)
next
  case False
  then show ?thesis using assms
    by (intro exI [of _ t] exI [of _ "unw_log s"]) (simp add: thread__set_comm_def fun_upd_idem)
qed

lemma resolve_ok:
  fixes uc :: unwind_ctx
  defines "tgid \<equiv> sint (uc_tgid uc)" and "tid \<equiv> sint (uc_tid uc)"
  assumes ok: "world_ok s" and fit: "thread_fits s tgid tid" and att: "attached s tid" and lib: "\<forall>log. lib log \<noteq> 0"
  shows "\<exists>th s1 t. world_ok s1 \<and> thread_at s1 tid th \<and> thread_st s1 th = Some t \<and> t_addr_space t \<noteq> 0 \<and> t_ulops t \<and>
    (ops_attached s \<longrightarrow> ops_attached s1) \<and> bpf_unwind_ctx__resolve_callchain lib U st s uc = get_entries (U uc th) s1 th uc st"
proof -
  obtain th s1 t where f: "machine__findnew_thread s tgid tid = Some (th, s1)" "found s s1 tgid tid th t"
    using machine__findnew_thread_ok [OF _ fit] ok by (auto simp: world_ok_def)
  note live = found_live [OF ok f(2)]
  have ok1: "world_ok s1" by (rule world_ok_found [OF ok f(2)])
  have at1: "thread_at s1 tid th" "thread_st s1 th = Some t" using f(2) by (simp_all add: found_def)
  have ul: "t_ulops t" if as: "t_addr_space t \<noteq> 0"
  proof (cases "thread_at s tid th")
    case True
    then have "thread_st s th = Some (t\<lparr>t_refcnt := t_refcnt t - 1\<rparr>)" using f(2) by (simp add: found_def)
    then show ?thesis using att True as by (fastforce simp: attached_def)
  next
    case False
    then have "th = next_addr s" using f(2) by (simp add: found_def)
    then have "thread_st s th = None" using ok by (simp add: world_ok_def machine_ok_def table_ok_def fresh_ok_def)
    then show ?thesis using found_new [OF f(2) _ at1(2)] as by simp
  qed
  obtain t2 log where p: "unwind__prepare_access lib s1 th = Some (0, s1\<lparr>thread_st := (thread_st s1)(th \<mapsto> t2), unw_log := log\<rparr>)"
    "t2\<lparr>t_ulops := t_ulops t, t_addr_space := t_addr_space t\<rparr> = t" "t_addr_space t2 \<noteq> 0" "t_addr_space t = 0 \<longrightarrow> t_ulops t2"
    "t_addr_space t \<noteq> 0 \<longrightarrow> t2 = t"
    using prepare_access_ok [OF at1(2) lib] by (elim exE conjE) (rule that; assumption)
  define s2 where "s2 = (if t_addr_space t = 0 then s1\<lparr>thread_st := (thread_st s1)(th \<mapsto> t2), unw_log := log\<rparr> else s1)"
  have s2: "thread_st s2 th = Some t2" using p(5) at1(2) by (simp add: s2_def)
  obtain t3 log3 where c: "thread__set_comm s2 th (uc_name uc) = Some (s2\<lparr>thread_st := (thread_st s2)(th \<mapsto> t3), unw_log := log3\<rparr>)"
    "t3\<lparr>t_name := t_name t2\<rparr> = t2" using set_comm_ok [OF s2, of "uc_name uc"] by (elim exE conjE) (rule that; assumption)
  let ?s3 = "s2\<lparr>thread_st := (thread_st s2)(th \<mapsto> t3), unw_log := log3\<rparr>"
  have t2: "t_tid t2 = t_tid t" "t_node t2 = t_node t" "t_maps t2 = t_maps t" "t_refcnt t2 = t_refcnt t"
    using p(2) by (metis thread_obj.select_convs thread_obj.update_convs thread_obj.surjective)+
  have t3: "t_tid t3 = t_tid t2" "t_node t3 = t_node t2" "t_maps t3 = t_maps t2" "t_refcnt t3 = t_refcnt t2"
      "t_ulops t3 = t_ulops t2" "t_addr_space t3 = t_addr_space t2"
    using c(2) by (metis thread_obj.select_convs thread_obj.update_convs thread_obj.surjective)+
  have ok2: "world_ok s2" unfolding s2_def using world_ok_thread_upd [OF ok1 at1(2) t2(1-3), of log] live(2) t2(4) ok1 by simp
  have ok3: "world_ok ?s3" by (rule world_ok_thread_upd [OF ok2 s2]) (use t3 t2 live(2) in auto)
  have u3: "t_ulops t3" using t3(5) p(4,5) ul by auto
  have "thread_at s2 tid th" using at1 t2(1) by (simp add: s2_def thread_at_def tid_of_def)
  then have at3: "thread_at ?s3 tid th" using s2 t3(1) by (simp add: thread_at_def tid_of_def)
  have m3: "maps_st ?s3 = maps_st s1" by (simp add: s2_def)
  have "bpf_unwind_ctx__resolve_callchain lib U st s uc = unwind__get_entries (U uc th) ?s3 th uc st"
    using f(1) live(1) at1(2) p(1) c(1) by (simp add: bpf_unwind_ctx__resolve_callchain_def tgid_def tid_def s2_def split: if_splits)
  also have "unwind__get_entries (U uc th) ?s3 th uc st = get_entries (U uc th) ?s3 th uc st"
    using u3 live(4) m3 t3(3) t2(3) by (auto simp: unwind__get_entries_def u_get_entries_def)
  finally have "bpf_unwind_ctx__resolve_callchain lib U st s uc = get_entries (U uc th) ?s3 th uc st" .
  moreover have "ops_attached ?s3" if "ops_attached s"
    using ops_attached_found [OF ok f(2) that] u3 by (auto simp: ops_attached_def s2_def)
  ultimately show ?thesis using ok3 at3 u3 t3(6) p(3)
    by (intro exI [of _ th] exI [of _ ?s3] exI [of _ t3]) auto
qed

end
