(* ===== verification/Callbacks.thy ===== *)
theory Callbacks
  imports Event_Proofs Unwind_Proofs
begin

text \<open>
  The unwinder as a client of the callbacks. libunwind reaches the traced process through the accessors of
  \<^verbatim>\<open>src/unwind_libunwind.c\<close> only, so whatever every callback keeps is kept by a step of the cursor and by
  the walk over the frames. The callbacks change nothing but the cached file data of DSOs; hence the
  invariant of the whole state survives \<^verbatim>\<open>bpf_unwind_ctx__resolve_callchain\<close>.
\<close>

section \<open>Calls of the callbacks\<close>

inductive callbacks :: "env \<Rightarrow> addr \<Rightarrow> unwind_ctx \<Rightarrow> machine_state \<Rightarrow> machine_state \<Rightarrow> bool" for V thread uc where
  none: "callbacks V thread uc s s"
| mem: "\<lbrakk>callbacks V thread uc s s1; access_mem V s1 thread uc addr write = Some (r, v, s2)\<rbrakk> \<Longrightarrow> callbacks V thread uc s s2"
| info: "\<lbrakk>callbacks V thread uc s s1; find_proc_info V s1 thread pc = Some (r, s2)\<rbrakk> \<Longrightarrow> callbacks V thread uc s s2"

text \<open>What libunwind documents about a remote cursor: it acts on the process through the accessors.\<close>

definition cursor_calls :: "env \<Rightarrow> addr \<Rightarrow> unwind_ctx \<Rightarrow> ('c, machine_state) cursor_ops \<Rightarrow> bool" where
  "cursor_calls V thread uc U \<longleftrightarrow> (\<forall>s r c s'. unw_init_remote U s = (r, c, s') \<longrightarrow> callbacks V thread uc s s') \<and>
     (\<forall>c s r c' s'. unw_step U c s = (r, c', s') \<longrightarrow> callbacks V thread uc s s')"

text \<open>The states \<^verbatim>\<open>get_entries\<close> can end in.\<close>

lemma get_entries_states:
  assumes r: "get_entries U s thread uc st = Some (r, st', s')"
  obtains "s' = s" | e c s1 where "unw_init_remote U s = (e, c, s1)" "s' = s1"
    | e c s1 d ips j ips' where "unw_init_remote U s = (e, c, s1)" "frames_loop U d c s1 ips 1 = Some (j, ips', s')"
proof -
  obtain e c s1 where i: "unw_init_remote U s = (e, c, s1)" by (cases "unw_init_remote U s")
  show thesis
  proof (cases "\<exists>tr ips. st = Some tr \<and> st_ips tr = Some ips \<and> \<not> st_depth tr < 1")
    case False
    then have "s' = s" using r unfolding get_entries_def by (auto split: option.split_asm)
    then show thesis by (rule that(1))
  next
    case True
    then obtain tr ips where t: "st = Some tr" "st_ips tr = Some ips" "\<not> st_depth tr < 1" by blast
    obtain val th where v: "reg_value (uc_uregs uc) (x86_num X86_IP) = Some val" "thread_st s thread = Some th" "ips \<noteq> []"
      using r t by (auto simp: get_entries_def bind_eq_Some Let_def split: if_split_asm)
    let ?l = "frames_loop U (st_depth tr) c s1 (ips[0 := val]) 1"
    have "s' = s \<or> s' = s1 \<or> (\<exists>j ips'. ?l = Some (j, ips', s'))"
      using r t v i by (cases ?l) (auto simp: get_entries_def Let_def split: if_split_asm)
    then show thesis using that i by blast
  qed
qed

text \<open>The contract of an invariant: every callback keeps it. The client's lemmas: a cursor and the walk keep it.\<close>

locale callback_inv =
  fixes P :: "machine_state \<Rightarrow> bool"
  assumes mem: "\<lbrakk>P s; access_mem V s thread uc addr write = Some (r, v, s')\<rbrakk> \<Longrightarrow> P s'"
    and info: "\<lbrakk>P s; find_proc_info V s thread pc = Some (r, s')\<rbrakk> \<Longrightarrow> P s'"
begin

lemma calls: "callbacks V thread uc s s' \<Longrightarrow> P s \<Longrightarrow> P s'"
  by (induction rule: callbacks.induct) (use mem info in blast)+

lemma loop:
  assumes "cursor_calls V thread uc U" "frames_loop U depth c s ips i = Some (j, ips', s')" "P s"
  shows "P s'"
  using assms
proof (induction U depth c s ips i rule: frames_loop.induct)
  case (1 U depth c s ips i)
  obtain r c1 s1 where st: "unw_step U c s = (r, c1, s1)" by (cases "unw_step U c s") auto
  then have "P s1" using "1.prems"(1,3) calls unfolding cursor_calls_def by blast
  then show ?case using "1.IH" [OF st [symmetric] refl] "1.prems"(1,2) st
    by (subst (asm) (2) frames_loop.simps) (auto split: if_splits)
qed

lemma walk:
  assumes U: "cursor_calls V thread uc U" and r: "get_entries U s thread uc st = Some (r, st', s')" and P: "P s"
  shows "P s'"
proof -
  consider "s' = s" | e c s1 where "unw_init_remote U s = (e, c, s1)" "s' = s1"
    | e c s1 d ips j ips' where "unw_init_remote U s = (e, c, s1)" "frames_loop U d c s1 ips 1 = Some (j, ips', s')"
    using r by (rule get_entries_states)
  then show ?thesis
  proof cases
    case 1
    then show ?thesis using P by simp
  next
    case 2
    then show ?thesis using U P calls unfolding cursor_calls_def by blast
  next
    case 3
    then have "P s1" using U P calls unfolding cursor_calls_def by blast
    with loop [OF U 3(2)] show ?thesis .
  qed
qed

end

section \<open>What a callback changes\<close>

text \<open>At most the cached file data of one DSO.\<close>

definition data_only :: "'a machine_state_scheme \<Rightarrow> 'a machine_state_scheme \<Rightarrow> bool" where
  "data_only s s' \<longleftrightarrow> s' = s \<or> (\<exists>a d data. dso_st s a = Some d \<and> s' = s\<lparr>dso_st := (dso_st s)(a \<mapsto> d\<lparr>d_data := data\<rparr>)\<rparr>)"

lemma data_only_refl [simp]: "data_only s s"
  by (simp add: data_only_def)

lemma data_only_upd: "upd_dso a (\<lambda>d. d\<lparr>d_data := data\<rparr>) s = Some s' \<Longrightarrow> data_only s s'"
  by (auto simp: data_only_def upd_dso_def split: option.split_asm)

lemma find_map_same:
  assumes ok: "world_ok s" and f: "find_map s thread pc = Some (mp, s')"
  shows "s' = s"
proof -
  obtain t :: thread_obj where "maps__find s (t_maps t) pc = Some (mp, s')" using f by (auto simp: find_map_def bind_eq_Some)
  moreover from this obtain ms where ms: "maps_st s (t_maps t) = Some ms" by (auto simp: maps__find_def bind_eq_Some)
  moreover obtain l where "down_read (singlethreaded s) Free = Some (0, l)" "up_read (singlethreaded s) l = Some (0, Free)"
    using read_lock.free [of "singlethreaded s"] read_lock.paired by blast
  moreover have "ms_lock ms = Free" using ok ms by (simp add: world_ok_def)
  moreover from this have "s\<lparr>maps_st := (maps_st s)(t_maps t \<mapsto> ms\<lparr>ms_lock := Free\<rparr>)\<rparr> = s"
    using ms by (cases ms) (simp add: fun_upd_idem)
  ultimately show ?thesis
    by (auto simp: maps__find_def upd_maps_def bind_eq_Some split: option.splits if_splits)
qed

lemma access_dso_mem_data:
  assumes ok: "world_ok s" and r: "access_dso_mem V s thread addr = Some (r, v, s')"
  shows "data_only s s'"
proof -
  obtain mp s1 where f: "find_map s thread addr = Some (mp, s1)" using r by (auto simp: access_dso_mem_def bind_eq_Some)
  with r find_map_same [OF ok f] show ?thesis
    by (auto simp: access_dso_mem_def bind_eq_Some data_only_upd split: if_split_asm)
qed

lemma access_mem_data:
  assumes "world_ok s" "access_mem V s thread uc addr write = Some (r, v, s')"
  shows "data_only s s'"
  using assms by (auto simp: access_mem_def bind_eq_Some Let_def access_dso_mem_data split: if_split_asm)

lemma find_proc_info_data:
  assumes ok: "world_ok s" and r: "find_proc_info V s thread pc = Some (r, s')"
  shows "data_only s s'"
proof -
  obtain mp s1 where f: "find_map s thread pc = Some (mp, s1)" using r by (auto simp: find_proc_info_def bind_eq_Some)
  show ?thesis
  proof (cases "mp = 0 \<or> (\<exists>m. map_st s mp = Some m \<and> m_dso m = 0)")
    case True
    then show ?thesis using r f find_map_same [OF ok f] by (auto simp: find_proc_info_def bind_eq_Some split: if_split_asm)
  next
    case False
    then obtain m d q data s2 where "map_st s mp = Some m" "m_dso m \<noteq> 0" "upd_dso (m_dso m) (\<lambda>d. d\<lparr>d_data := data\<rparr>) s = Some s2"
        "dso_st s (m_dso m) = Some d" "read_unwind_spec_eh_frame V (d_long_name d) (d_data d) = Some (q, data)"
      using r f find_map_same [OF ok f] by (auto simp: find_proc_info_def bind_eq_Some)
    moreover from this have "s' = s2"
      using False r f find_map_same [OF ok f] by (cases q) (auto simp: find_proc_info_def split: prod.split_asm)
    ultimately show ?thesis using data_only_upd by blast
  qed
qed

lemma world_ok_data:
  assumes ok: "world_ok s" and d: "data_only s s'"
  shows "world_ok s'"
proof (cases "s' = s")
  case True
  with ok show ?thesis by simp
next
  case False
  then obtain a d data where s': "dso_st s a = Some d" "s' = s\<lparr>dso_st := (dso_st s)(a \<mapsto> d\<lparr>d_data := data\<rparr>)\<rparr>"
    using d by (auto simp: data_only_def)
  have "long_name_of (dso_st s') = long_name_of (dso_st s)" using s' by (auto simp: long_name_of_def fun_eq_iff)
  moreover have "\<forall>x\<in>set (dsos_head s). \<exists>e. dso_st s' x = Some e \<and> dso_linked e"
  proof
    fix x
    assume "x \<in> set (dsos_head s)"
    then obtain e where e: "dso_st s x = Some e" "dso_linked e" using ok unfolding world_ok_def dsos_ok_def by blast
    then show "\<exists>e. dso_st s' x = Some e \<and> dso_linked e" using s' by (cases "x = a") (auto simp: dso_linked_def)
  qed
  moreover have "dom (dso_st s') = dom (dso_st s)" "dso_st s' 0 = dso_st s 0" using s' ok by (auto simp: world_ok_def dsos_ok_def)
  ultimately have "dsos_ok s'" using ok s'(2) by (simp add: world_ok_def dsos_ok_def)
  moreover have "machine_ok s'" by (rule machine_ok_cong [of s]) (use ok s'(2) in \<open>simp_all add: world_ok_def\<close>)
  moreover have "maps_ok s' m ms \<longleftrightarrow> maps_ok s m ms" for m ms using s'(2) by (simp add: maps_ok_def)
  ultimately show ?thesis using ok s'(2) by (simp add: world_ok_def)
qed

section \<open>The invariants are kept\<close>

interpretation world_inv: callback_inv "\<lambda>s. world_ok s \<and> ops_attached s"
proof
  have keep: "world_ok s' \<and> ops_attached s'" if "world_ok s \<and> ops_attached s" "data_only s s'" for s s' :: machine_state
    using that world_ok_data [of s s'] by (auto simp: data_only_def ops_attached_def)
  show "world_ok s' \<and> ops_attached s'" if "world_ok s \<and> ops_attached s" "access_mem V s thread uc addr wr = Some (r, v, s')"
    for s s' :: machine_state and V thread uc addr wr r v
    using keep that access_mem_data by blast
  show "world_ok s' \<and> ops_attached s'" if "world_ok s \<and> ops_attached s" "find_proc_info V s thread pc = Some (r, s')"
    for s s' :: machine_state and V thread pc r
    using keep that find_proc_info_data by blast
qed

section \<open>Resolving a call chain\<close>

lemma ops_attachedD: "ops_attached s \<Longrightarrow> attached s tid"
  by (simp add: ops_attached_def attached_def)

lemma resolve_keeps:
  assumes ok: "world_ok s" "ops_attached s" and fit: "thread_fits s (sint (uc_tgid uc)) (sint (uc_tid uc))" and lib: "\<forall>log. lib log \<noteq> 0"
    and U: "\<forall>th. cursor_calls V th uc (U uc th)" and r: "bpf_unwind_ctx__resolve_callchain lib U st s uc = Some (r, st', s')"
  shows "world_ok s' \<and> ops_attached s'"
proof -
  obtain th s1 where s1: "world_ok s1" "ops_attached s1"
      "bpf_unwind_ctx__resolve_callchain lib U st s uc = get_entries (U uc th) s1 th uc st"
    using resolve_ok [OF ok(1) fit ops_attachedD [OF ok(2)] lib, of U st] ok(2) by blast
  show ?thesis by (rule world_inv.walk [of V th uc "U uc th" s1 st r st']) (use s1 r U in auto)
qed

text \<open>A trace the caller may pass: its array is at least as long as its depth says.\<close>

definition trace_ok :: "stacktrace option \<Rightarrow> bool" where
  "trace_ok st \<longleftrightarrow> (\<forall>tr ips. st = Some tr \<longrightarrow> st_ips tr = Some ips \<longrightarrow> st_depth tr \<le> int (length ips))"

lemma get_entries_returns:
  assumes t: "thread_st s thread = Some t" "t_addr_space t \<noteq> 0" and st: "trace_ok st"
  shows "\<exists>r st' s'. get_entries U s thread uc st = Some (r, st', s')"
proof (cases "\<exists>tr ips. st = Some tr \<and> st_ips tr = Some ips \<and> \<not> st_depth tr < 1")
  case False
  then show ?thesis unfolding get_entries_def by (auto split: option.split)
next
  case True
  then obtain tr ips where tr: "st = Some tr" "st_ips tr = Some ips" "1 \<le> st_depth tr" "st_depth tr \<le> int (length ips)"
    using st by (auto simp: trace_ok_def)
  obtain e c s1 where i: "unw_init_remote U s = (e, c, s1)" by (cases "unw_init_remote U s")
  show ?thesis
  proof (cases "e = 0")
    case True
    obtain fs s2 where "frame_list U (nat (st_depth tr - 1)) c s1 = (fs, s2)" by fastforce
    from get_entries_spec [OF t tr(2-4) _ this] i True tr(1) show ?thesis by blast
  next
    case False
    have "reg_value (uc_uregs uc) (x86_num X86_IP) = Some (ip (uc_uregs uc))" by (simp only: reg_value_spec reg_spec.simps)
    then show ?thesis using False t tr i by (auto simp: get_entries_def)
  qed
qed

lemma resolve_returns:
  assumes ok: "world_ok s" "ops_attached s" and fit: "thread_fits s (sint (uc_tgid uc)) (sint (uc_tid uc))" and lib: "\<forall>log. lib log \<noteq> 0"
    and st: "trace_ok st"
  shows "\<exists>r st' s'. bpf_unwind_ctx__resolve_callchain lib U st s uc = Some (r, st', s')"
proof -
  obtain th s1 t where s1: "thread_st s1 th = Some t" "t_addr_space t \<noteq> 0"
      "bpf_unwind_ctx__resolve_callchain lib U st s uc = get_entries (U uc th) s1 th uc st"
    using resolve_ok [OF ok(1) fit ops_attachedD [OF ok(2)] lib, of U st] by blast
  show ?thesis unfolding s1(3) by (rule get_entries_returns [OF s1(1,2) st])
qed

end
