(* ===== verification/Maps_Line.thy ===== *)
theory Maps_Line
  imports Event
begin

text \<open>
  The lines of \<^verbatim>\<open>/proc/<pid>/maps\<close> as the kernel prints them, and that the scanner of \<^verbatim>\<open>bpf_unwind_ctx_prepare_mmap\<close>
  reads back what was printed: addresses and the offset in hexadecimal with at least eight digits, the device as two hexadecimal
  numbers of at least two digits, the inode in decimal, and the name after padding.
\<close>

section \<open>Printing\<close>

definition digit_char :: "nat \<Rightarrow> char" where
  "digit_char d = char_of (if d < 10 then 48 + d else 87 + d)"

fun digits :: "nat \<Rightarrow> nat \<Rightarrow> string" where
  "digits base v = (if v < base \<or> base < 2 then [digit_char v] else digits base (v div base) @ [digit_char (v mod base)])"

declare digits.simps [simp del]

definition padded :: "nat \<Rightarrow> nat \<Rightarrow> nat \<Rightarrow> string" where
  "padded base w v = (let ds = digits base v in replicate (w - length ds) (CHR ''0'') @ ds)"

definition print_line :: "map_line \<Rightarrow> nat \<Rightarrow> string" where
  "print_line l pad = padded 16 8 (unat (l_start l)) @ ''-'' @ padded 16 8 (unat (l_end l)) @ '' '' @ l_prot l @ '' '' @
     padded 16 8 (unat (l_pgoff l)) @ '' '' @ padded 16 2 (unat (l_maj l)) @ '':'' @ padded 16 2 (unat (l_min l)) @ '' '' @
     padded 10 1 (unat (l_ino l)) @ '' '' @ replicate pad (CHR '' '') @ l_execname l @ [CHR 0x0a]"

section \<open>Numbers\<close>

lemma digit_char_val:
  assumes "d < 16"
  shows "digit_val (digit_char d) = Some (int d)" "\<not> is_space (digit_char d)" "digit_char d \<noteq> CHR ''-''" "digit_char d \<noteq> CHR ''+''"
    "digit_char d \<noteq> CHR ''x''" "digit_char d \<noteq> CHR ''X''"
proof -
  have "\<forall>d\<in>set [0..<16]. digit_val (digit_char d) = Some (int d) \<and> \<not> is_space (digit_char d) \<and> digit_char d \<noteq> CHR ''-'' \<and>
      digit_char d \<noteq> CHR ''+'' \<and> digit_char d \<noteq> CHR ''x'' \<and> digit_char d \<noteq> CHR ''X''"
    by code_simp
  with assms show "digit_val (digit_char d) = Some (int d)" "\<not> is_space (digit_char d)" "digit_char d \<noteq> CHR ''-''" "digit_char d \<noteq> CHR ''+''"
    "digit_char d \<noteq> CHR ''x''" "digit_char d \<noteq> CHR ''X''" by simp_all
qed

definition digit_string :: "nat \<Rightarrow> string \<Rightarrow> bool" where
  "digit_string base ds \<longleftrightarrow> ds \<noteq> [] \<and> (\<forall>c\<in>set ds. \<exists>d<base. c = digit_char d)"

lemma digits_string: "2 \<le> base \<Longrightarrow> digit_string base (digits base v)"
proof (induction base v rule: digits.induct)
  case (1 base v)
  show ?case
  proof (cases "v < base")
    case True
    then show ?thesis by (subst digits.simps) (auto simp: digit_string_def)
  next
    case False
    then have "\<exists>d<base. digit_char (v mod base) = digit_char d" using "1.prems" by (intro exI [of _ "v mod base"]) simp
    then show ?thesis using False 1 by (subst digits.simps) (simp add: digit_string_def)
  qed
qed

lemma digits_val_snoc:
  "d < 16 \<Longrightarrow> digits_val base (ds @ [digit_char d]) = digits_val base ds * base + int d"
  by (simp add: digits_val_def digit_char_val(1))

lemma digits_val_digits:
  assumes "2 \<le> base" "base \<le> 16"
  shows "digits_val (int base) (digits base v) = int v"
  using assms
proof (induction base v rule: digits.induct)
  case (1 base v)
  show ?case
  proof (cases "v < base")
    case True
    then show ?thesis using "1.prems" digits_val_snoc [of v "int base" "[]"] by (subst digits.simps) (simp add: digits_val_def)
  next
    case False
    then have "digits base v = digits base (v div base) @ [digit_char (v mod base)]" using "1.prems" by (subst digits.simps) simp
    moreover have "v mod base < 16" using "1.prems" mod_less_divisor [of base v] by linarith
    ultimately have "digits_val (int base) (digits base v) = int (v div base) * int base + int (v mod base)"
      using False 1 by (simp add: digits_val_snoc)
    then show ?thesis by (metis div_mult_mod_eq of_nat_add of_nat_mult)
  qed
qed

lemma padded_string:
  assumes "2 \<le> base"
  shows "digit_string base (padded base w v)"
proof -
  have "CHR ''0'' = digit_char 0" by code_simp
  moreover have "0 < base" using assms by simp
  ultimately have "\<exists>d<base. CHR ''0'' = digit_char d" by blast
  then show ?thesis using digits_string [OF assms, of v] by (auto simp: padded_def digit_string_def Let_def)
qed

lemma digits_val_padded:
  assumes "2 \<le> base" "base \<le> 16"
  shows "digits_val (int base) (padded base w v) = int v"
proof -
  have z: "foldl (\<lambda>v c. v * int base + (case digit_val c of Some d \<Rightarrow> d | None \<Rightarrow> 0)) 0 (replicate n (CHR ''0'')) = 0" for n
    by (induction n) (simp_all add: digit_val_def)
  show ?thesis using digits_val_digits [OF assms, of v] by (simp add: padded_def Let_def digits_val_def z)
qed

lemma scan_num_digits:
  assumes ds: "digit_string base ds" and base: "base = 16 \<or> base = 10" and val: "digits_val (int base) ds = int (unat v)"
    and c: "\<not> is_digit (int base) c" "c \<noteq> CHR ''x''" "c \<noteq> CHR ''X''" and sp: "\<forall>x\<in>set pre. is_space x"
  shows "scan_num (int base) (pre @ ds @ c # rest) = Some (v, c # rest)"
proof -
  obtain d0 ds' where d0: "ds = digit_char d0 # ds'" "d0 < base" using ds by (cases ds) (auto simp: digit_string_def)
  have all: "\<forall>x\<in>set ds. is_digit (int base) x \<and> \<not> is_space x \<and> x \<noteq> CHR ''x'' \<and> x \<noteq> CHR ''X''"
  proof
    fix x
    assume "x \<in> set ds"
    then obtain d where "d < base" "x = digit_char d" using ds unfolding digit_string_def by blast
    then show "is_digit (int base) x \<and> \<not> is_space x \<and> x \<noteq> CHR ''x'' \<and> x \<noteq> CHR ''X''"
      using digit_char_val [of d] base by (auto simp: is_digit_def)
  qed
  have drop: "dropWhile is_space (pre @ ds @ c # rest) = ds @ c # rest"
    using sp all d0(1) by (simp add: dropWhile_append2)
  have take: "takeWhile (is_digit (int base)) (ds @ c # rest) = ds" using all c(1) by (simp add: takeWhile_append2)
  have sign: "digit_char d0 \<noteq> CHR ''-''" "digit_char d0 \<noteq> CHR ''+''" using d0(2) base digit_char_val(3,4) [of d0] by auto
  have second: "(case ds @ c # rest of a # x # y # _ \<Rightarrow>
      if int base = 16 \<and> a = CHR ''0'' \<and> (x = CHR ''x'' \<or> x = CHR ''X'') \<and> is_digit 16 y then drop 2 (ds @ c # rest) else ds @ c # rest | _ \<Rightarrow> ds @ c # rest) = ds @ c # rest"
    using all c(2,3) by (cases ds'; cases rest) (auto simp: d0(1) split: list.splits)
  have "uint v < 2 ^ 64" using unsigned_less [where 'a = int, of v] by simp
  then have "min (int (unat v)) 0xffffffffffffffff = int (unat v)" by simp
  then have "word_of_int (min (digits_val (int base) ds) 0xffffffffffffffff) = v" using val by simp
  moreover have "ds \<noteq> []" using d0(1) by simp
  moreover have neg: "(case ds @ c # rest of a # _ \<Rightarrow> a = CHR ''-'' | [] \<Rightarrow> False) = False" using sign by (simp add: d0(1))
  have rest: "(case ds @ c # rest of a # r \<Rightarrow> if a = CHR ''-'' \<or> a = CHR ''+'' then r else ds @ c # rest | [] \<Rightarrow> ds @ c # rest) = ds @ c # rest"
    using sign by (simp add: d0(1))
  ultimately show ?thesis
    unfolding scan_num_def Let_def drop neg rest second take by simp
qed

lemma scan_padded:
  assumes "base = 16 \<or> base = 10" "\<not> is_digit (int base) c" "c \<noteq> CHR ''x''" "c \<noteq> CHR ''X''" "\<forall>x\<in>set pre. is_space x"
  shows "scan_num (int base) (pre @ padded base w (unat v) @ c # rest) = Some (v, c # rest)"
  by (rule scan_num_digits) (use assms padded_string [of base w "unat v"] digits_val_padded [of base w "unat v"] in auto)

section \<open>A whole line\<close>

text \<open>What the kernel prints: a permission word without white space, a name that fits the buffer and that does not start with white space
  or contain a newline.\<close>

definition printable :: "map_line \<Rightarrow> bool" where
  "printable l \<longleftrightarrow> l_prot l \<noteq> [] \<and> length (l_prot l) \<le> 4 \<and> (\<forall>c\<in>set (l_prot l). \<not> is_space c) \<and>
     CHR 0x0a \<notin> set (l_execname l) \<and> length (l_execname l) < PATH_MAX \<and> (l_execname l \<noteq> [] \<longrightarrow> \<not> is_space (hd (l_execname l)))"

lemma separators:
  "\<not> is_digit (int 16) (CHR '' '')" "\<not> is_digit (int 10) (CHR '' '')" "\<not> is_digit (int 16) (CHR ''-'')" "\<not> is_digit (int 16) (CHR '':'')"
  "is_space (CHR '' '')" "is_space (CHR 0x0a)"
  by code_simp+

lemma scan_word_at:
  assumes "w \<noteq> []" "\<forall>c\<in>set w. \<not> is_space c" "is_space c" "is_space d"
  shows "scan_word (d # w @ c # rest) = Some (w, c # rest)"
proof -
  obtain x w' where "w = x # w'" using assms(1) by (cases w) auto
  then have "dropWhile is_space (d # w @ c # rest) = w @ c # rest" using assms(2,4) by simp
  moreover have "takeWhile (\<lambda>c. \<not> is_space c) (w @ c # rest) = w" using assms(2,3) by (simp add: takeWhile_append2)
  ultimately show ?thesis using assms(1) by (simp add: scan_word_def)
qed

lemma scan_name:
  assumes "CHR 0x0a \<notin> set nm" "nm \<noteq> [] \<longrightarrow> \<not> is_space (hd nm)"
  shows "takeWhile (\<lambda>c. c \<noteq> CHR 0x0a) (dropWhile is_space (replicate n (CHR '' '') @ nm @ [CHR 0x0a])) = nm"
proof -
  have "dropWhile is_space (replicate n (CHR '' '') @ nm @ [CHR 0x0a]) = dropWhile is_space (nm @ [CHR 0x0a])"
    by (rule dropWhile_append2) (simp add: separators)
  moreover have "dropWhile is_space (nm @ [CHR 0x0a]) = (if nm = [] then [] else nm @ [CHR 0x0a])" using assms(2) by (cases nm) (simp_all add: separators)
  moreover have "takeWhile (\<lambda>c. c \<noteq> CHR 0x0a) (nm @ [CHR 0x0a]) = nm" using assms(1) by (induction nm) auto
  ultimately show ?thesis by simp
qed

lemma scan_hex:
  "scan_num 16 (padded 16 w (unat v) @ CHR ''-'' # rest) = Some (v, CHR ''-'' # rest)"
  "scan_num 16 (padded 16 w (unat v) @ CHR '' '' # rest) = Some (v, CHR '' '' # rest)"
  "scan_num 16 (CHR '' '' # padded 16 w (unat v) @ CHR '' '' # rest) = Some (v, CHR '' '' # rest)"
  "scan_num 16 (CHR '' '' # padded 16 w (unat v) @ CHR '':'' # rest) = Some (v, CHR '':'' # rest)"
  using scan_padded [of 16 "CHR ''-''" "[]" w v rest] scan_padded [of 16 "CHR '' ''" "[]" w v rest]
    scan_padded [of 16 "CHR '' ''" "[CHR '' '']" w v rest] scan_padded [of 16 "CHR '':''" "[CHR '' '']" w v rest] separators by simp_all

lemma scan_dec: "scan_num 10 (CHR '' '' # padded 10 w (unat v) @ CHR '' '' # rest) = Some (v, CHR '' '' # rest)"
  using scan_padded [of 10 "CHR '' ''" "[CHR '' '']" w v rest] separators(2,5) by simp

lemma u32_in_u64:
  fixes x :: u32
  shows "unat (ucast x :: u64) = unat x" "ucast (ucast x :: u64) = x"
proof -
  have "unat x < 2 ^ 32" using unsigned_less [where 'a = nat, of x] by simp
  then have "take_bit 64 (unat x) = unat x" by (simp add: take_bit_nat_eq_self_iff)
  then show "unat (ucast x :: u64) = unat x" by (simp add: unsigned_ucast_eq)
  show "ucast (ucast x :: u64) = x" by (rule bit_word_eqI) (simp add: bit_unsigned_iff)
qed

lemma scan_tail_print:
  assumes p: "printable l"
  shows "scan_tail start end' prot (CHR '' '' # padded 16 8 (unat (l_pgoff l)) @ CHR '' '' # padded 16 2 (unat (l_maj l)) @ CHR '':'' #
      padded 16 2 (unat (l_min l)) @ CHR '' '' # padded 10 1 (unat (l_ino l)) @ CHR '' '' # replicate n (CHR '' '') @ l_execname l @ [CHR 0x0a]) =
    Some \<lparr>l_start = start, l_end = end', l_prot = prot, l_pgoff = l_pgoff l, l_maj = l_maj l, l_min = l_min l, l_ino = l_ino l, l_execname = l_execname l\<rparr>"
proof -
  have n: "takeWhile (\<lambda>c. c \<noteq> CHR 0x0a) (dropWhile is_space (CHR '' '' # replicate n (CHR '' '') @ l_execname l @ [CHR 0x0a])) = l_execname l"
    using scan_name [of "l_execname l" "Suc n"] p by (simp add: printable_def)
  show ?thesis
    unfolding scan_tail_def u32_in_u64(1) [of "l_maj l", symmetric] u32_in_u64(1) [of "l_min l", symmetric] u32_in_u64(1) [of "l_ino l", symmetric]
    by (simp only: scan_hex scan_dec bind.bind_lunit prod.case scan_lit.simps if_True refl Let_def n u32_in_u64(2) HOL.simp_thms)
qed

lemma scan_print_line:
  assumes "printable l"
  shows "scan_maps_line (print_line l pad) = Some (Some l)"
proof -
  let ?tail = "CHR '' '' # padded 16 8 (unat (l_pgoff l)) @ CHR '' '' # padded 16 2 (unat (l_maj l)) @ CHR '':'' #
      padded 16 2 (unat (l_min l)) @ CHR '' '' # padded 10 1 (unat (l_ino l)) @ CHR '' '' # replicate pad (CHR '' '') @ l_execname l @ [CHR 0x0a]"
  have p: "print_line l pad = padded 16 8 (unat (l_start l)) @ CHR ''-'' # padded 16 8 (unat (l_end l)) @ CHR '' '' # l_prot l @ ?tail"
    by (simp add: print_line_def)
  have w: "scan_word (CHR '' '' # l_prot l @ ?tail) = Some (l_prot l, ?tail)"
    by (rule scan_word_at) (use assms in \<open>auto simp: printable_def separators\<close>)
  have "\<not> 4 < length (l_prot l)" "\<not> PATH_MAX \<le> length (l_execname l)" using assms by (auto simp: printable_def)
  then show ?thesis
    unfolding scan_maps_line_def p by (simp only: scan_hex bind.bind_lunit prod.case scan_lit.simps if_True refl w option.case scan_tail_print [OF assms] if_False) simp
qed

end
