(* ===== verification/Teardown.thy ===== *)
theory Teardown
  imports Event_Proofs Thread_Life
begin

text \<open>
  Deleting a machine (\<^verbatim>\<open>machine__delete\<close>): when the table owns the only reference to every thread, the threads, their
  collections of maps and all maps are freed, collections that several threads share with the last of these threads.
\<close>

section \<open>Ownership\<close>

text \<open>Every collection is used by threads and counts them; its lock is free and the collection owns its maps alone; there
  are no maps outside the collections.\<close>

definition coll_owned :: "(addr \<rightharpoonup> thread_obj) \<Rightarrow> 'a map_state_scheme \<Rightarrow> addr \<Rightarrow> maps_obj \<Rightarrow> bool" where
  "coll_owned st s m ms \<longleftrightarrow> users st m \<noteq> {} \<and> ms_refcnt ms = of_nat (card (users st m)) \<and> ms_lock ms = Free \<and>
     maps_ok s m ms \<and> (\<forall>a\<in>set (ms_head ms). droppable s a)"

definition maps_owned :: "(addr \<rightharpoonup> thread_obj) \<Rightarrow> 'a map_state_scheme \<Rightarrow> bool" where
  "maps_owned st s \<longleftrightarrow> (\<forall>m ms. maps_st s m = Some ms \<longrightarrow> coll_owned st s m ms) \<and>
     (\<forall>a. map_st s a \<noteq> None \<longrightarrow> (\<exists>m ms. maps_st s m = Some ms \<and> a \<in> set (ms_head ms)))"

lemma maps_ownedD:
  assumes "maps_owned st s" "maps_st s m = Some ms"
  shows "users st m \<noteq> {}" "ms_refcnt ms = of_nat (card (users st m))" "ms_lock ms = Free" "maps_ok s m ms" "\<forall>a\<in>set (ms_head ms). droppable s a"
  using assms by (auto simp: maps_owned_def coll_owned_def)

lemma coll_owned_frame:
  assumes "map_st s' = map_st s" "dso_st s' = dso_st s"
  shows "coll_owned st s' = coll_owned st s"
  unfolding coll_owned_def maps_ok_def droppable_def assms ..

lemma maps_owned_frame:
  assumes "maps_owned st s" "map_st s' = map_st s" "maps_st s' = maps_st s" "dso_st s' = dso_st s"
  shows "maps_owned st s'"
  using assms coll_owned_frame [of s' s st] by (simp add: maps_owned_def)

lemma users_remove: "users (st(a := None)) m = users st m - {a}"
  by (auto simp: users_def)

lemma users_other: "st a = Some t \<Longrightarrow> t_maps t \<noteq> m \<Longrightarrow> users (st(a := None)) m = users st m"
  by (auto simp: users_def)

lemma maps_head_disjoint:
  assumes "maps_ok s m ms" "maps_ok s m' ms'" "m \<noteq> m'"
  shows "set (ms_head ms) \<inter> set (ms_head ms') = {}"
  using assms by (force simp: maps_ok_def in_maps_def)

lemma maps_ok_other:
  assumes ok: "maps_ok s m ms" and d: "set (ms_head ms) \<inter> X = {}" and M: "map_st s' = (\<lambda>a. if a \<in> X then None else map_st s a)"
  shows "maps_ok s' m ms"
proof -
  have h: "set (ms_head ms) = set (inorder (ms_entries ms))" using ok by (simp add: maps_ok_def)
  have e: "map_st s' a = map_st s a" if "a \<in> set (ms_head ms)" for a using that d M by auto
  have k: "map (start_of (map_st s')) (inorder (ms_entries ms)) = map (start_of (map_st s)) (inorder (ms_entries ms))"
    using e h by (auto simp: start_of_def)
  show ?thesis using ok e unfolding maps_ok_def k by simp
qed

text \<open>A DSO loses references but no DSO disappears.\<close>

lemma fold_drop_ref_dom [simp]: "fold drop_ref ds st a = None \<longleftrightarrow> st a = None"
  by (induction ds arbitrary: st) simp_all

lemma maps__put_more:
  assumes "maps_st s m = Some ms" "ms_refcnt ms \<noteq> 1" "m \<noteq> 0"
  shows "maps__put s m = Some (s\<lparr>maps_st := (maps_st s)(m \<mapsto> ms\<lparr>ms_refcnt := ms_refcnt ms - 1\<rparr>)\<rparr>)"
  using assms by (simp add: maps__put_def refcount_dec_and_test_def upd_maps_def)

lemma of_nat_u32_1: "n < 2 ^ 32 \<Longrightarrow> (of_nat n :: u32) = 1 \<longleftrightarrow> n = 1"
  using unat_of_nat [where 'a = 32, of n] by (auto simp: take_bit_nat_eq_self)

text \<open>One user less.\<close>

lemma maps_put_owned:
  assumes ow: "maps_owned st s" and a: "st a = Some t" "t_maps t = m" and ms: "maps_st s m = Some ms"
    and fin: "finite (dom st)" "card (dom st) < 2 ^ 32"
  shows "\<exists>ds M C. maps__put s m = Some (s\<lparr>dso_st := fold drop_ref ds (dso_st s), map_st := M, maps_st := C\<rparr>) \<and>
    maps_owned (st(a := None)) (s\<lparr>dso_st := fold drop_ref ds (dso_st s), map_st := M, maps_st := C\<rparr>) \<and>
    (\<forall>m'. m' \<noteq> m \<longrightarrow> C m' = maps_st s m') \<and> (users (st(a := None)) m \<noteq> {} \<longrightarrow> C m \<noteq> None)"
proof -
  note o = maps_ownedD [OF ow ms]
  have m0: "m \<noteq> 0" using o(4) by (simp add: maps_ok_def)
  have sub: "users st m \<subseteq> dom st" by (auto simp: users_def)
  have finu: "finite (users st m)" using sub fin(1) by (rule finite_subset)
  have small: "card (users st m) < 2 ^ 32" using card_mono [OF fin(1) sub] fin(2) by simp
  have au: "a \<in> users st m" using a by (simp add: users_def)
  have pos: "0 < card (users st m)" using au finu by (auto simp: card_gt_0_iff)
  have card: "card (users (st(a := None)) m) = card (users st m) - 1" using au by (simp add: users_remove)
  have other: "users (st(a := None)) m' = users st m'" if "m' \<noteq> m" for m' using users_other [of st a t m'] a that by simp
  show ?thesis
  proof (cases "card (users st m) = 1")
    case False
    let ?ms = "ms\<lparr>ms_refcnt := ms_refcnt ms - 1\<rparr>"
    let ?s = "s\<lparr>dso_st := fold drop_ref [] (dso_st s), map_st := map_st s, maps_st := (maps_st s)(m \<mapsto> ?ms)\<rparr>"
    have "of_nat (card (users st m)) \<noteq> (1 :: u32)"
      using False small by (simp add: of_nat_u32_1)
    then have "maps__put s m = Some ?s" using maps__put_more [OF ms _ m0] o(2) by simp
    moreover have ne: "users (st(a := None)) m \<noteq> {}" using card pos False by (metis One_nat_def Suc_diff_1 card.empty)
    moreover have "maps_owned (st(a := None)) ?s"
    proof -
      have r: "ms_refcnt ?ms = of_nat (card (users (st(a := None)) m))" using o(2) pos by (simp add: card of_nat_diff)
      have f: "coll_owned (st(a := None)) ?s = coll_owned (st(a := None)) s" by (rule coll_owned_frame) simp_all
      have k: "maps_ok s m ?ms" using o(4) by (simp add: maps_ok_def)
      show ?thesis
        unfolding maps_owned_def f
      proof (intro conjI allI impI)
        fix m' ms'
        assume "maps_st ?s m' = Some ms'"
        then consider "m' = m" "ms' = ?ms" | "m' \<noteq> m" "maps_st s m' = Some ms'" by (auto split: if_splits)
        then show "coll_owned (st(a := None)) s m' ms'"
        proof cases
          case 1
          show ?thesis unfolding 1 coll_owned_def using r ne o(3,5) k by simp
        next
          case 2
          show ?thesis unfolding coll_owned_def other [OF 2(1)] using maps_ownedD [OF ow 2(2)] by simp
        qed
      next
        fix b
        assume "map_st ?s b \<noteq> None"
        then obtain m' ms' where "maps_st s m' = Some ms'" "b \<in> set (ms_head ms')" using ow unfolding maps_owned_def by auto
        with ms show "\<exists>m ms. maps_st ?s m = Some ms \<and> b \<in> set (ms_head ms)"
          by (intro exI [of _ m'] exI [of _ "if m' = m then ?ms else ms'"]) auto
      qed
    qed
    ultimately show ?thesis by (intro exI [of _ "[]"] exI [of _ "map_st s"] exI [of _ "(maps_st s)(m \<mapsto> ?ms)"]) simp
  next
    case True
    let ?ds = "map (dso_of (map_st s)) (inorder (ms_entries ms))" and ?M = "\<lambda>a. if a \<in> set (ms_head ms) then None else map_st s a"
    let ?s = "s\<lparr>dso_st := fold drop_ref ?ds (dso_st s), map_st := ?M, maps_st := (maps_st s)(m := None)\<rparr>"
    have e: "users (st(a := None)) m = {}" using card True finu by (simp add: users_remove)
    have put: "maps__put s m = Some ?s" using maps__put_last [OF ms o(4,5)] o(2,3) True by simp
    have "maps_owned (st(a := None)) ?s"
      unfolding maps_owned_def
    proof (intro conjI allI impI)
      fix m' ms'
      assume "maps_st ?s m' = Some ms'"
      then have m': "m' \<noteq> m" "maps_st s m' = Some ms'" by (auto split: if_splits)
      note o' = maps_ownedD [OF ow m'(2)]
      have dj: "set (ms_head ms') \<inter> set (ms_head ms) = {}" using maps_head_disjoint [OF o'(4) o(4) m'(1)] .
      have "maps_ok ?s m' ms'" by (rule maps_ok_other [OF o'(4) dj]) simp
      moreover have "\<forall>b\<in>set (ms_head ms'). droppable ?s b"
        using o'(5) dj by (fastforce simp: droppable_def split: option.splits)
      ultimately show "coll_owned (st(a := None)) ?s m' ms'" unfolding coll_owned_def other [OF m'(1)] using o'(1-3) by simp
    next
      fix b
      assume "map_st ?s b \<noteq> None"
      then have b: "b \<notin> set (ms_head ms)" "map_st s b \<noteq> None" by (auto split: if_splits)
      then obtain m' ms' where "maps_st s m' = Some ms'" "b \<in> set (ms_head ms')" using ow unfolding maps_owned_def by blast
      with b(1) ms show "\<exists>m ms. maps_st ?s m = Some ms \<and> b \<in> set (ms_head ms)"
        by (intro exI [of _ m'] exI [of _ ms']) auto
    qed
    with put e show ?thesis
      by (intro exI [of _ ?ds] exI [of _ ?M] exI [of _ "(maps_st s)(m := None)"]) simp
  qed
qed

section \<open>Removing threads\<close>

text \<open>The table owns the only reference to each thread.\<close>

definition threads_owned :: "'a machine_state_scheme \<Rightarrow> bool" where
  "threads_owned s \<longleftrightarrow> (\<forall>b. tree_ok (thread_st s) b (tab s b) \<and> th_dead (tab s b) = []) \<and>
     (\<forall>a t. thread_st s a = Some t \<longrightarrow> t_refcnt t = 1 \<and> t_maps t \<noteq> 0 \<and> maps_st s (t_maps t) \<noteq> None \<and> (\<exists>b. a \<in> members (tab s b))) \<and>
     finite (dom (thread_st s)) \<and> card (dom (thread_st s)) < 2 ^ 32 \<and> maps_owned (thread_st s) s"

text \<open>What the removal of threads leaves alone, the reference counts of DSOs apart.\<close>

definition dsos_kept :: "'a machine_state_scheme \<Rightarrow> 'a machine_state_scheme \<Rightarrow> bool" where
  "dsos_kept s s' \<longleftrightarrow> (\<exists>ds. dso_st s' = fold drop_ref ds (dso_st s)) \<and> dsos_head s' = dsos_head s \<and> dsos_root s' = dsos_root s \<and>
     dsos_lock s' = dsos_lock s \<and> singlethreaded s' = singlethreaded s \<and> next_addr s' = next_addr s"

lemma dsos_kept_refl: "dsos_kept s s"
  by (auto simp: dsos_kept_def intro: exI [of _ "[]"])

lemma dsos_kept_trans:
  assumes "dsos_kept s s'" "dsos_kept s' s''"
  shows "dsos_kept s s''"
proof -
  obtain ds ds' where "dso_st s' = fold drop_ref ds (dso_st s)" "dso_st s'' = fold drop_ref ds' (dso_st s')"
    using assms by (auto simp: dsos_kept_def)
  then have "\<exists>xs. dso_st s'' = fold drop_ref xs (dso_st s)" by (intro exI [of _ "ds @ ds'"]) simp
  then show ?thesis using assms by (simp add: dsos_kept_def)
qed

lemma bucket_unique:
  assumes "tree_ok st b T" "tree_ok st b' T'" "a \<in> members T" "a \<in> members T'"
  shows "b = b'"
  using tree_ok_member [OF assms(1,3)] tree_ok_member [OF assms(2,4)] by auto

definition removed :: "addr \<Rightarrow> threads \<Rightarrow> threads \<Rightarrow> bool" where
  "removed a T T' \<longleftrightarrow> rb_ok (th_entries T') \<and> inorder (th_entries T') = remove1 a (inorder (th_entries T)) \<and>
     th_last_match T' = (if th_last_match T = a then 0 else th_last_match T) \<and> th_dead T' = [] \<and> th_lock T' = th_lock T \<and> th_nr T' = th_nr T - 1"

lemma remove_thread_computes:
  assumes ow: "threads_owned s" and a: "a \<in> members (tab s b)" "thread_st s a = Some t"
  shows "\<exists>T s'. uu_machine__remove_thread s a False = Some s' \<and> removed a (tab s b) T \<and> tab s' = (tab s)(b := T) \<and>
    thread_st s' = (thread_st s)(a := None) \<and> unw_log s' = unw_log s @ destroyed t \<and> dsos_kept s s' \<and>
    maps_owned ((thread_st s)(a := None)) s' \<and> (\<forall>m. m \<noteq> t_maps t \<longrightarrow> maps_st s' m = maps_st s m) \<and>
    (users ((thread_st s)(a := None)) (t_maps t) \<noteq> {} \<longrightarrow> maps_st s' (t_maps t) \<noteq> None)"
proof -
  have ok: "tree_ok (thread_st s) b (tab s b)" "th_dead (tab s b) = []" using ow by (simp_all add: threads_owned_def)
  have t: "t_refcnt t = 1" "t_maps t \<noteq> 0" "maps_st s (t_maps t) \<noteq> None" using ow a(2) by (auto simp: threads_owned_def)
  have fin: "finite (dom (thread_st s))" "card (dom (thread_st s)) < 2 ^ 32" "maps_owned (thread_st s) s"
    using ow by (simp_all add: threads_owned_def)
  have b: "machine__threads (t_tid t) = b" "a \<noteq> 0" using tree_ok_member [OF ok(1) a(1)] a(2) by auto
  have "distinct (inorder (th_entries (tab s b)))" using ok by (auto simp: tree_ok_def distinct_map)
  then obtain e where e: "rbt_erase a (th_entries (tab s b)) = Some e" "rb_ok e" "inorder e = remove1 a (inorder (th_entries (tab s b)))"
    using rbt_erase_ok [of "th_entries (tab s b)" a] ok a(1) by (auto simp: tree_ok_def members_def)
  let ?t = "t\<lparr>t_node := Dead b\<rparr>"
  let ?T = "(tab s b)\<lparr>th_last_match := (if th_last_match (tab s b) = a then 0 else th_last_match (tab s b)), th_entries := e,
      th_nr := th_nr (tab s b) - 1, th_dead := [a]\<rparr>"
  let ?s = "s\<lparr>tab := (tab s)(b := ?T), thread_st := (thread_st s)(a \<mapsto> ?t)\<rparr>"
  have eq: "uu_machine__remove_thread s a False = thread__put ?s a"
    using a(2) b t(1) e(1) ok(2) by (auto simp: uu_machine__remove_thread_def refcount_read_def upd_tab_def upd_thread_def)
  let ?x = "buried ?s a ?t b"
  have x: "map_st ?x = map_st s" "maps_st ?x = maps_st s" "dso_st ?x = dso_st s" "unw_log ?x = unw_log s" by (simp_all add: buried_def)
  have xo: "maps_owned (thread_st s) ?x" by (rule maps_owned_frame [OF fin(3)]) (simp_all add: x)
  obtain ms where ms: "maps_st ?x (t_maps t) = Some ms" using t(3) x(2) by auto
  obtain ds M C where put: "maps__put ?x (t_maps t) = Some (?x\<lparr>dso_st := fold drop_ref ds (dso_st ?x), map_st := M, maps_st := C\<rparr>)"
    "maps_owned ((thread_st s)(a := None)) (?x\<lparr>dso_st := fold drop_ref ds (dso_st ?x), map_st := M, maps_st := C\<rparr>)"
    "\<forall>m'. m' \<noteq> t_maps t \<longrightarrow> C m' = maps_st ?x m'" "users ((thread_st s)(a := None)) (t_maps t) \<noteq> {} \<longrightarrow> C (t_maps t) \<noteq> None"
    using maps_put_owned [where st = "thread_st s" and a = a and s = ?x and t = t, OF xo a(2) refl ms fin(1,2)] by blast
  let ?s2 = "?x\<lparr>dso_st := fold drop_ref ds (dso_st ?x), map_st := M, maps_st := C\<rparr>"
  let ?s3 = "?s2\<lparr>thread_st := (thread_st ?s)(a := None), unw_log := unw_log ?s @ destroyed ?t\<rparr>"
  have run: "uu_machine__remove_thread s a False = Some ?s3"
    unfolding eq by (rule thread__put_last [where b = b]) (use t b put(1) in \<open>simp_all add: x\<close>)
  have "removed a (tab s b) (?T\<lparr>th_dead := []\<rparr>)" using e by (simp add: removed_def)
  moreover have "tab ?s3 = (tab s)(b := ?T\<lparr>th_dead := []\<rparr>)" by (simp add: buried_def)
  moreover have "dsos_kept s ?s3" by (auto simp: dsos_kept_def buried_def intro: exI [of _ ds])
  moreover have "maps_owned ((thread_st s)(a := None)) ?s3" by (rule maps_owned_frame [OF put(2)]) simp_all
  ultimately show ?thesis using run put(3,4)
    by (intro exI [of _ "?T\<lparr>th_dead := []\<rparr>"] exI [of _ ?s3] conjI) (assumption | simp add: x destroyed_def)+
qed

lemma remove_thread_owned:
  assumes ow: "threads_owned s" and a: "a \<in> members (tab s b)" "thread_st s a = Some t"
  shows "\<exists>T s'. uu_machine__remove_thread s a False = Some s' \<and> threads_owned s' \<and> removed a (tab s b) T \<and> tab s' = (tab s)(b := T) \<and>
    thread_st s' = (thread_st s)(a := None) \<and> unw_log s' = unw_log s @ destroyed t \<and> dsos_kept s s'"
proof -
  obtain T s' where r: "uu_machine__remove_thread s a False = Some s'" "removed a (tab s b) T" "tab s' = (tab s)(b := T)"
    "thread_st s' = (thread_st s)(a := None)" "unw_log s' = unw_log s @ destroyed t" "dsos_kept s s'"
    "maps_owned ((thread_st s)(a := None)) s'" "\<forall>m. m \<noteq> t_maps t \<longrightarrow> maps_st s' m = maps_st s m"
    "users ((thread_st s)(a := None)) (t_maps t) \<noteq> {} \<longrightarrow> maps_st s' (t_maps t) \<noteq> None"
    using remove_thread_computes [OF assms] by (elim exE conjE) (rule that; assumption)
  have tr: "tree_ok (thread_st s) x (tab s x)" "th_dead (tab s x) = []" for x using ow by (simp_all add: threads_owned_def)
  have d: "distinct (inorder (th_entries (tab s b)))" using tr(1) [of b] by (auto simp: tree_ok_def distinct_map)
  have mT: "members T = members (tab s b) - {a}" using r(2) d by (simp add: removed_def members_def)
  have "tree_ok (thread_st s') x (tab s' x) \<and> th_dead (tab s' x) = []" for x
  proof (cases "x = b")
    case True
    have "tree_ok (thread_st s') b T"
      by (rule tree_ok_remove [OF tr(1) [of b] a(1)]) (use r(2) in \<open>simp_all add: removed_def r(4)\<close>)
    then show ?thesis using True r(2) by (simp add: r(3) removed_def)
  next
    case False
    then have "c \<noteq> a" if "c \<in> members (tab s x)" for c using bucket_unique [OF tr(1) [of b] tr(1) [of x] a(1)] that by auto
    then have "tree_ok (thread_st s') x (tab s x)" using tr(1) [of x] by (intro tree_ok_cong [OF tr(1) [of x]]) (auto simp: r(4) tree_ok_def)
    then show ?thesis using False tr(2) by (simp add: r(3))
  qed
  moreover have "t_refcnt u = 1 \<and> t_maps u \<noteq> 0 \<and> maps_st s' (t_maps u) \<noteq> None \<and> (\<exists>b. c \<in> members (tab s' b))" if "thread_st s' c = Some u" for c u
  proof -
    have c: "c \<noteq> a" "thread_st s c = Some u" using that by (auto simp: r(4) split: if_splits)
    then obtain x where u: "t_refcnt u = 1" "t_maps u \<noteq> 0" "maps_st s (t_maps u) \<noteq> None" "c \<in> members (tab s x)" using ow unfolding threads_owned_def by blast
    have "c \<in> members (tab s' x)" using u(4) c(1) mT by (auto simp: r(3))
    moreover have "maps_st s' (t_maps u) \<noteq> None"
    proof (cases "t_maps u = t_maps t")
      case True
      have "c \<in> users ((thread_st s)(a := None)) (t_maps t)" using c True by (simp add: users_def)
      then show ?thesis using r(9) True by auto
    qed (use r(8) u(3) in auto)
    ultimately show ?thesis using u(1,2) by blast
  qed
  moreover have "finite (dom (thread_st s'))" "card (dom (thread_st s')) < 2 ^ 32" "maps_owned (thread_st s') s'"
    using ow r(7) card_Diff1_le [of "dom (thread_st s)" a] by (simp_all add: r(4) threads_owned_def)
  ultimately have "threads_owned s'" unfolding threads_owned_def by blast
  with r(1-6) show ?thesis by blast
qed

text \<open>The calls of one bucket: the threads go in the order of their ids.\<close>

definition destroyed_of :: "'a machine_state_scheme \<Rightarrow> addr \<Rightarrow> unw_call list" where
  "destroyed_of s a = (case thread_st s a of Some t \<Rightarrow> destroyed t | None \<Rightarrow> [])"

lemma delete_loop_owned:
  assumes "threads_owned s" "inorder (th_entries (tab s b)) = xs"
  shows "\<exists>T s'. delete_threads_loop s b (rbt_first (th_entries (tab s b))) = Some s' \<and> threads_owned s' \<and> tab s' = (tab s)(b := T) \<and>
    members T = {} \<and> th_lock T = th_lock (tab s b) \<and> thread_st s' = (thread_st s) |` (- set xs) \<and>
    unw_log s' = unw_log s @ concat (map (destroyed_of s) xs) \<and> dsos_kept s s'"
  using assms
proof (induction xs arbitrary: s)
  case Nil
  then show ?case
    by (intro exI [of _ "tab s b"] exI [of _ s]) (subst delete_threads_loop.simps, simp add: rbt_first_def members_def dsos_kept_refl restrict_map_def)
next
  case (Cons a xs)
  have tr: "tree_ok (thread_st s) b (tab s b)" using Cons.prems(1) by (simp add: threads_owned_def)
  have a: "a \<in> members (tab s b)" using Cons.prems(2) by (simp add: members_def)
  obtain t where t: "thread_st s a = Some t" "a \<noteq> 0" using tree_ok_member [OF tr a] by auto
  obtain T s1 where r: "uu_machine__remove_thread s a False = Some s1" "threads_owned s1" "removed a (tab s b) T" "tab s1 = (tab s)(b := T)"
    "thread_st s1 = (thread_st s)(a := None)" "unw_log s1 = unw_log s @ destroyed t" "dsos_kept s s1"
    using remove_thread_owned [OF Cons.prems(1) a t(1)] by (elim exE conjE) (rule that; assumption)
  have xs: "inorder (th_entries (tab s1 b)) = xs" using r(3) Cons.prems(2) by (simp add: r(4) removed_def)
  have d: "a \<notin> set xs" using tr Cons.prems(2) by (auto simp: tree_ok_def distinct_map)
  have nx: "rbt_next (th_entries (tab s b)) a = rbt_first (th_entries (tab s1 b))" using rbt_first_next [OF Cons.prems(2) xs] .
  have fst: "rbt_first (th_entries (tab s b)) = a" using Cons.prems(2) by (simp add: rbt_first_def)
  have step: "delete_threads_loop s b a = delete_threads_loop s1 b (rbt_first (th_entries (tab s1 b)))"
    by (subst delete_threads_loop.simps) (use t(2) r(1) nx in simp)
  obtain T' s' where i: "delete_threads_loop s1 b (rbt_first (th_entries (tab s1 b))) = Some s'" "threads_owned s'" "tab s' = (tab s1)(b := T')"
    "members T' = {}" "th_lock T' = th_lock (tab s1 b)" "thread_st s' = (thread_st s1) |` (- set xs)"
    "unw_log s' = unw_log s1 @ concat (map (destroyed_of s1) xs)" "dsos_kept s1 s'"
    using Cons.IH [OF r(2) xs] by (elim exE conjE) (rule that; assumption)
  have ds: "map (destroyed_of s1) xs = map (destroyed_of s) xs" using d by (auto simp: destroyed_of_def r(5))
  have "unw_log s' = unw_log s @ concat (map (destroyed_of s) (a # xs))" unfolding i(7) ds r(6) by (simp add: destroyed_of_def t(1))
  moreover have "thread_st s' = (thread_st s) |` (- set (a # xs))" by (auto simp: i(6) r(5) restrict_map_def)
  moreover have "th_lock T' = th_lock (tab s b)" using i(5) r(3,4) by (simp add: removed_def)
  moreover have "tab s' = (tab s)(b := T')" by (simp add: i(3) r(4))
  ultimately show ?case using i(1,2,4) dsos_kept_trans [OF r(7) i(8)] unfolding fst step by blast
qed

lemma threads_owned_lock:
  assumes "threads_owned s" shows "threads_owned (upd_tab b (\<lambda>T. T\<lparr>th_lock := l\<rparr>) s)"
proof -
  let ?s = "upd_tab b (\<lambda>T. T\<lparr>th_lock := l\<rparr>) s"
  have st: "thread_st ?s = thread_st s" "maps_st ?s = maps_st s" by (simp_all add: upd_tab_def)
  have m: "members (tab ?s x) = members (tab s x)" "tree_ok st x (tab ?s x) = tree_ok st x (tab s x)" "th_dead (tab ?s x) = th_dead (tab s x)" for x st
    by (simp_all add: upd_tab_def members_def tree_ok_def)
  have "maps_owned (thread_st s) ?s" by (rule maps_owned_frame [of _ s]) (use assms in \<open>simp_all add: threads_owned_def upd_tab_def\<close>)
  then show ?thesis using assms unfolding threads_owned_def st m by blast
qed

lemma delete_bucket_owned:
  assumes ow: "threads_owned s" and free: "th_lock (tab s b) = Free"
  shows "\<exists>T s'. delete_bucket s b = Some s' \<and> threads_owned s' \<and> tab s' = (tab s)(b := T) \<and> members T = {} \<and> th_lock T = Free \<and>
    thread_st s' = (thread_st s) |` (- members (tab s b)) \<and>
    unw_log s' = unw_log s @ concat (map (destroyed_of s) (inorder (th_entries (tab s b)))) \<and> dsos_kept s s'"
proof -
  obtain l where l: "down_write (singlethreaded s) Free = Some (0, l)" "up_write (singlethreaded s) l = Some (0, Free)"
    using write_lock.free [of "singlethreaded s"] write_lock.paired by blast
  let ?xs = "inorder (th_entries (tab s b))"
  let ?s = "upd_tab b (\<lambda>T. T\<lparr>th_lock := l\<rparr>) s"
  have ow': "threads_owned ?s" using ow by (rule threads_owned_lock)
  have e: "inorder (th_entries (tab ?s b)) = ?xs" "thread_st ?s = thread_st s" "unw_log ?s = unw_log s" "th_lock (tab ?s b) = l"
    by (simp_all add: upd_tab_def)
  obtain T s1 where r: "delete_threads_loop ?s b (rbt_first (th_entries (tab ?s b))) = Some s1" "threads_owned s1" "tab s1 = (tab ?s)(b := T)"
    "members T = {}" "th_lock T = l" "thread_st s1 = (thread_st s) |` (- set ?xs)"
    "unw_log s1 = unw_log s @ concat (map (destroyed_of ?s) ?xs)" "dsos_kept ?s s1"
    using delete_loop_owned [OF ow' e(1)] unfolding e by (elim exE conjE) (rule that; assumption)
  let ?s' = "upd_tab b (\<lambda>T. T\<lparr>th_lock := Free\<rparr>) s1"
  have k: "dsos_kept s ?s'" using r(8) by (simp add: dsos_kept_def upd_tab_def)
  have st: "singlethreaded s1 = singlethreaded s" using r(8) by (simp add: dsos_kept_def upd_tab_def)
  have l1: "th_lock (tab s1 b) = l" using r(3,5) by simp
  have "delete_bucket s b = Some ?s'" using l free r(1) st l1 by (simp add: delete_bucket_def)
  moreover have "tab ?s' = (tab s)(b := T\<lparr>th_lock := Free\<rparr>)" by (simp add: upd_tab_def r(3))
  moreover have "destroyed_of ?s = destroyed_of s" by (simp add: fun_eq_iff destroyed_of_def e(2))
  ultimately show ?thesis using k threads_owned_lock [OF r(2)] r(4,6,7)
    by (intro exI [of _ "T\<lparr>th_lock := Free\<rparr>"] exI [of _ ?s'] conjI) (assumption | simp add: members_def upd_tab_def)+
qed

lemma delete_buckets_owned:
  assumes "threads_owned s" "\<forall>b. th_lock (tab s b) = Free" "distinct bs"
  shows "\<exists>s'. delete_buckets s bs = Some s' \<and> threads_owned s' \<and> (\<forall>b. th_lock (tab s' b) = Free) \<and> (\<forall>b\<in>set bs. members (tab s' b) = {}) \<and>
    (\<forall>b. b \<notin> set bs \<longrightarrow> tab s' b = tab s b) \<and> dsos_kept s s' \<and>
    unw_log s' = unw_log s @ concat (map (\<lambda>b. concat (map (destroyed_of s) (inorder (th_entries (tab s b))))) bs)"
  using assms
proof (induction bs arbitrary: s)
  case Nil
  then show ?case by (simp add: dsos_kept_refl)
next
  case (Cons b bs)
  have tr: "tree_ok (thread_st s) x (tab s x)" for x using Cons.prems(1) by (simp add: threads_owned_def)
  have fb: "th_lock (tab s b) = Free" using Cons.prems(2) by simp
  obtain T s1 where r: "delete_bucket s b = Some s1" "threads_owned s1" "tab s1 = (tab s)(b := T)" "members T = {}" "th_lock T = Free"
    "thread_st s1 = (thread_st s) |` (- members (tab s b))"
    "unw_log s1 = unw_log s @ concat (map (destroyed_of s) (inorder (th_entries (tab s b))))" "dsos_kept s s1"
    using delete_bucket_owned [OF Cons.prems(1) fb] by (elim exE conjE) (rule that; assumption)
  have free: "\<forall>x. th_lock (tab s1 x) = Free" "distinct bs" "b \<notin> set bs" using Cons.prems(2,3) r(3,5) by simp_all
  obtain s' where i: "delete_buckets s1 bs = Some s'" "threads_owned s'" "\<forall>x. th_lock (tab s' x) = Free" "\<forall>x\<in>set bs. members (tab s' x) = {}"
    "\<forall>x. x \<notin> set bs \<longrightarrow> tab s' x = tab s1 x" "dsos_kept s1 s'"
    "unw_log s' = unw_log s1 @ concat (map (\<lambda>b. concat (map (destroyed_of s1) (inorder (th_entries (tab s1 b))))) bs)"
    using Cons.IH [OF r(2) free(1,2)] by (elim exE conjE) (rule that; assumption)
  have "map (destroyed_of s1) (inorder (th_entries (tab s1 x))) = map (destroyed_of s) (inorder (th_entries (tab s x)))" if "x \<in> set bs" for x
  proof -
    have x: "x \<noteq> b" using that free(3) by auto
    have "c \<notin> members (tab s b)" if "c \<in> members (tab s x)" for c using bucket_unique [OF tr [of b] tr [of x]] that x by auto
    then show ?thesis using x by (auto simp: destroyed_of_def r(3,6) members_def)
  qed
  then have ds: "map (\<lambda>b. concat (map (destroyed_of s1) (inorder (th_entries (tab s1 b))))) bs =
      map (\<lambda>b. concat (map (destroyed_of s) (inorder (th_entries (tab s b))))) bs" by (intro map_cong) simp_all
  have "unw_log s' = unw_log s @ concat (map (\<lambda>b. concat (map (destroyed_of s) (inorder (th_entries (tab s b))))) (b # bs))"
    unfolding i(7) ds r(7) by simp
  moreover have "\<forall>x\<in>set (b # bs). members (tab s' x) = {}" using i(4,5) r(3,4) free(3) by simp
  moreover have "\<forall>x. x \<notin> set (b # bs) \<longrightarrow> tab s' x = tab s x" using i(5) r(3) by simp
  ultimately show ?case using i(1-3) r(1) dsos_kept_trans [OF r(8) i(6)] by (intro exI [of _ s']) simp
qed

section \<open>The machine\<close>

lemma fold_drop_ref_names: "long_name_of (fold drop_ref ds st) = long_name_of st"
proof (induction ds arbitrary: st)
  case (Cons d ds)
  have "long_name_of (drop_ref d st) a = long_name_of st a" for a by (cases "st a") (auto simp: drop_ref_def long_name_of_def)
  then show ?case using Cons by (auto simp: fun_eq_iff)
qed simp

lemma fold_drop_ref_linked: "(\<exists>d. fold drop_ref ds st a = Some d \<and> dso_linked d) \<longleftrightarrow> (\<exists>d. st a = Some d \<and> dso_linked d)"
proof (induction ds arbitrary: st)
  case (Cons d ds)
  have "(\<exists>x. drop_ref d st a = Some x \<and> dso_linked x) \<longleftrightarrow> (\<exists>x. st a = Some x \<and> dso_linked x)"
    by (cases "st a") (auto simp: drop_ref_def dso_linked_def)
  then show ?case using Cons by simp
qed simp

lemma dsos_ok_kept:
  assumes "dsos_ok s" "dsos_kept s s'"
  shows "dsos_ok s'"
proof -
  obtain ds where ds: "dso_st s' = fold drop_ref ds (dso_st s)" using assms(2) by (auto simp: dsos_kept_def)
  have d: "dom (dso_st s') = dom (dso_st s)" "dso_st s' 0 = None \<longleftrightarrow> dso_st s 0 = None" by (auto simp: ds dom_def)
  have r: "dsos_root s' = dsos_root s" "dsos_head s' = dsos_head s" "next_addr s' = next_addr s" using assms(2) by (simp_all add: dsos_kept_def)
  have n: "long_name_of (dso_st s') = long_name_of (dso_st s)" by (simp only: ds fold_drop_ref_names)
  have l: "(\<exists>d. dso_st s' a = Some d \<and> dso_linked d) \<longleftrightarrow> (\<exists>d. dso_st s a = Some d \<and> dso_linked d)" for a
    by (simp only: ds fold_drop_ref_linked)
  show ?thesis using assms(1) unfolding dsos_ok_def d r n l .
qed

lemma owned_empty:
  assumes "threads_owned s" "\<forall>b<THREADS__TABLE_SIZE. members (tab s b) = {}"
  shows "thread_st s = Map.empty" "maps_st s = Map.empty" "map_st s = Map.empty"
proof -
  show t: "thread_st s = Map.empty"
  proof (rule ccontr)
    assume "thread_st s \<noteq> Map.empty"
    then obtain a t where "thread_st s a = Some t" by (metis not_Some_eq ext)
    then obtain b where b: "a \<in> members (tab s b)" using assms(1) unfolding threads_owned_def by blast
    have ok: "tree_ok (thread_st s) b (tab s b)" using assms(1) by (simp add: threads_owned_def)
    obtain u :: thread_obj where "machine__threads (t_tid u) = b" using tree_ok_member [OF ok b] by blast
    then have "b < THREADS__TABLE_SIZE" by (auto simp: machine__threads_def THREADS__TABLE_SIZE_def)
    then show False using assms(2) b by auto
  qed
  have o: "maps_owned (thread_st s) s" using assms(1) by (simp add: threads_owned_def)
  have "maps_st s m = None" for m
  proof (rule ccontr)
    assume "maps_st s m \<noteq> None"
    then obtain ms where "maps_st s m = Some ms" by auto
    from maps_ownedD(1) [OF o this] show False by (simp add: t users_def)
  qed
  then show m: "maps_st s = Map.empty" by auto
  show "map_st s = Map.empty" using o m by (fastforce simp: maps_owned_def)
qed

lemma machine__delete_owned:
  assumes ow: "threads_owned s" and ok: "dsos_ok s" "dsos_lock s = Free" "\<forall>b. th_lock (tab s b) = Free"
  shows "\<exists>s'. machine__delete s = Some s' \<and> thread_st s' = Map.empty \<and> maps_st s' = Map.empty \<and> map_st s' = Map.empty \<and> dsos_head s' = [] \<and>
    (\<forall>b<THREADS__TABLE_SIZE. members (tab s' b) = {} \<and> th_dead (tab s' b) = [] \<and> th_lock (tab s' b) = Free) \<and>
    unw_log s' = unw_log s @ concat (map (\<lambda>b. concat (map (destroyed_of s) (inorder (th_entries (tab s b))))) [0..<THREADS__TABLE_SIZE])"
proof -
  obtain s1 where r: "delete_buckets s [0..<THREADS__TABLE_SIZE] = Some s1" "threads_owned s1" "\<forall>b. th_lock (tab s1 b) = Free"
    "\<forall>b\<in>set [0..<THREADS__TABLE_SIZE]. members (tab s1 b) = {}" "dsos_kept s s1"
    "unw_log s1 = unw_log s @ concat (map (\<lambda>b. concat (map (destroyed_of s) (inorder (th_entries (tab s b))))) [0..<THREADS__TABLE_SIZE])"
    using delete_buckets_owned [OF ow ok(3) distinct_upt [of 0 THREADS__TABLE_SIZE]] by (elim exE conjE) (rule that; assumption)
  have m: "\<forall>b<THREADS__TABLE_SIZE. members (tab s1 b) = {}" using r(4) by simp
  note e = owned_empty [OF r(2) m]
  have d: "\<forall>b. th_dead (tab s1 b) = []" using r(2) by (simp add: threads_owned_def)
  have "dsos_lock s1 = Free" using r(5) ok(2) by (simp add: dsos_kept_def)
  then obtain D where "dsos__exit s1 = Some (s1\<lparr>dso_st := D, dsos_head := []\<rparr>)" using dsos__exit_ok [OF dsos_ok_kept [OF ok(1) r(5)]] by blast
  then have "machine__delete s = Some (s1\<lparr>dso_st := D, dsos_head := []\<rparr>)" using r(1) by (simp add: machine__delete_def machine__delete_threads_def machine__exit_def)
  then show ?thesis using e m d r(3,6) by (intro exI [of _ "s1\<lparr>dso_st := D, dsos_head := []\<rparr>"]) simp
qed

text \<open>The invariants of the interface give the ownership that the deletion needs, as long as the addresses handed out fit a
  reference count.\<close>

lemma threads_owned_world:
  assumes ok: "world_ok s" and so: "sole_owned s" and small: "next_addr s < 2 ^ 32"
  shows "threads_owned s"
proof -
  have m: "table_ok s {}" using ok by (simp add: world_ok_def machine_ok_def)
  then have fr: "fresh_ok s" by (simp add: table_ok_def)
  have sub: "dom (thread_st s) \<subseteq> {..<next_addr s}" using fr by (auto simp: fresh_ok_def) (metis leI option.distinct(1))
  then have "card (dom (thread_st s)) < 2 ^ 32" using card_mono [OF _ sub] small by simp
  moreover have "finite (dom (thread_st s))" by (rule finite_threads [OF fr])
  moreover have "t_refcnt t = 1 \<and> t_maps t \<noteq> 0 \<and> maps_st s (t_maps t) \<noteq> None \<and> (\<exists>b. a \<in> members (tab s b))" if "thread_st s a = Some t" for a t
  proof -
    obtain b where b: "t_refcnt t = 1" "a \<in> members (tab s b)" using so \<open>thread_st s a = Some t\<close> unfolding sole_owned_def by blast
    have "thread_live s a" using m b(2) by (auto simp: table_ok_def)
    then show ?thesis using b \<open>thread_st s a = Some t\<close> by (auto simp: thread_live_def)
  qed
  moreover have "tree_ok (thread_st s) b (tab s b)" "th_dead (tab s b) = []" for b using m so by (simp_all add: table_ok_def sole_owned_def)
  moreover have "maps_owned (thread_st s) s"
  proof -
    have "coll_owned (thread_st s) s c ms" if "maps_st s c = Some ms" for c ms
      using that so ok m by (simp add: coll_owned_def sole_owned_def world_ok_def table_ok_def maps_counted_def)
    then show ?thesis using so unfolding maps_owned_def sole_owned_def by blast
  qed
  ultimately show ?thesis unfolding threads_owned_def by blast
qed

lemma destroyed_log:
  assumes ow: "threads_owned s" and t: "thread_st s a = Some t" "t_ulops t"
  shows "Destroy_addr_space (t_addr_space t) \<in>
    set (concat (map (\<lambda>b. concat (map (destroyed_of s) (inorder (th_entries (tab s b))))) [0..<THREADS__TABLE_SIZE]))"
proof -
  obtain b where b: "a \<in> members (tab s b)" using ow t(1) unfolding threads_owned_def by blast
  have ok: "tree_ok (thread_st s) b (tab s b)" using ow by (simp add: threads_owned_def)
  have "b < THREADS__TABLE_SIZE" using tree_ok_member [OF ok b] by (auto simp: machine__threads_def THREADS__TABLE_SIZE_def)
  moreover have "Destroy_addr_space (t_addr_space t) \<in> set (destroyed_of s a)" using t by (simp add: destroyed_of_def destroyed_def)
  ultimately show ?thesis using b by (auto simp: members_def)
qed

end
