(* ===== verification/Interface_Spec.thy ===== *)
theory Interface_Spec
  imports Callbacks Maps_Line Unwind_Spec Teardown
begin

text \<open>
  The properties of the library's interface (\<^verbatim>\<open>src/event.c\<close>), which span all components: reading the maps file of
  a process, listing its maps, resolving a call chain, and the invariant of every state the calls can reach.
\<close>

section \<open>Lines\<close>

text \<open>A file of complete lines that fit the buffer is cut into its lines.\<close>

abbreviation newline :: char where
  "newline \<equiv> CHR 0x0a"

definition file_of :: "string list \<Rightarrow> string" where
  "file_of ls = concat (map (\<lambda>l. l @ [newline]) ls)"

lemma fgets_lines_file:
  assumes "\<forall>l\<in>set ls. newline \<notin> set l \<and> length l < n"
  shows "fgets_lines n (file_of ls) = map (\<lambda>l. l @ [newline]) ls"
  using assms
proof (induction ls)
  case (Cons l ls)
  have "takeWhile (\<lambda>c. c \<noteq> newline) (l @ newline # file_of ls) = l" using Cons.prems by (subst takeWhile_append2) auto
  moreover have "file_of (l # ls) = l @ newline # file_of ls" by (simp add: file_of_def)
  ultimately show ?case using Cons by (simp add: fgets_lines.simps [of n "l @ _"] Let_def del: fgets_lines.simps)
qed (simp add: file_of_def)

section \<open>Reading the maps of a process\<close>

text \<open>
  One mapping of an executable file: \<^verbatim>\<open>bpf_unwind_ctx__process_mmap\<close> on a consistent state returns 0, leaves a
  consistent state, and in it the thread exists with an address space and its list of maps is the list it had (or its group leader
  had, or none) followed by one new map, with the range of the event, one reference, and the DSO of the event's file name; the maps and
  DSO names that existed are unchanged.
\<close>

lemma process_mmap_adds_map:
  assumes ok: "world_ok s" and fit: "thread_fits s (sint (e_tgid ev)) (sint (e_tid ev))" and lib: "\<forall>log. lib log \<noteq> 0"
    and h: "maps_before s (sint (e_tgid ev)) (sint (e_tid ev)) h"
  shows "\<exists>s' mp. bpf_unwind_ctx__process_mmap lib s ev = Some (0, s') \<and> world_ok s' \<and> thread_maps s' (sint (e_tid ev)) (h @ [mp]) \<and>
    map_info s' mp = Some \<lparr>start_addr = e_start ev, end_addr = e_start ev + e_len ev, dlpi_name = e_filename ev\<rparr> \<and> infos_kept s s'"
proof -
  obtain s' where s': "bpf_unwind_ctx__process_mmap lib s ev = Some (0, s')" "world_ok s'"
      "mapped s s' ev (sint (e_tgid ev)) (sint (e_tid ev))"
    using process_mmap_ok [OF ok fit lib] by blast
  then show ?thesis using mapped_maps [OF s'(2,3) h] by blast
qed

lemma blank_world: "world_ok blank_machine"
  using blank_machine_ok
  by (simp add: world_ok_def blank_machine_def threads_zero_def init_rwsem_def dsos_ok_def rb_ok_def)

lemma blank_before: "maps_before blank_machine tgid tid []"
  using blank_machine_free(2) by (auto simp: maps_before_def)

definition sample_event :: mmap2_event where
  "sample_event = \<lparr>e_tgid = 7, e_tid = 9, e_start = 0x1000, e_len = 0x1000, e_pgoff = 0, e_maj = 0, e_min = 0, e_ino = 0,
     e_ino_generation = 0, e_prot = 4, e_flags = 2, e_filename = ''/lib/a''\<rparr>"

text \<open>
  C1. Reading the maps file and listing the maps give the executable lines of the file. For a file of complete lines (each
  shorter than the buffer, with a permission word and a name that fit their arrays) \<^verbatim>\<open>bpf_unwind_ctx__thread_map\<close> returns 0;
  \<^verbatim>\<open>bpf_dl_iterate_phdr\<close> after it calls the callback with the maps the process had before and then with the start, end and name
  (\<^verbatim>\<open>//anon\<close> for none) of each executable line, in the order of the file, until the callback returns a negative value; both leave a
  consistent state.
\<close>

theorem maps_file_is_listed:
  assumes lib: "\<forall>log. lib log \<noteq> 0" and range: "- (2 ^ 31) \<le> tgid" "tgid < 2 ^ 31"
    and ok: "world_ok s" and fit: "thread_fits s tgid tgid" and h: "maps_before s tgid tgid h" "map (map_info s) h = map Some old"
    and content: "proc_maps tgid = Some (file_of ls)" "\<forall>l\<in>set ls. newline \<notin> set l \<and> length l < BUFSIZ - 2 \<and> scan_maps_line (l @ [newline]) \<noteq> None"
  shows "\<exists>s' s''. bpf_unwind_ctx__thread_map lib proc_maps ev s tgid tgid = Some (0, s') \<and> world_ok s' \<and> world_ok s'' \<and>
    (let v = visit_infos cb ctx (old @ map line_info (exec_lines (map (\<lambda>l. l @ [newline]) ls)))
     in bpf_dl_iterate_phdr s' tgid cb ctx = Some (fst v, snd v, s''))"
proof -
  have lines: "fgets_lines (BUFSIZ - 2) (file_of ls) = map (\<lambda>l. l @ [newline]) ls" using fgets_lines_file content(2) by blast
  have scan: "\<forall>bf\<in>set (fgets_lines (BUFSIZ - 2) (file_of ls)). scan_maps_line bf \<noteq> None" using content(2) by (simp only: lines) auto
  obtain s' new where s': "bpf_unwind_ctx__thread_map lib proc_maps ev s tgid tgid = Some (0, s')" "world_ok s'" "thread_fits s' tgid tgid"
      "maps_before s' tgid tgid (h @ new)" "infos_kept s s'"
      "map (map_info s') new = map Some (map line_info (exec_lines (map (\<lambda>l. l @ [newline]) ls)))"
    using thread_map_ok [where s = s and ev = ev and proc_maps = proc_maps and tgid = tgid and tid = tgid, OF lib range range ok fit h(1) content(1) scan] unfolding lines by blast
  have "map (map_info s') (h @ new) = map Some (old @ map line_info (exec_lines (map (\<lambda>l. l @ [newline]) ls)))"
    using infos_kept_map [OF s'(5) h(2)] s'(6) by simp
  from dl_iterate_ok [OF s'(2-4) this, of cb ctx] s'(1,2) show ?thesis by (auto simp: Let_def)
qed

definition sample_lines :: "string list" where
  "sample_lines = [''00001000-00002000 r-xp 00000000 fd:01 77 /lib/a'', ''00002000-00003000 rw-p 00001000 fd:01 77 /lib/a'',
     ''00007000-00008000 r-xp 00000000 00:00 0'']"

lemma sample_lines_exec:
  "map line_info (exec_lines (map (\<lambda>l. l @ [newline]) sample_lines)) =
    [\<lparr>start_addr = 0x1000, end_addr = 0x2000, dlpi_name = ''/lib/a''\<rparr>, \<lparr>start_addr = 0x7000, end_addr = 0x8000, dlpi_name = ''//anon''\<rparr>]"
  by code_simp

lemma sample_lines_scan: "\<forall>l\<in>set sample_lines. newline \<notin> set l \<and> length l < 100 \<and> scan_maps_line (l @ [newline]) \<noteq> None"
  by code_simp

theorem maps_file_is_listed_witness:
  "\<exists>s' s''. bpf_unwind_ctx__thread_map (\<lambda>log. 40) (\<lambda>tgid. Some (file_of sample_lines)) sample_event blank_machine 7 7 = Some (0, s') \<and>
     bpf_dl_iterate_phdr s' 7 (\<lambda>i seen. (0, seen @ [i])) [] =
       Some (0, [\<lparr>start_addr = 0x1000, end_addr = 0x2000, dlpi_name = ''/lib/a''\<rparr>,
         \<lparr>start_addr = 0x7000, end_addr = 0x8000, dlpi_name = ''//anon''\<rparr>], s'')"
proof -
  have "100 < BUFSIZ - 2" by (simp add: BUFSIZ_def)
  then have l: "\<forall>l\<in>set sample_lines. newline \<notin> set l \<and> length l < BUFSIZ - 2 \<and> scan_maps_line (l @ [newline]) \<noteq> None"
    using sample_lines_scan by (meson less_trans)
  show ?thesis
    using maps_file_is_listed [where s = blank_machine and tgid = 7 and h = "[]" and old = "[]" and proc_maps = "\<lambda>tgid. Some (file_of sample_lines)"
        and lib = "\<lambda>log. 40" and cb = "\<lambda>i seen. (0, seen @ [i])" and ctx = "[]" and ev = sample_event,
        OF _ _ _ blank_world blank_machine_fits blank_before _ refl l]
    by (auto simp: sample_lines_exec)
qed

text \<open>
  When the maps file cannot be opened (the process is gone), \<^verbatim>\<open>bpf_unwind_ctx__thread_map\<close> returns \<open>-1\<close> and changes nothing.
  A line with fewer than seven fields and a line without execute permission are passed over without any effect.
\<close>

lemma maps_file_errors:
  "proc_maps tgid = None \<Longrightarrow> bpf_unwind_ctx__thread_map lib proc_maps ev s tgid tid = Some (- 1, s)"
  "scan_maps_line bf = Some None \<or> (\<exists>l. scan_maps_line bf = Some (Some l) \<and> prot_char (l_prot l) 2 \<noteq> CHR ''x'') \<Longrightarrow>
   mmap_lines lib s ev tgid tid (bf # bfs) = mmap_lines lib s ev tgid tid bfs"
  by (auto simp: bpf_unwind_ctx__thread_map_def bpf_unwind_ctx_prepare_mmap_def)

text \<open>
  C27. Scanning inverts printing: a line in the format of the kernel (eight or more hexadecimal digits for the addresses and the offset, two or more for the
  device numbers, a decimal inode, a permission word of at most four characters, and a name without newline and leading white space that fits its
  array) is read back field by field, whatever the padding; so the executable lines of a file of such lines are the entries
  with \<^verbatim>\<open>x\<close> as the third permission character, in order.
\<close>

theorem maps_line_roundtrip:
  assumes "\<forall>l\<in>set ls. printable l"
  shows "(\<forall>l\<in>set ls. scan_maps_line (print_line l pad) = Some (Some l)) \<and>
    exec_lines (map (\<lambda>l. print_line l pad) ls) = filter (\<lambda>l. prot_char (l_prot l) 2 = CHR ''x'') ls"
  using assms by (induction ls) (simp_all add: scan_print_line)

definition sample_map_line :: map_line where
  "sample_map_line = \<lparr>l_start = 0x1000, l_end = 0x2000, l_prot = ''r-xp'', l_pgoff = 0, l_maj = 0xfd, l_min = 1, l_ino = 77, l_execname = ''/lib/a''\<rparr>"

lemma sample_digits:
  "digits 16 0x1000 = ''1000''" "digits 16 0x2000 = ''2000''" "digits 16 0 = ''0''" "digits 16 0xfd = ''fd''" "digits 16 (Suc 0) = ''1''" "digits 10 77 = ''77''"
  by (simp_all add: digits.simps digit_char_def char_of_def bit_Suc_0_iff)

lemma sample_map_line_printed: "print_line sample_map_line 1 = ''00001000-00002000 r-xp 00000000 fd:01 77  /lib/a'' @ [CHR 0x0a]"
proof -
  have "replicate 4 c = [c, c, c, c]" "replicate 7 c = [c, c, c, c, c, c, c]" for c :: char by (simp_all add: numeral_eq_Suc)
  then show ?thesis by (simp add: print_line_def padded_def sample_digits sample_map_line_def Let_def)
qed

theorem maps_line_roundtrip_witness:
  "scan_maps_line (''00001000-00002000 r-xp 00000000 fd:01 77  /lib/a'' @ [CHR 0x0a]) = Some (Some sample_map_line)"
proof -
  have "\<forall>c\<in>set (l_prot sample_map_line). \<not> is_space c" "\<not> is_space (hd (l_execname sample_map_line))" "CHR 0x0a \<notin> set (l_execname sample_map_line)"
    by code_simp+
  then have "printable sample_map_line" by (simp add: printable_def sample_map_line_def PATH_MAX_def)
  then show ?thesis using maps_line_roundtrip [of "[sample_map_line]" 1] unfolding sample_map_line_printed [symmetric] by simp
qed

section \<open>Resolving a call chain\<close>

text \<open>
  C2. \<^verbatim>\<open>bpf_unwind_ctx__resolve_callchain\<close> on a consistent state finds or creates the sampled thread, attaches an address space to it
  if it has none, and walks: there is a consistent state \<open>s1\<close> with that thread in it such that, whenever the cursor initialises there,
  the result is 0 and the trace holds the sampled instruction pointer followed by the frames of the cursor, never more than the trace
  has room for.
\<close>

theorem resolve_callchain_correct:
  assumes ok: "world_ok s" and fit: "thread_fits s (sint (uc_tgid uc)) (sint (uc_tid uc))" and att: "attached s (sint (uc_tid uc))"
    and lib: "\<forall>log. lib log \<noteq> 0" and st: "st_ips tr = Some ips" "1 \<le> st_depth tr" "st_depth tr \<le> int (length ips)"
  shows "\<exists>th s1 t. world_ok s1 \<and> thread_at s1 (sint (uc_tid uc)) th \<and> thread_st s1 th = Some t \<and> t_addr_space t \<noteq> 0 \<and> t_ulops t \<and>
    (\<forall>c s2 fs s3. unw_init_remote (U uc th) s1 = (0, c, s2) \<and> frame_list (U uc th) (nat (st_depth tr - 1)) c s2 = (fs, s3) \<longrightarrow>
       bpf_unwind_ctx__resolve_callchain lib U (Some tr) s uc = Some (0,
         Some (tr\<lparr>st_ips := Some (ip (uc_uregs uc) # fs @ drop (Suc (length fs)) ips), st_depth := 1 + int (length fs)\<rparr>), s3) \<and>
       1 + int (length fs) \<le> st_depth tr)"
proof -
  obtain th s1 t where r: "world_ok s1" "thread_at s1 (sint (uc_tid uc)) th" "thread_st s1 th = Some t" "t_addr_space t \<noteq> 0" "t_ulops t"
      "bpf_unwind_ctx__resolve_callchain lib U (Some tr) s uc = get_entries (U uc th) s1 th uc (Some tr)"
    using resolve_ok [OF ok fit att lib, of U "Some tr"] by blast
  have "bpf_unwind_ctx__resolve_callchain lib U (Some tr) s uc = Some (0,
         Some (tr\<lparr>st_ips := Some (ip (uc_uregs uc) # fs @ drop (Suc (length fs)) ips), st_depth := 1 + int (length fs)\<rparr>), s3) \<and>
       1 + int (length fs) \<le> st_depth tr"
    if "unw_init_remote (U uc th) s1 = (0, c, s2) \<and> frame_list (U uc th) (nat (st_depth tr - 1)) c s2 = (fs, s3)" for c s2 fs s3
    unfolding r(6) by (rule get_entries_spec [OF r(3,4) st]) (use that in auto)
  with r(1-5) show ?thesis by blast
qed

theorem resolve_callchain_correct_witness:
  "\<exists>s'. bpf_unwind_ctx__resolve_callchain (\<lambda>log. 40) (\<lambda>uc th. counting_cursor 5) (Some \<lparr>st_depth = 3, st_ips = Some [0, 0, 0, 9]\<rparr>)
     blank_machine sample_ctx = Some (0, Some \<lparr>st_depth = 3, st_ips = Some [0x1008, 0x2004, 0x2003, 9]\<rparr>, s')"
proof -
  have f: "frame_list (counting_cursor 5) 2 5 s = ([0x2004, 0x2003], s)" for s
    by (simp add: frame_list.simps [of _ 2] frame_list.simps [of _ 1] frame_list.simps [of _ "Suc 0"] frame_list.simps [of _ 0] counting_cursor_def)
  have i: "unw_init_remote (counting_cursor 5) s = (0, 5, s)" for s by (simp add: counting_cursor_def)
  have "attached blank_machine (sint (uc_tid sample_ctx))" by (simp add: attached_def blank_machine_free)
  moreover have "ip (uc_uregs sample_ctx) = 0x1008" by (simp add: sample_ctx_def sample_regs_def)
  ultimately show ?thesis
    using resolve_callchain_correct [OF blank_world blank_machine_fits, of sample_ctx "\<lambda>log. 40"
        "\<lparr>st_depth = 3, st_ips = Some [0, 0, 0, 9]\<rparr>" "[0, 0, 0, 9]" "\<lambda>uc th. counting_cursor 5"] f i by auto
qed

section \<open>All reachable states\<close>

text \<open>
  The states a client can bring the library to, from the one \<^verbatim>\<open>machine__new\<close> sets up: by the calls
  \<^verbatim>\<open>bpf_unwind_ctx__process_mmap\<close> (one executable line of a maps file), \<^verbatim>\<open>bpf_dl_iterate_phdr\<close>, \<^verbatim>\<open>machine__findnew_thread\<close> and
  \<^verbatim>\<open>bpf_unwind_ctx__resolve_callchain\<close>, for thread ids that stay in the
  group they were first seen in and whose reference count does not wrap around (\<open>thread_fits\<close>), with a cursor that acts through the callbacks
  (\<open>cursor_calls\<close>). The callback of the listing has a list of entries as its context, and the cursor is an array of words, as libunwind's
  opaque type is; the state does not depend on either.
\<close>

definition cleared :: "machine_state \<Rightarrow> bool" where
  "cleared s \<longleftrightarrow> dso_st s = Map.empty \<and> map_st s = Map.empty \<and> maps_st s = Map.empty \<and> thread_st s = Map.empty \<and> 0 < next_addr s \<and>
     (\<forall>b. tab s b = threads_zero)"

inductive reachable :: "unw_create \<Rightarrow> machine_state \<Rightarrow> bool" for lib :: unw_create where
  init: "cleared s \<Longrightarrow> reachable lib (machine__new s)"
| lookup: "\<lbrakk>reachable lib s; thread_fits s tgid tid; machine__findnew_thread s tgid tid = Some (th, s')\<rbrakk> \<Longrightarrow> reachable lib s'"
| mmap: "\<lbrakk>reachable lib s; thread_fits s (sint (e_tgid ev)) (sint (e_tid ev)); bpf_unwind_ctx__process_mmap lib s ev = Some (r, s')\<rbrakk> \<Longrightarrow>
    reachable lib s'"
| iterate: "\<lbrakk>reachable lib s; thread_fits s tgid tgid; bpf_dl_iterate_phdr s tgid cb (ctx :: dl_phdr_info list) = Some (r, ctx', s')\<rbrakk> \<Longrightarrow>
    reachable lib s'"
| resolve: "\<lbrakk>reachable lib s; thread_fits s (sint (uc_tgid uc)) (sint (uc_tid uc)); \<forall>th. cursor_calls V th uc (U uc th);
    bpf_unwind_ctx__resolve_callchain lib (U :: unwind_ctx \<Rightarrow> addr \<Rightarrow> (u64 list, machine_state) cursor_ops) st s uc = Some (r, st', s')\<rbrakk> \<Longrightarrow>
    reachable lib s'"

lemma init_world: "cleared s \<Longrightarrow> world_ok (machine__new s) \<and> ops_attached (machine__new s)"
  by (simp add: cleared_def world_ok_def machine__new_def machine__init_def machine__threads_init_def dsos__init_def machine_ok_def table_ok_def fresh_ok_def
      maps_counted_def tree_ok_def members_def threads_zero_def init_rwsem_def dsos_ok_def rb_ok_def ops_attached_def)

lemma lookup_world:
  assumes "world_ok s \<and> ops_attached s" "thread_fits s tgid tid" "machine__findnew_thread s tgid tid = Some (th, s')"
  shows "world_ok s' \<and> ops_attached s'"
proof -
  have ok: "world_ok s" using assms(1) by simp
  obtain t where f: "found s s' tgid tid th t"
    using machine__findnew_thread_ok [OF _ assms(2)] ok assms(3) by (auto simp: world_ok_def)
  from world_ok_found [OF ok f] ops_attached_found [OF ok f] assms(1) show ?thesis by simp
qed

lemma reachable_world:
  assumes "reachable lib s" "\<forall>log. lib log \<noteq> 0"
  shows "world_ok s \<and> ops_attached s"
  using assms(1)
proof induction
  case (init s)
  then show ?case by (rule init_world)
next
  case (lookup s tgid tid th s')
  then show ?case using lookup_world by blast
next
  case (mmap s ev r s')
  then show ?case using process_mmap_ok [OF _ mmap.hyps(2) assms(2)] by auto
next
  case (iterate s tgid cb ctx r ctx' s')
  then have "\<exists>th. machine__findnew_thread s tgid tgid = Some (th, s')"
    by (auto simp: bpf_dl_iterate_phdr_def bind_eq_Some split: if_splits)
  then show ?case using lookup_world [OF iterate.IH iterate.hyps(2)] by blast
next
  case (resolve s uc V U st r st' s')
  then show ?case using resolve_keeps [OF _ _ resolve.hyps(2) assms(2) resolve.hyps(3,4)] by blast
qed

text \<open>Reading a whole maps file is a sequence of such steps.\<close>

lemma mmap_lines_invariant:
  fixes P :: "machine_state \<Rightarrow> bool"
  assumes P: "P s" "\<And>s. P s \<Longrightarrow> world_ok s"
    "\<And>s ev s'. \<lbrakk>P s; thread_fits s (sint (e_tgid ev)) (sint (e_tid ev)); bpf_unwind_ctx__process_mmap lib s ev = Some (0, s')\<rbrakk> \<Longrightarrow> P s'"
    and lib: "\<forall>log. lib log \<noteq> 0" and run: "thread_fits s tgid tid" "mmap_lines lib s ev tgid tid bfs = Some s'"
    and range: "- (2 ^ 31) \<le> tgid" "tgid < 2 ^ 31" "- (2 ^ 31) \<le> tid" "tid < 2 ^ 31"
  shows "P s'"
  using P(1) run
proof (induction bfs arbitrary: s ev)
  case Nil
  then show ?case by simp
next
  case (Cons bf bfs)
  obtain o' where o': "scan_maps_line bf = Some o'" using Cons.prems(3) by (auto simp: bind_eq_Some)
  show ?case
  proof (cases "\<exists>l. o' = Some l \<and> prot_char (l_prot l) 2 = CHR ''x''")
    case False
    then have "mmap_lines lib s ev tgid tid bfs = Some s'" using Cons.prems(3) o' by (auto split: option.split_asm)
    with Cons show ?thesis by blast
  next
    case True
    then obtain l where l: "o' = Some l" "prot_char (l_prot l) 2 = CHR ''x''" by blast
    let ?ev = "line_event ev l tgid tid"
    have e: "sint (e_tgid ?ev) = tgid" "sint (e_tid ?ev) = tid" using range by (simp_all add: line_event_def signed_of_int signed_take_bit_int_eq_self)
    obtain s1 where s1: "bpf_unwind_ctx__process_mmap lib s ?ev = Some (0, s1)" "thread_fits s1 tgid tid"
      using process_mmap_ok [of s ?ev lib] P(2) [OF Cons.prems(1)] Cons.prems(2) lib unfolding e by blast
    have "P s1" by (rule P(3) [OF Cons.prems(1) _ s1(1)]) (use Cons.prems(2) e in simp)
    moreover have "mmap_lines lib s1 ?ev tgid tid bfs = Some s'" using Cons.prems(3) o' l s1(1) by (simp add: Let_def)
    ultimately show ?thesis using Cons.IH s1(2) by blast
  qed
qed

lemma mmap_lines_reachable:
  assumes "reachable lib s" "\<forall>log. lib log \<noteq> 0" "thread_fits s tgid tid" "mmap_lines lib s ev tgid tid bfs = Some s'"
    and range: "- (2 ^ 31) \<le> tgid" "tgid < 2 ^ 31" "- (2 ^ 31) \<le> tid" "tid < 2 ^ 31"
  shows "reachable lib s'"
  by (rule mmap_lines_invariant [where P = "reachable lib", OF assms(1) _ _ assms(2-4) range])
    (use assms(2) in \<open>auto dest: reachable_world intro: reachable.mmap\<close>)

text \<open>
  C3. Every reachable state is consistent: the DSOs, the maps of every collection and the thread tables satisfy their invariants, all
  locks are free, every thread in a table is alive and has its maps, every collection's reference count is the number of threads that
  use it, and a thread with an address space has the operations to release it. This holds after reading a whole maps file, too.
\<close>

theorem reachable_consistent:
  assumes "reachable lib s" "\<forall>log. lib log \<noteq> 0"
  shows "machine_ok s \<and> dsos_ok s \<and> dsos_lock s = Free \<and> (\<forall>b. th_lock (tab s b) = Free) \<and>
    (\<forall>m ms. maps_st s m = Some ms \<longrightarrow> maps_ok s m ms \<and> ms_lock ms = Free) \<and>
    (\<forall>b. \<forall>a\<in>members (tab s b). thread_live s a) \<and> maps_counted s \<and> ops_attached s \<and>
    (\<forall>ev tgid bfs s'. - (2 ^ 31) \<le> tgid \<and> tgid < 2 ^ 31 \<and> thread_fits s tgid tgid \<and> mmap_lines lib s ev tgid tgid bfs = Some s' \<longrightarrow> reachable lib s')"
proof -
  have "world_ok s" "ops_attached s" using reachable_world [OF assms] by simp_all
  moreover have "\<forall>ev tgid bfs s'. - (2 ^ 31) \<le> tgid \<and> tgid < 2 ^ 31 \<and> thread_fits s tgid tgid \<and> mmap_lines lib s ev tgid tgid bfs = Some s' \<longrightarrow> reachable lib s'"
    using mmap_lines_reachable [OF assms] by blast
  ultimately show ?thesis by (simp add: world_ok_def machine_ok_def table_ok_def)
qed

lemma blank_reachable: "reachable lib (machine__new blank_machine)"
  by (rule reachable.init) (simp add: cleared_def blank_machine_def)

lemma new_machine_fits: "thread_fits (machine__new blank_machine) tgid tid"
  by (simp add: thread_fits_def leader_fits_def thread_at_def members_def machine__new_def machine__init_def machine__threads_init_def dsos__init_def
      blank_machine_def threads_zero_def)

theorem reachable_consistent_witness:
  "\<exists>s. bpf_unwind_ctx__process_mmap (\<lambda>log. 40) (machine__new blank_machine) sample_event = Some (0, s) \<and>
     machine_ok s \<and> dsos_ok s \<and> maps_counted s \<and> ops_attached s"
proof -
  have "cleared blank_machine" by (simp add: cleared_def blank_machine_def)
  then have "world_ok (machine__new blank_machine)" using init_world by blast
  then obtain s where s: "bpf_unwind_ctx__process_mmap (\<lambda>log. 40) (machine__new blank_machine) sample_event = Some (0, s)"
    using process_mmap_ok [OF _ new_machine_fits, where ev = sample_event and lib = "\<lambda>log. 40"] by auto
  have "reachable (\<lambda>log. 40) s" by (rule reachable.mmap [OF blank_reachable new_machine_fits s])
  then have "machine_ok s \<and> dsos_ok s \<and> maps_counted s \<and> ops_attached s"
    using reachable_consistent [of "\<lambda>log. 40" s] by simp
  with s show ?thesis by (intro exI [of _ s]) simp
qed



section \<open>Deleting the machine\<close>

text \<open>The states of a client that only reads maps files.\<close>

inductive loaded :: "unw_create \<Rightarrow> machine_state \<Rightarrow> bool" for lib :: unw_create where
  new: "cleared s \<Longrightarrow> loaded lib (machine__new s)"
| load: "\<lbrakk>loaded lib s; - (2 ^ 31) \<le> tgid; tgid < 2 ^ 31; thread_fits s tgid tgid;
    bpf_unwind_ctx__thread_map lib proc_maps ev s tgid tgid = Some (r, s')\<rbrakk> \<Longrightarrow> loaded lib s'"

lemma init_sole: "cleared s \<Longrightarrow> sole_owned (machine__new s)"
  by (simp add: cleared_def sole_owned_def machine__new_def machine__init_def machine__threads_init_def dsos__init_def threads_zero_def)

lemma loaded_owned:
  assumes "loaded lib s" "\<forall>log. lib log \<noteq> 0"
  shows "world_ok s \<and> ops_attached s \<and> sole_owned s"
  using assms(1)
proof induction
  case (new s)
  then show ?case using init_world init_sole by blast
next
  case (load s tgid proc_maps ev r s')
  consider "s' = s" | bfs where "mmap_lines lib s ev tgid tgid bfs = Some s'"
    using load.hyps(5) by (auto simp: bpf_unwind_ctx__thread_map_def bpf_unwind_ctx_prepare_mmap_def split: option.splits bind_splits)
  then show ?case
  proof cases
    case 1
    then show ?thesis using load.IH by simp
  next
    case 2
    show ?thesis
    proof (rule mmap_lines_invariant [where P = "\<lambda>s. world_ok s \<and> ops_attached s \<and> sole_owned s", OF load.IH _ _ assms(2) load.hyps(4) 2])
      fix s ev s'
      assume s: "world_ok s \<and> ops_attached s \<and> sole_owned s" "thread_fits s (sint (e_tgid ev)) (sint (e_tid ev))"
        "bpf_unwind_ctx__process_mmap lib s ev = Some (0, s')"
      then show "world_ok s' \<and> ops_attached s' \<and> sole_owned s'" using process_mmap_ok [OF _ s(2) assms(2)] by auto
    qed (use load.hyps in auto)
  qed
qed

text \<open>
  C5. Deleting a machine that has read any number of maps files, of any processes, gives everything back: \<^verbatim>\<open>machine__delete\<close> returns; no thread, no collection
  of maps and no map is left, although collections are shared by the threads of a group; the list of DSOs, all trees and all lists of dead threads are empty and the locks free; and the
  address space of every thread that had one was destroyed. (Fewer than \<open>2 ^ 32\<close> objects were allocated, so that no reference count wraps around.)
\<close>

theorem loaded_machine_deleted:
  assumes "loaded lib s" "\<forall>log. lib log \<noteq> 0" "next_addr s < 2 ^ 32"
  shows "\<exists>s'. machine__delete s = Some s' \<and> thread_st s' = Map.empty \<and> maps_st s' = Map.empty \<and> map_st s' = Map.empty \<and> dsos_head s' = [] \<and>
    (\<forall>b<THREADS__TABLE_SIZE. members (tab s' b) = {} \<and> th_dead (tab s' b) = [] \<and> th_lock (tab s' b) = Free) \<and>
    (\<forall>a t. thread_st s a = Some t \<and> t_addr_space t \<noteq> 0 \<longrightarrow> Destroy_addr_space (t_addr_space t) \<in> set (unw_log s'))"
proof -
  have ok: "world_ok s" "ops_attached s" "sole_owned s" using loaded_owned [OF assms(1,2)] by simp_all
  have ow: "threads_owned s" by (rule threads_owned_world [OF ok(1,3) assms(3)])
  obtain s' where s': "machine__delete s = Some s'" "thread_st s' = Map.empty" "maps_st s' = Map.empty" "map_st s' = Map.empty" "dsos_head s' = []"
    "\<forall>b<THREADS__TABLE_SIZE. members (tab s' b) = {} \<and> th_dead (tab s' b) = [] \<and> th_lock (tab s' b) = Free"
    "unw_log s' = unw_log s @ concat (map (\<lambda>b. concat (map (destroyed_of s) (inorder (th_entries (tab s b))))) [0..<THREADS__TABLE_SIZE])"
    using machine__delete_owned [OF ow] ok(1) unfolding world_ok_def by blast
  have "Destroy_addr_space (t_addr_space t) \<in> set (unw_log s')" if "thread_st s a = Some t" "t_addr_space t \<noteq> 0" for a t
    using destroyed_log [OF ow that(1)] ok(2) that unfolding s'(7) set_append ops_attached_def by blast
  with s'(1-6) show ?thesis by blast
qed

lemma sample_load:
  "case bpf_unwind_ctx__thread_map (\<lambda>log. 40) (\<lambda>tgid. Some (file_of sample_lines)) sample_event (machine__new blank_machine) 7 7 of
     Some (r, s) \<Rightarrow> r = 0 \<and> next_addr s = 7 \<and> thread_st s 1 \<noteq> None \<and> maps_st s 2 \<noteq> None \<and> map_st s 3 \<noteq> None \<and> map_st s 5 \<noteq> None
   | None \<Rightarrow> False"
  by code_simp

theorem loaded_machine_deleted_witness:
  "\<exists>s s'. bpf_unwind_ctx__thread_map (\<lambda>log. 40) (\<lambda>tgid. Some (file_of sample_lines)) sample_event (machine__new blank_machine) 7 7 = Some (0, s) \<and>
     thread_st s 1 \<noteq> None \<and> map_st s 3 \<noteq> None \<and> map_st s 5 \<noteq> None \<and>
     machine__delete s = Some s' \<and> thread_st s' = Map.empty \<and> maps_st s' = Map.empty \<and> map_st s' = Map.empty"
proof -
  obtain s where s: "bpf_unwind_ctx__thread_map (\<lambda>log. 40) (\<lambda>tgid. Some (file_of sample_lines)) sample_event (machine__new blank_machine) 7 7 = Some (0, s)"
    "next_addr s = 7" "thread_st s 1 \<noteq> None" "map_st s 3 \<noteq> None" "map_st s 5 \<noteq> None"
    using sample_load by (auto split: option.split_asm)
  have "cleared blank_machine" by (simp add: cleared_def blank_machine_def)
  then have "loaded (\<lambda>log. 40) s" by (intro loaded.load [OF loaded.new _ _ new_machine_fits s(1)]) simp_all
  then obtain s' where "machine__delete s = Some s'" "thread_st s' = Map.empty" "maps_st s' = Map.empty" "map_st s' = Map.empty"
    using loaded_machine_deleted [of "\<lambda>log. 40" s] s(2) by auto
  with s(1,3-5) show ?thesis by blast
qed

end
