(* ===== verification/Spec2Isabelle.thy ===== *)
theory Spec2Isabelle
  imports Containers_Spec Threads_Spec Interface_Spec
begin

text \<open>
  Verification of libdw-bpf, a C library (under \<^verbatim>\<open>src/src\<close>) that resolves user-space call chains
  outside the traced process, from the register and stack snapshots that an eBPF program takes.

  \<^bold>\<open>The program.\<close> A client calls three functions of \<^verbatim>\<open>event.c\<close>: \<^verbatim>\<open>bpf_unwind_ctx__thread_map\<close> reads
  \<^verbatim>\<open>/proc/<tgid>/task/<tgid>/maps\<close> and creates one map per executable line; \<^verbatim>\<open>bpf_dl_iterate_phdr\<close> lists the
  maps of a process; \<^verbatim>\<open>bpf_unwind_ctx__resolve_callchain\<close> walks the frames of a snapshot with libunwind.
  The \<^verbatim>\<open>machine\<close> keeps the threads in 256 red-black trees, every thread has a collection of maps that it
  shares with the leader of its group, every map refers to a DSO (a mapped file) of the machine, and every DSO
  caches chunks of its file. The unwinder reaches registers, stack and file contents through callbacks of
  \<^verbatim>\<open>unwind_libunwind.c\<close>.

  \<^bold>\<open>The library of theories\<close>, bottom up; a leading underscore of a C name is written \<open>u\<close>
  (\<^verbatim>\<open>__maps__insert\<close> is \<open>uu_maps__insert\<close>).

  \<^item> \<open>Prelude\<close>: machine words (\<^verbatim>\<open>types.h\<close>), alignment, option monad, shared rewrite collections.
  \<^item> \<open>Rbtree_Heap\<close>: \<^verbatim>\<open>rbtree.h\<close>, \<^verbatim>\<open>rbtree_augmented.h\<close>, \<^verbatim>\<open>rbtree.c\<close> on an explicit heap, one definition
    per function. \<open>Rbtree_Fun\<close>: the same algorithms on trees with a zipper, and that they keep the
    in-order sequence and the red-black properties. \<open>Rbtree_Refine\<close>, \<open>Rbtree_Erase\<close>, \<open>Rbtree_Unlink\<close>,
    \<open>Rbtree_Traverse\<close>: the pointer code refines the functional code, returns, never goes through a null
    pointer, and writes nothing outside the tree. \<open>Rbtree_Search\<close>: the search loops of the clients and
    the contract \<open>keyed_search\<close> of a decision that is monotone in a key, interpreted by each client.
  \<^item> \<open>List_Heap\<close> (\<^verbatim>\<open>list.h\<close>, \<^verbatim>\<open>list_*\<close>), \<open>List_Iter\<close> (its entry and iterator macros), \<open>Hlist_Heap\<close> (\<^verbatim>\<open>list.h\<close>,
    \<^verbatim>\<open>hlist_*\<close>) and \<open>Queue_Heap\<close> (\<^verbatim>\<open>queue.h\<close>): the pointer code computes the operation on HOL lists; the
    contract \<open>ring_ops\<close> of a ring, interpreted by both kinds of rings.
  \<^item> \<open>Atomics\<close>: \<^verbatim>\<open>stdatomic.h\<close>, the operations of newer compilers and the fallback that computes the same.
    \<open>Utility\<close>: \<^verbatim>\<open>utility.c\<close>, \<^verbatim>\<open>refcount.h\<close>, \<^verbatim>\<open>rwsem.c\<close> (contract \<open>lock_pair\<close>) and the record \<open>os\<close>
    of answers of the operating system. \<open>Refcount_Threads\<close>: the atomic steps of several threads on one counter of
    \<^verbatim>\<open>refcount.h\<close>, interleaved in any order.
  \<^item> \<open>Dso_Data\<close>, \<open>Dso_Read\<close>: \<^verbatim>\<open>dso.c\<close> from \<^verbatim>\<open>do_open\<close> to \<^verbatim>\<open>dso__data_read_offset\<close>, the cache of file
    data, and its transparency. \<open>Dso\<close>: the set of DSOs of \<^verbatim>\<open>dso.c\<close> and \<^verbatim>\<open>machine.c\<close>.
  \<^item> \<open>Maps\<close>: \<^verbatim>\<open>map.c\<close>, \<^verbatim>\<open>map.h\<close>. \<open>Machine\<close>: \<^verbatim>\<open>thread.c\<close>, \<^verbatim>\<open>machine.c\<close> and the address spaces of
    \<^verbatim>\<open>unwind_libunwind.c\<close>. \<open>Machine_Lookup\<close>, \<open>Thread_Life\<close>: lookup and creation, removal and release.
    \<open>Teardown\<close>: \<^verbatim>\<open>machine__delete\<close> on a machine whose threads nobody else refers to.
  \<^item> \<open>Ptrace\<close>: \<^verbatim>\<open>ptrace.h\<close> and the register tables. \<open>Unwind\<close>, \<open>Unwind_Proofs\<close>: the callbacks of
    \<^verbatim>\<open>unwind_libunwind.c\<close>, \<^verbatim>\<open>symbol_elf.c\<close>, the decoding of \<^verbatim>\<open>.eh_frame_hdr\<close>, the walk over the frames.
  \<^item> \<open>Event\<close>, \<open>Event_Proofs\<close>: \<^verbatim>\<open>event.c\<close>, including the scanner for a line of the maps file (which \<open>Maps_Line\<close> shows
    to invert the printing of the kernel), and the invariant \<open>world_ok\<close> of the whole state. \<open>Callbacks\<close>: what the unwinder does to the state through the
    callbacks, with the contract \<open>callback_inv\<close> of an invariant that every callback keeps.
  \<^item> \<open>Bpf_Ctx\<close>: \<^verbatim>\<open>get_unwind_ctx\<close> of \<^verbatim>\<open>bpf/ebpf_get_unwind_ctx.c\<close>, the program that takes
    the snapshots, and runs of it on a kernel whose answers are typed.
  \<^item> \<open>Parallel_Example\<close>: \<^verbatim>\<open>examples/queue.h\<close>, \<^verbatim>\<open>examples/stoppable.h\<close> and the threads of
    \<^verbatim>\<open>examples/syscall_parallel.cc\<close> as a step relation. \<open>Resolve_Task\<close>: the work of one of its resolvers, and of the one of
    \<^verbatim>\<open>examples/syscall.cc\<close>.

  The properties stand in \<open>Containers_Spec\<close>, \<open>Objects_Spec\<close>, \<open>Machine_Spec\<close>, \<open>Unwind_Spec\<close>,
  \<open>Threads_Spec\<close>, \<open>Interface_Spec\<close> and, for the red-black tree, below.

  \<^bold>\<open>State and errors.\<close> The containers are modelled twice: as pointer code on a heap, and as HOL trees and
  lists that the refinement theorems justify. The components above the containers use the latter: a
  \<^verbatim>\<open>struct rb_root\<close> is a tree of addresses, a \<^verbatim>\<open>struct list_head\<close> a list of addresses. Objects (DSOs, cache
  entries, maps, collections of maps, threads) live in stores from addresses to records, one store per type, in one state
  record that grows from theory to theory (\<open>dso_state\<close>, \<open>map_state\<close>, \<open>machine_state\<close>). \<open>None\<close> is what the C code must
  never do: a null or freed pointer, a failing assertion, a copy beyond a buffer, a loop that does not
  return. Error codes are values. Counters, offsets and addresses keep their width.

  \<^bold>\<open>What the properties show.\<close> Of the interface: the maps file is listed back in order with the
  addresses and the name of each executable line, the resolved chain is the one libunwind's
  steps give, and every state the calls reach satisfies the invariant and lets every call proceed, the resolving of
  a call chain through any cursor that uses the callbacks included; a machine into which maps files were loaded can be
  deleted, and every thread and map is freed. Of
  the unwinder: registers, stack words, file bytes and table entries are the ones asked for and encoded
  values are decoded within bounds; the snapshot the eBPF program submits is the memory the
  callbacks read back. Of the objects: the cache is transparent, lookups find what was inserted, the last release of an object frees it and what it owns. Of the
  threads: a counter is the number of references under any interleaving, but an object is deleted exactly once only when the puts do
  not overlap; the queue of the parallel example loses no snapshot and no wake-up, but a request to stop does not reach a resolver
  that waits. Of the containers: refinement, order, balance and termination.

  \<^bold>\<open>Loops.\<close> Loops over pointers are \<^theory_text>\<open>partial_function (option)\<close>, and that they return is part of
  each theorem about them. The mutual recursion of \<^verbatim>\<open>____machine__findnew_thread\<close> is bounded by the depth 2, and any
  larger bound is shown to give the same result (\<open>findnew_two_levels\<close>). The loop over the frames is bounded by
  the depth of the trace, as in the code; the loop over the lines of a file by the length of the file.

  \<^bold>\<open>Parameters.\<close> The system calls (record \<open>os\<close>, constrained by \<open>os_has_file\<close>), libunwind (the
  cursor, constrained by \<open>cursor_calls\<close>, the search in an unwind table, the creation of address spaces), libelf (the sections of a
  file) and, for the eBPF program, the helpers of the kernel (record \<open>kernel\<close>, constrained by \<open>regs_at\<close> and \<open>copies_stack\<close>).

  \<^bold>\<open>Not modelled.\<close> Memory orders weaker than sequential consistency (the library uses only the default one); interleavings of
  whole calls of the interface (the locks are checked to be balanced, each call is one step; the shared counters are the part treated
  under interleaving); of the examples the set-up through BCC and the printing of symbols, and \<^verbatim>\<open>examples/uprobe.cc\<close> and
  \<^verbatim>\<open>examples/pwrite64_event.cc\<close>, which have the threads and the resolver of the two modelled ones; the program that is probed in \<^verbatim>\<open>cases\<close> and
  the test in \<^verbatim>\<open>tests\<close>; the internals of libunwind and libelf; \<^verbatim>\<open>display_error\<close> and the debugging output, which only print. An
  allocation that fails ends the program (\<open>xmalloc\<close>), so that the operations above it are modelled where allocation succeeds.
\<close>

section \<open>The red-black tree\<close>

text \<open>
  C8. Inserting a node with \<^verbatim>\<open>rb_link_node\<close> and \<^verbatim>\<open>rb_insert_color\<close> at an empty position of
  a red-black tree in the heap returns, never goes through a null pointer, leaves a tree that still
  has the red-black properties and whose in-order sequence is the old one with the new node at that
  position, and writes to no other node or root.
\<close>

theorem rb_insert_correct:
  assumes "rb_tree_at h rt (plug Leaf fs)" "rb_ok (plug Leaf fs)"
    and "n \<noteq> NULL" "aligned n" "n \<notin> set (inorder (plug Leaf fs))"
  shows "\<exists>h1 h' t'. rb_link_node n (par fs) (link_of rt fs) h = Some h1 \<and>
     rb_insert_color n rt h1 = Some h' \<and> rb_tree_at h' rt t' \<and> rb_ok t' \<and>
     inorder t' = before fs @ n # after fs \<and> agree (set (inorder t')) rt h h'"
proof -
  obtain h1 h' t' where "rb_link_node n (par fs) (link_of rt fs) h = Some h1"
    "rb_insert_color n rt h1 = Some h'" "rb_tree_at h' rt t'" "rb_ok t'"
    "ins_fix Leaf n Leaf fs = Some t'" "agree (set (inorder t')) rt h h'"
    using rb_insert_refines [OF assms] by blast
  moreover from this have "inorder t' = before fs @ n # after fs"
    using ins_fix_inorder [of Leaf n Leaf fs t'] by simp
  ultimately show ?thesis by blast
qed

text \<open>A heap with the two nodes 8 (the black root) and 16 (its red right child) under the root at
  address 64, used to exercise the properties.\<close>

definition sample_heap :: rb_heap where
  "sample_heap = \<lparr>rb_parent_color = (\<lambda>a. if a = 8 then 1 else if a = 16 then 8 else 0),
     rb_right = (\<lambda>a. if a = 8 then 16 else NULL), rb_left = (\<lambda>a. NULL),
     rb_node = (\<lambda>r. if r = 64 then 8 else NULL)\<rparr>"

theorem rb_insert_correct_witness:
  "\<exists>h1 h' t'. rb_link_node 24 16 (LinkRight 16) sample_heap = Some h1 \<and>
     rb_insert_color 24 64 h1 = Some h' \<and> rb_tree_at h' 64 t' \<and> rb_ok t' \<and>
     inorder t' = [8, 16, 24] \<and> agree (set (inorder t')) 64 sample_heap h'"
  using rb_insert_correct [of sample_heap 64 "[FR Leaf Red 16, FR Leaf Black 8]" 24]
  by (simp add: rb_tree_at_def sample_heap_def rb_ok_def aligned_def)

text \<open>
  C9. \<^verbatim>\<open>rb_erase\<close> of a node of a red-black tree in the heap returns, never goes through a null
  pointer, leaves a red-black tree whose in-order sequence is the old one without the node, and
  writes only to nodes that stay in the tree and to the root (the fields of the removed node are
  left as they were).
\<close>

theorem rb_erase_correct:
  assumes t: "rb_tree_at h rt t" and ok: "rb_ok t" and x: "x \<in> set (inorder t)"
  shows "\<exists>h' t'. rb_erase x rt h = Some h' \<and> rb_tree_at h' rt t' \<and> rb_ok t' \<and>
     inorder t' = remove1 x (inorder t) \<and> agree (set (inorder t')) rt h h'"
proof -
  obtain l c r fs where p: "t = plug (Node l c x r) fs" using position [OF x] by blast
  obtain h' t' where e: "rb_erase x rt h = Some h'" "rb_tree_at h' rt t'" "rb_ok t'"
    "erase_at l c x r fs = Some t'" "agree (set (inorder t')) rt h h'"
    using rb_erase_refines [OF t [unfolded p] ok [unfolded p]] by blast
  have "x \<notin> set (before fs @ inorder l)" using t by (simp add: p rb_tree_at_def)
  then have "inorder t' = remove1 x (inorder t)"
    using erase_at_inorder [OF e(4)] by (simp add: p remove1_append)
  with e show ?thesis by blast
qed

theorem rb_erase_correct_witness:
  "\<exists>h' t'. rb_erase 8 64 sample_heap = Some h' \<and> rb_tree_at h' 64 t' \<and> rb_ok t' \<and>
     inorder t' = [16] \<and> agree (set (inorder t')) 64 sample_heap h'"
  using rb_erase_correct [of sample_heap 64 "Node Leaf Black 8 (Node Leaf Red 16 Leaf)" 8]
  by (simp add: rb_tree_at_def sample_heap_def rb_ok_def aligned_def)

text \<open>
  After \<^verbatim>\<open>rb_erase_init\<close> the node is marked as not being in a tree (\<^verbatim>\<open>RB_EMPTY_NODE\<close>),
  and the tree left at the root is the old one without the node.
\<close>

lemma rb_erase_init_correct:
  assumes t: "rb_tree_at h rt (plug (Node l c x r) fs)" and ok: "rb_ok (plug (Node l c x r) fs)"
  shows "\<exists>h' t'. rb_erase_init x rt h = Some h' \<and> RB_EMPTY_NODE x h' = Some True \<and>
     rb_tree_at h' rt t' \<and> rb_ok t' \<and> inorder t' = before fs @ inorder l @ inorder r @ after fs"
proof -
  obtain h' t' where e: "rb_erase x rt h = Some h'" "rb_tree_at h' rt t'" "rb_ok t'"
    "erase_at l c x r fs = Some t'"
    using rb_erase_refines [OF t ok] by blast
  note io = erase_at_inorder [OF e(4)]
  have x: "x \<noteq> NULL" using tree_at_plugD(1) [OF t] by simp
  have "x \<notin> set (inorder t')" using t by (auto simp: io rb_tree_at_def)
  then have "rb_tree_at (set_pc x x h') rt t'"
    using e(2) by (simp add: rb_tree_at_def heap_simps)
  with e x io show ?thesis
    by (auto simp: rb_erase_init_def RB_CLEAR_NODE_def RB_EMPTY_NODE_def load_simps heap_simps)
qed

text \<open>
  C34. A loop from \<^verbatim>\<open>rb_first\<close> along \<^verbatim>\<open>rb_next\<close> visits the in-order sequence of the tree once
  and ends; from \<^verbatim>\<open>rb_last\<close> along \<^verbatim>\<open>rb_prev\<close> it visits the reverse.
\<close>

theorem rb_walk_inorder:
  assumes "rb_tree_at h rt t"
  shows "visits (\<lambda>x. rb_next x h) (rb_first rt h) (inorder t) \<and>
     visits (\<lambda>x. rb_prev x h) (rb_last rt h) (rev (inorder t))"
  using forward_walk [OF assms] backward_walk [OF assms] by blast

theorem rb_walk_inorder_witness:
  "visits (\<lambda>x. rb_next x sample_heap) (rb_first 64 sample_heap) [8, 16] \<and>
     visits (\<lambda>x. rb_prev x sample_heap) (rb_last 64 sample_heap) [16, 8]"
  using rb_walk_inorder [of sample_heap 64 "Node Leaf Black 8 (Node Leaf Red 16 Leaf)"]
  by (simp add: rb_tree_at_def sample_heap_def aligned_def)

text \<open>
  A loop from \<^verbatim>\<open>rb_first_postorder\<close> along \<^verbatim>\<open>rb_next_postorder\<close> visits every node exactly
  once, children before their parent, and ends.
\<close>

lemma rb_walk_postorder:
  assumes "rb_tree_at h rt t"
  shows "visits (\<lambda>x. rb_next_postorder x h) (rb_first_postorder rt h) (postorder t)"
  using postorder_walk [OF assms] .

text \<open>
  \<^verbatim>\<open>rb_replace_node\<close> puts a new node in the place of a node of the tree, with its colour and
  neighbours, and changes nothing outside the resulting tree.
\<close>

lemma rb_replace_node_correct:
  assumes "rb_tree_at h rt (plug (Node l c x r) fs)"
    and "n \<noteq> NULL" "aligned n" "n \<notin> set (inorder (plug (Node l c x r) fs))"
  shows "\<exists>h'. rb_replace_node x n rt h = Some h' \<and> rb_tree_at h' rt (plug (Node l c n r) fs) \<and>
     agree (set (inorder (plug (Node l c n r) fs))) rt h h'"
  using rb_replace_node_at [OF assms] .

end
